(* ===== verification/IO_Prelude.thy ===== *)
theory IO_Prelude
  imports Main "HOL-Library.Word" "HOL-Library.Monad_Syntax"
begin

text \<open>
  The prelude of the development: the machine types of the C sources (x86-64 Linux), the
  theorem collections that carry the component proofs, and the lemmas on byte lists, words
  and options that several components share.
\<close>

unbundle bit_operations_syntax

section \<open>Machine types\<close>

text \<open>
  \<^verbatim>\<open>size_t\<close>, \<^verbatim>\<open>uint64_t\<close>, \<^verbatim>\<open>dev_t\<close> and \<^verbatim>\<open>ino_t\<close> are 64-bit unsigned; addition and
  multiplication wrap. A pointer is the 64-bit number it holds, \<^verbatim>\<open>NULL\<close> is 0. Signed 64-bit and
  32-bit quantities that the code only copies (times) are kept as words too.
\<close>

type_synonym u8 = "8 word"
type_synonym u16 = "16 word"
type_synonym u32 = "32 word"
type_synonym u64 = "64 word"
type_synonym size_t = "64 word"
type_synonym addr = "64 word"
type_synonym bytes = "8 word list"

abbreviation (input) NULL :: addr where
  "NULL \<equiv> 0"

section \<open>Theorem collections\<close>

named_theorems io_defs \<open>unfolding equations of the operations that only thread the world\<close>
named_theorems io_balance \<open>how an operation changes the resource balance\<close>

section \<open>Byte regions\<close>

text \<open>\<open>overwrite i xs buf\<close> is the region \<open>buf\<close> after \<open>xs\<close> was stored at offset \<open>i\<close>.\<close>

definition overwrite :: "nat \<Rightarrow> 'a list \<Rightarrow> 'a list \<Rightarrow> 'a list" where
  "overwrite i xs buf = take i buf @ xs @ drop (i + length xs) buf"

lemma length_overwrite [simp]:
  "i + length xs \<le> length buf \<Longrightarrow> length (overwrite i xs buf) = length buf"
  by (simp add: overwrite_def)

lemma overwrite_Nil [simp]: "overwrite i [] buf = buf"
  by (simp add: overwrite_def)

lemma take_overwrite_end:
  "i \<le> length buf \<Longrightarrow> take (i + length xs) (overwrite i xs buf) = take i buf @ xs"
  by (simp add: overwrite_def)

lemma take_overwrite_before:
  "j \<le> i \<Longrightarrow> i \<le> length buf \<Longrightarrow> take j (overwrite i xs buf) = take j buf"
  by (simp add: overwrite_def min_def)

lemma overwrite_overwrite_adjacent:
  "i \<le> length buf \<Longrightarrow>
   overwrite (i + length xs) ys (overwrite i xs buf) = overwrite i (xs @ ys) buf"
  by (simp add: overwrite_def ac_simps)

section \<open>Words\<close>

lemma unat_plus_if_small:
  "unat (a :: 'a::len word) + unat b < 2 ^ LENGTH('a) \<Longrightarrow> unat (a + b) = unat a + unat b"
  by (simp add: unat_word_ariths)

lemma unat_of_nat_small [simp]:
  "n < 2 ^ LENGTH('a) \<Longrightarrow> unat (of_nat n :: 'a::len word) = n"
  by (simp add: unat_of_nat take_bit_nat_eq_self)

lemma unat_of_nat64: "n < 2 ^ 64 \<Longrightarrow> unat (of_nat n :: u64) = n"
  by (rule unat_of_nat_small) simp

lemma unat_less64: "unat (x :: u64) < 2 ^ 64"
  using unsigned_less [of x] by simp

text \<open>A counter advanced by a number of bytes that stays within a limit.\<close>

lemma unat_advance:
  "unat (a :: u64) + n \<le> unat (b :: u64) \<Longrightarrow> unat (a + of_nat n) = unat a + n"
  using unat_less64 [of b] by (simp add: unat_word_ariths unat_of_nat)

lemma unat_pow2 [simp]: "n < LENGTH('a) \<Longrightarrow> unat (2 ^ n :: 'a::len word) = 2 ^ n"
  by (metis unat_of_nat_small of_nat_numeral of_nat_power power_strict_increasing_iff one_less_numeral_iff
      semiring_norm(76))

lemma unat_minus_le:
  "b \<le> a \<Longrightarrow> unat (a - b :: 'a::len word) = unat a - unat b"
  by (simp add: unat_sub_if_size word_le_nat_alt)

text \<open>One bit of a word, tested the way C tests a flag.\<close>

lemma and_bit_eq_if:
  "(m :: 'a::len word) AND 2 ^ k = (if bit m k then 2 ^ k else 0)"
  by (rule bit_word_eqI) (auto simp: bit_simps)

lemma and_bit_zero_iff: "(m :: 'a::len word) AND 2 ^ k = 0 \<longleftrightarrow> k < LENGTH('a) \<longrightarrow> \<not> bit m k"
  by (auto simp: and_bit_eq_if dest: bit_imp_le_length)

text \<open>Masking with a power of two minus one is the remainder.\<close>

lemma unat_and_mask:
  "unat ((x :: 'a::len word) AND (2 ^ n - 1)) = unat x mod 2 ^ n"
proof -
  have "x AND (2 ^ n - 1) = take_bit n x"
    by (simp add: take_bit_eq_mask mask_eq_decr_exp)
  then show ?thesis
    by (simp only: unsigned_take_bit_eq) (simp add: take_bit_eq_mod)
qed

section \<open>Little-endian loads\<close>

text \<open>The number stored in consecutive bytes, least significant first.\<close>

fun load_le :: "bytes \<Rightarrow> u64" where
  "load_le [] = 0"
| "load_le (b # bs) = ucast b OR push_bit 8 (load_le bs)"

section \<open>Loops\<close>

text \<open>
  \<open>iterate body x\<close> runs a loop whose body, from the state \<open>x\<close>, either goes round again from a
  new state (\<open>Inl\<close>, also for \<^verbatim>\<open>continue\<close>) or leaves with a result (\<open>Inr\<close>, for \<^verbatim>\<open>break\<close>, \<^verbatim>\<open>return\<close> and a
  failed loop condition). \<open>None\<close> is a loop that never leaves.
\<close>

partial_function (option) iterate :: "('x \<Rightarrow> 'x + 'r) \<Rightarrow> 'x \<Rightarrow> 'r option" where
  "iterate body x = (case body x of Inl x' \<Rightarrow> iterate body x' | Inr r \<Rightarrow> Some r)"

text \<open>What holds whenever the loop leaves.\<close>

lemma iterate_partial:
  assumes "iterate body x = Some r" and "P x"
    and "\<And>x x'. P x \<Longrightarrow> body x = Inl x' \<Longrightarrow> P x'"
    and "\<And>x r. P x \<Longrightarrow> body x = Inr r \<Longrightarrow> Q r"
  shows "Q r"
proof -
  have "body = body \<longrightarrow> P x \<longrightarrow> Q r"
  proof (rule iterate.raw_induct [where P = "\<lambda>b x r. b = body \<longrightarrow> P x \<longrightarrow> Q r" and xa = "(body, x)",
        unfolded prod.case, OF _ assms(1)], intro impI)
    fix f b x r
    assume IH: "\<And>b x r. f b x = Some r \<Longrightarrow> b = body \<longrightarrow> P x \<longrightarrow> Q r"
      and eq: "(case b x of Inl x' \<Rightarrow> f b x' | Inr r \<Rightarrow> Some r) = Some r"
      and b: "b = body" and "P x"
    show "Q r"
    proof (cases "body x")
      case (Inl x')
      with eq b have "f body x' = Some r" by simp
      with IH assms(3) [OF \<open>P x\<close> Inl] show ?thesis by blast
    next
      case (Inr r')
      with eq b assms(4) [OF \<open>P x\<close> Inr] show ?thesis by simp
    qed
  qed
  with assms(2) show ?thesis by blast
qed

text \<open>A loop that decreases a measure while an invariant holds leaves.\<close>

lemma iterate_total:
  assumes "P x"
    and "\<And>x x'. P x \<Longrightarrow> body x = Inl x' \<Longrightarrow> P x' \<and> (m x' :: nat) < m x"
  shows "\<exists>r. iterate body x = Some r"
  using assms(1)
proof (induction "m x" arbitrary: x rule: less_induct)
  case less
  show ?case
  proof (cases "body x")
    case (Inl x')
    with assms(2) [OF less.prems] less.hyps [of x'] show ?thesis
      by (subst iterate.simps) simp
  next
    case (Inr r)
    then show ?thesis by (subst iterate.simps) simp
  qed
qed

end
