(* ===== verification/IO_Env.thy ===== *)
theory IO_Env
  imports IO_Prelude
begin

text \<open>
  The world the library runs in. Everything below bc-io (the Linux system calls, the pool and
  arena allocators of bc-allocators, the helpers of bc-core) is a parameter of the model: the
  record \<open>io_env\<close> of its answers. An answer may depend on the whole history of calls, so an
  environment is any deterministic behaviour, and a theorem that quantifies over \<open>io_env\<close>
  holds for every behaviour of the kernel and of the allocators. The history (\<open>trace\<close>) is part
  of the state, together with \<^verbatim>\<open>errno\<close>; what the library did to the outside is read off it:
  the resources it still holds (\<open>balance\<close>) and the bytes it delivered (\<open>os_written\<close>).

  What the code relies on in these parameters is stated as named predicates at the end of the
  theory (\<open>reads_bounded\<close>, \<open>bc_core_ok\<close>, \<dots>), which the theorems that need them assume.
\<close>

section \<open>Constants of the C headers (x86-64 Linux)\<close>

definition EPERM :: int where "EPERM = 1"
definition EINTR :: int where "EINTR = 4"
definition EAGAIN :: int where "EAGAIN = 11"
definition ENOMEM :: int where "ENOMEM = 12"
definition EINVAL :: int where "EINVAL = 22"
definition ENAMETOOLONG :: int where "ENAMETOOLONG = 36"

lemmas errno_defs = EPERM_def EINTR_def EAGAIN_def ENOMEM_def EINVAL_def ENAMETOOLONG_def

definition O_RDONLY :: u32 where "O_RDONLY = 0"
definition O_WRONLY :: u32 where "O_WRONLY = 1"
definition O_CREAT :: u32 where "O_CREAT = 64"
definition O_TRUNC :: u32 where "O_TRUNC = 512"
definition O_NONBLOCK :: u32 where "O_NONBLOCK = 2048"
definition O_DIRECTORY :: u32 where "O_DIRECTORY = 65536"
definition O_NOFOLLOW :: u32 where "O_NOFOLLOW = 131072"
definition O_NOATIME :: u32 where "O_NOATIME = 262144"
definition O_CLOEXEC :: u32 where "O_CLOEXEC = 524288"

lemmas open_flag_defs = O_RDONLY_def O_WRONLY_def O_CREAT_def O_TRUNC_def O_NONBLOCK_def
  O_DIRECTORY_def O_NOFOLLOW_def O_NOATIME_def O_CLOEXEC_def

text \<open>The file-type field of \<^verbatim>\<open>st_mode\<close> and the \<^verbatim>\<open>S_ISxxx\<close> tests.\<close>

definition S_IFMT :: u32 where "S_IFMT = 0xF000"
definition S_IFSOCK :: u32 where "S_IFSOCK = 0xC000"
definition S_IFLNK :: u32 where "S_IFLNK = 0xA000"
definition S_IFREG :: u32 where "S_IFREG = 0x8000"
definition S_IFBLK :: u32 where "S_IFBLK = 0x6000"
definition S_IFDIR :: u32 where "S_IFDIR = 0x4000"
definition S_IFCHR :: u32 where "S_IFCHR = 0x2000"
definition S_IFIFO :: u32 where "S_IFIFO = 0x1000"

lemmas file_type_defs = S_IFMT_def S_IFSOCK_def S_IFLNK_def S_IFREG_def S_IFBLK_def
  S_IFDIR_def S_IFCHR_def S_IFIFO_def

definition S_ISREG :: "u32 \<Rightarrow> bool" where "S_ISREG m \<longleftrightarrow> m AND S_IFMT = S_IFREG"
definition S_ISDIR :: "u32 \<Rightarrow> bool" where "S_ISDIR m \<longleftrightarrow> m AND S_IFMT = S_IFDIR"
definition S_ISLNK :: "u32 \<Rightarrow> bool" where "S_ISLNK m \<longleftrightarrow> m AND S_IFMT = S_IFLNK"
definition S_ISCHR :: "u32 \<Rightarrow> bool" where "S_ISCHR m \<longleftrightarrow> m AND S_IFMT = S_IFCHR"
definition S_ISBLK :: "u32 \<Rightarrow> bool" where "S_ISBLK m \<longleftrightarrow> m AND S_IFMT = S_IFBLK"
definition S_ISFIFO :: "u32 \<Rightarrow> bool" where "S_ISFIFO m \<longleftrightarrow> m AND S_IFMT = S_IFIFO"
definition S_ISSOCK :: "u32 \<Rightarrow> bool" where "S_ISSOCK m \<longleftrightarrow> m AND S_IFMT = S_IFSOCK"

lemmas file_test_defs = S_ISREG_def S_ISDIR_def S_ISLNK_def S_ISCHR_def S_ISBLK_def
  S_ISFIFO_def S_ISSOCK_def

section \<open>Calls and their history\<close>

text \<open>The fields of \<^verbatim>\<open>struct stat\<close> the code reads.\<close>

record c_stat =
  st_mode :: u32
  st_size :: u64
  st_dev :: u64
  st_ino :: u64
  st_nlink :: u64
  st_uid :: u32
  st_gid :: u32
  st_mtim_sec :: u64
  st_mtim_nsec :: u64

text \<open>
  One event per call, with its arguments and its answer: \<open>Inl e\<close> is a failure that set
  \<^verbatim>\<open>errno\<close> to \<open>e\<close>, \<open>Inr v\<close> a success. A file descriptor is a natural number; \<^verbatim>\<open>read\<close>,
  \<^verbatim>\<open>getrandom\<close> and \<^verbatim>\<open>getdents64\<close> answer with the bytes they stored (their count is the C result),
  \<^verbatim>\<open>write\<close> with the number of bytes it took. The queues of bc-concurrency and the contexts of
  bc-allocators are created (or not) and destroyed; \<^verbatim>\<open>mkstemp\<close> answers with the descriptor and the name of the new file.
\<close>

datatype event =
    Ev_open bytes u32 u32 "int + nat"
  | Ev_close int "int + unit"
  | Ev_read int size_t "int + bytes"
  | Ev_write int bytes "int + nat"
  | Ev_fstat int "int + c_stat"
  | Ev_stat bytes "int + c_stat"
  | Ev_lstat bytes "int + c_stat"
  | Ev_fstatat int bytes u32 "int + c_stat"
  | Ev_fadvise int u64 u64 u32 int
  | Ev_mmap size_t u32 u32 int u64 "int + addr"
  | Ev_munmap addr size_t "int + unit"
  | Ev_madvise addr size_t u32 "int + unit"
  | Ev_getdents int size_t "int + bytes"
  | Ev_getrandom size_t u32 "int + bytes"
  | Ev_getcwd size_t "int + bytes"
  | Ev_pool_allocate addr size_t "int + addr"
  | Ev_pool_free addr addr
  | Ev_arena_create addr size_t "int + addr"
  | Ev_arena_allocate addr size_t size_t "int + addr"
  | Ev_arena_destroy addr
  | Ev_queue_create addr size_t size_t "addr option"
  | Ev_queue_destroy addr
  | Ev_context_create "addr option"
  | Ev_context_destroy addr
  | Ev_mkstemp bytes "int + nat \<times> bytes"
  | Ev_unlink bytes "int + unit"

type_synonym history = "event list"

record io_env =
  env_open :: "history \<Rightarrow> bytes \<Rightarrow> u32 \<Rightarrow> u32 \<Rightarrow> int + nat"
  env_close :: "history \<Rightarrow> int \<Rightarrow> int + unit"
  env_read :: "history \<Rightarrow> int \<Rightarrow> size_t \<Rightarrow> int + bytes"
  env_write :: "history \<Rightarrow> int \<Rightarrow> bytes \<Rightarrow> int + nat"
  env_fstat :: "history \<Rightarrow> int \<Rightarrow> int + c_stat"
  env_stat :: "history \<Rightarrow> bytes \<Rightarrow> int + c_stat"
  env_lstat :: "history \<Rightarrow> bytes \<Rightarrow> int + c_stat"
  env_fstatat :: "history \<Rightarrow> int \<Rightarrow> bytes \<Rightarrow> u32 \<Rightarrow> int + c_stat"
  env_fadvise :: "history \<Rightarrow> int \<Rightarrow> u64 \<Rightarrow> u64 \<Rightarrow> u32 \<Rightarrow> int"
  env_mmap :: "history \<Rightarrow> size_t \<Rightarrow> u32 \<Rightarrow> u32 \<Rightarrow> int \<Rightarrow> u64 \<Rightarrow> int + addr"
  env_munmap :: "history \<Rightarrow> addr \<Rightarrow> size_t \<Rightarrow> int + unit"
  env_madvise :: "history \<Rightarrow> addr \<Rightarrow> size_t \<Rightarrow> u32 \<Rightarrow> int + unit"
  env_getdents :: "history \<Rightarrow> int \<Rightarrow> size_t \<Rightarrow> int + bytes"
  env_getrandom :: "history \<Rightarrow> size_t \<Rightarrow> u32 \<Rightarrow> int + bytes"
  env_getcwd :: "history \<Rightarrow> size_t \<Rightarrow> int + bytes"
  env_pool_allocate :: "history \<Rightarrow> addr \<Rightarrow> size_t \<Rightarrow> int + addr"
  env_arena_create :: "history \<Rightarrow> addr \<Rightarrow> size_t \<Rightarrow> int + addr"
  env_arena_allocate :: "history \<Rightarrow> addr \<Rightarrow> size_t \<Rightarrow> size_t \<Rightarrow> int + addr"
  env_page_size :: "addr \<Rightarrow> size_t option"
  env_indeterminate :: "history \<Rightarrow> size_t"
  env_fresh_byte :: "history \<Rightarrow> nat \<Rightarrow> u8"
  core_safe_multiply :: "size_t \<Rightarrow> size_t \<Rightarrow> size_t option"
  core_safe_add :: "size_t \<Rightarrow> size_t \<Rightarrow> size_t option"
  core_align_up :: "size_t \<Rightarrow> size_t \<Rightarrow> size_t option"
  core_length :: "bytes \<Rightarrow> u8 \<Rightarrow> size_t option"
  core_copy :: "bytes \<Rightarrow> bytes"
  core_move :: "bytes \<Rightarrow> bytes"
  core_zero :: "size_t \<Rightarrow> bool \<times> bytes"

text \<open>
  \<open>core_copy src\<close> and \<open>core_move src\<close> are the bytes at the destination after
  \<^verbatim>\<open>bc_core_copy(dst, src, n)\<close> and \<^verbatim>\<open>bc_core_move(dst, src, n)\<close> with \<open>n = length src\<close>;
  \<open>core_zero n\<close> is the result of \<^verbatim>\<open>bc_core_zero(p, n)\<close> with the \<open>n\<close> bytes at \<open>p\<close> after it;
  the others return \<open>None\<close> where the C function returns false and leaves its output argument
  alone. \<open>env_indeterminate\<close> is the value found in an automatic \<^verbatim>\<open>size_t\<close> object that was never
  written, \<open>env_fresh_byte\<close> the byte at an offset of memory an allocator just returned.
\<close>

definition fresh_memory :: "io_env \<Rightarrow> history \<Rightarrow> size_t \<Rightarrow> bytes" where
  "fresh_memory env h n = map (env_fresh_byte env h) [0..<unat n]"

lemma length_fresh_memory [simp]: "length (fresh_memory env h n) = unat n"
  by (simp add: fresh_memory_def)

record io_world =
  trace :: history
  errno :: int

definition log_event :: "event \<Rightarrow> 'w io_world_scheme \<Rightarrow> 'w io_world_scheme" where
  "log_event ev w = w\<lparr>trace := trace w @ [ev]\<rparr>"

definition set_errno :: "int \<Rightarrow> 'w io_world_scheme \<Rightarrow> 'w io_world_scheme" where
  "set_errno e w = w\<lparr>errno := e\<rparr>"

text \<open>A call: its event is logged, and a failure sets \<^verbatim>\<open>errno\<close>.\<close>

definition answer :: "(int + 'a \<Rightarrow> event) \<Rightarrow> int + 'a \<Rightarrow> 'w io_world_scheme \<Rightarrow>
    (int + 'a) \<times> 'w io_world_scheme" where
  "answer ev r w =
     (r, case r of Inl e \<Rightarrow> set_errno e (log_event (ev r) w) | Inr _ \<Rightarrow> log_event (ev r) w)"

definition sys_open :: "io_env \<Rightarrow> bytes \<Rightarrow> u32 \<Rightarrow> u32 \<Rightarrow> 'w io_world_scheme \<Rightarrow> int \<times> 'w io_world_scheme" where
  "sys_open env path flags mode w =
     (let (r, w) = answer (Ev_open path flags mode) (env_open env (trace w) path flags mode) w
      in (case r of Inl _ \<Rightarrow> -1 | Inr fd \<Rightarrow> int fd, w))"

definition sys_close :: "io_env \<Rightarrow> int \<Rightarrow> 'w io_world_scheme \<Rightarrow> 'w io_world_scheme" where
  "sys_close env fd w = snd (answer (Ev_close fd) (env_close env (trace w) fd) w)"

definition sys_read :: "io_env \<Rightarrow> int \<Rightarrow> size_t \<Rightarrow> 'w io_world_scheme \<Rightarrow> (int + bytes) \<times> 'w io_world_scheme" where
  "sys_read env fd n w = answer (Ev_read fd n) (env_read env (trace w) fd n) w"

definition sys_write :: "io_env \<Rightarrow> int \<Rightarrow> bytes \<Rightarrow> 'w io_world_scheme \<Rightarrow> (int + nat) \<times> 'w io_world_scheme" where
  "sys_write env fd bs w = answer (Ev_write fd bs) (env_write env (trace w) fd bs) w"

definition sys_fstat :: "io_env \<Rightarrow> int \<Rightarrow> 'w io_world_scheme \<Rightarrow> (int + c_stat) \<times> 'w io_world_scheme" where
  "sys_fstat env fd w = answer (Ev_fstat fd) (env_fstat env (trace w) fd) w"

definition sys_stat :: "io_env \<Rightarrow> bytes \<Rightarrow> 'w io_world_scheme \<Rightarrow> (int + c_stat) \<times> 'w io_world_scheme" where
  "sys_stat env path w = answer (Ev_stat path) (env_stat env (trace w) path) w"

definition sys_lstat :: "io_env \<Rightarrow> bytes \<Rightarrow> 'w io_world_scheme \<Rightarrow> (int + c_stat) \<times> 'w io_world_scheme" where
  "sys_lstat env path w = answer (Ev_lstat path) (env_lstat env (trace w) path) w"

definition sys_fstatat :: "io_env \<Rightarrow> int \<Rightarrow> bytes \<Rightarrow> u32 \<Rightarrow> 'w io_world_scheme \<Rightarrow>
    (int + c_stat) \<times> 'w io_world_scheme" where
  "sys_fstatat env dir name flags w =
     answer (Ev_fstatat dir name flags) (env_fstatat env (trace w) dir name flags) w"

text \<open>\<^verbatim>\<open>posix_fadvise\<close> returns an error number and leaves \<^verbatim>\<open>errno\<close> alone.\<close>

definition sys_fadvise :: "io_env \<Rightarrow> int \<Rightarrow> u64 \<Rightarrow> u64 \<Rightarrow> u32 \<Rightarrow> 'w io_world_scheme \<Rightarrow> int \<times> 'w io_world_scheme" where
  "sys_fadvise env fd off len advice w =
     (let r = env_fadvise env (trace w) fd off len advice
      in (r, log_event (Ev_fadvise fd off len advice r) w))"

definition sys_mmap :: "io_env \<Rightarrow> size_t \<Rightarrow> u32 \<Rightarrow> u32 \<Rightarrow> int \<Rightarrow> u64 \<Rightarrow> 'w io_world_scheme \<Rightarrow>
    (int + addr) \<times> 'w io_world_scheme" where
  "sys_mmap env len prot flags fd off w =
     answer (Ev_mmap len prot flags fd off) (env_mmap env (trace w) len prot flags fd off) w"

definition sys_munmap :: "io_env \<Rightarrow> addr \<Rightarrow> size_t \<Rightarrow> 'w io_world_scheme \<Rightarrow> 'w io_world_scheme" where
  "sys_munmap env p len w = snd (answer (Ev_munmap p len) (env_munmap env (trace w) p len) w)"

definition sys_madvise :: "io_env \<Rightarrow> addr \<Rightarrow> size_t \<Rightarrow> u32 \<Rightarrow> 'w io_world_scheme \<Rightarrow>
    (int + unit) \<times> 'w io_world_scheme" where
  "sys_madvise env p len advice w =
     answer (Ev_madvise p len advice) (env_madvise env (trace w) p len advice) w"

definition sys_getdents :: "io_env \<Rightarrow> int \<Rightarrow> size_t \<Rightarrow> 'w io_world_scheme \<Rightarrow> (int + bytes) \<times> 'w io_world_scheme" where
  "sys_getdents env fd n w = answer (Ev_getdents fd n) (env_getdents env (trace w) fd n) w"

definition sys_getrandom :: "io_env \<Rightarrow> size_t \<Rightarrow> u32 \<Rightarrow> 'w io_world_scheme \<Rightarrow> (int + bytes) \<times> 'w io_world_scheme" where
  "sys_getrandom env n flags w = answer (Ev_getrandom n flags) (env_getrandom env (trace w) n flags) w"

definition sys_getcwd :: "io_env \<Rightarrow> size_t \<Rightarrow> 'w io_world_scheme \<Rightarrow> (int + bytes) \<times> 'w io_world_scheme" where
  "sys_getcwd env n w = answer (Ev_getcwd n) (env_getcwd env (trace w) n) w"

definition pool_allocate :: "io_env \<Rightarrow> addr \<Rightarrow> size_t \<Rightarrow> 'w io_world_scheme \<Rightarrow> (int + addr) \<times> 'w io_world_scheme" where
  "pool_allocate env ctx n w = answer (Ev_pool_allocate ctx n) (env_pool_allocate env (trace w) ctx n) w"

definition pool_free :: "addr \<Rightarrow> addr \<Rightarrow> 'w io_world_scheme \<Rightarrow> 'w io_world_scheme" where
  "pool_free ctx p w = log_event (Ev_pool_free ctx p) w"

definition arena_create :: "io_env \<Rightarrow> addr \<Rightarrow> size_t \<Rightarrow> 'w io_world_scheme \<Rightarrow> (int + addr) \<times> 'w io_world_scheme" where
  "arena_create env ctx n w = answer (Ev_arena_create ctx n) (env_arena_create env (trace w) ctx n) w"

definition arena_allocate :: "io_env \<Rightarrow> addr \<Rightarrow> size_t \<Rightarrow> size_t \<Rightarrow> 'w io_world_scheme \<Rightarrow>
    (int + addr) \<times> 'w io_world_scheme" where
  "arena_allocate env arena n align w =
     answer (Ev_arena_allocate arena n align) (env_arena_allocate env (trace w) arena n align) w"

definition arena_destroy :: "addr \<Rightarrow> 'w io_world_scheme \<Rightarrow> 'w io_world_scheme" where
  "arena_destroy arena w = log_event (Ev_arena_destroy arena) w"

lemmas sys_defs [io_defs] = sys_open_def sys_close_def sys_read_def sys_write_def sys_fstat_def
  sys_stat_def sys_lstat_def sys_fstatat_def sys_fadvise_def sys_mmap_def sys_munmap_def
  sys_madvise_def sys_getdents_def sys_getrandom_def sys_getcwd_def pool_allocate_def
  pool_free_def arena_create_def arena_allocate_def arena_destroy_def

lemma answer_simps [simp]:
  "fst (answer ev r w) = r"
  "trace (snd (answer ev r w)) = trace w @ [ev r]"
  by (auto simp: answer_def log_event_def set_errno_def split: sum.splits)

lemma world_simps [simp]:
  "trace (log_event ev w) = trace w @ [ev]"
  "errno (log_event ev w) = errno w"
  "trace (set_errno e w) = trace w"
  "errno (set_errno e w) = e"
  by (simp_all add: log_event_def set_errno_def)

section \<open>Reading the history\<close>

text \<open>
  The resources a caller can hold. \<open>balance h r\<close> counts how often the calls of \<open>h\<close> acquired \<open>r\<close>
  less how often they released it: a leak is a positive balance that stays, a double release a
  negative one.
\<close>

datatype resource = Descriptor int | Block addr | Arena addr | Mapping addr size_t | Queue addr | Context addr

fun delta :: "event \<Rightarrow> resource \<Rightarrow> int" where
  "delta (Ev_open _ _ _ (Inr fd)) r = of_bool (r = Descriptor (int fd))"
| "delta (Ev_close fd _) r = - of_bool (r = Descriptor fd)"
| "delta (Ev_mmap len _ _ _ _ (Inr p)) r = of_bool (r = Mapping p len)"
| "delta (Ev_munmap p len _) r = - of_bool (r = Mapping p len)"
| "delta (Ev_pool_allocate _ _ (Inr p)) r = of_bool (r = Block p)"
| "delta (Ev_pool_free _ p) r = - of_bool (r = Block p)"
| "delta (Ev_arena_create _ _ (Inr p)) r = of_bool (r = Arena p)"
| "delta (Ev_arena_destroy p) r = - of_bool (r = Arena p)"
| "delta (Ev_queue_create _ _ _ (Some p)) r = of_bool (r = Queue p)"
| "delta (Ev_queue_destroy p) r = - of_bool (r = Queue p)"
| "delta (Ev_context_create (Some p)) r = of_bool (r = Context p)"
| "delta (Ev_context_destroy p) r = - of_bool (r = Context p)"
| "delta (Ev_mkstemp _ (Inr (fd, _))) r = of_bool (r = Descriptor (int fd))"
| "delta _ r = 0"

definition balance :: "history \<Rightarrow> resource \<Rightarrow> int" where
  "balance h r = (\<Sum>ev \<leftarrow> h. delta ev r)"

lemma balance_append [simp]: "balance (h @ k) r = balance h r + balance k r"
  by (simp add: balance_def)

lemma balance_Cons [simp]: "balance (ev # h) r = delta ev r + balance h r"
  by (simp add: balance_def)

lemma balance_Nil [simp]: "balance [] r = 0"
  by (simp add: balance_def)

text \<open>The bytes the kernel took on a descriptor and the bytes it delivered, in order.\<close>

fun taken_by :: "int \<Rightarrow> event \<Rightarrow> bytes" where
  "taken_by fd (Ev_write fd' bs (Inr k)) = (if fd' = fd then take k bs else [])"
| "taken_by fd _ = []"

fun delivered_by :: "int \<Rightarrow> event \<Rightarrow> bytes" where
  "delivered_by fd (Ev_read fd' _ (Inr bs)) = (if fd' = fd then bs else [])"
| "delivered_by fd _ = []"

definition os_written :: "history \<Rightarrow> int \<Rightarrow> bytes" where
  "os_written h fd = concat (map (taken_by fd) h)"

definition os_delivered :: "history \<Rightarrow> int \<Rightarrow> bytes" where
  "os_delivered h fd = concat (map (delivered_by fd) h)"

lemma os_written_simps [simp]:
  "os_written [] fd = []"
  "os_written (ev # h) fd = taken_by fd ev @ os_written h fd"
  "os_written (h @ k) fd = os_written h fd @ os_written k fd"
  by (simp_all add: os_written_def)

lemma os_delivered_simps [simp]:
  "os_delivered [] fd = []"
  "os_delivered (ev # h) fd = delivered_by fd ev @ os_delivered h fd"
  "os_delivered (h @ k) fd = os_delivered h fd @ os_delivered k fd"
  by (simp_all add: os_delivered_def)

text \<open>
  An event on which a transfer loop makes no progress and tries again: an interrupted call, or
  a \<^verbatim>\<open>write\<close> or \<^verbatim>\<open>getrandom\<close> of at least one byte that took or gave nothing.
\<close>

fun stalled :: "event \<Rightarrow> bool" where
  "stalled (Ev_read _ _ (Inl e)) = (e = EINTR)"
| "stalled (Ev_write _ _ (Inl e)) = (e = EINTR)"
| "stalled (Ev_write _ bs (Inr k)) = (k = 0 \<and> bs \<noteq> [])"
| "stalled (Ev_getrandom _ _ (Inl e)) = (e = EINTR)"
| "stalled (Ev_getrandom n _ (Inr bs)) = (bs = [] \<and> n \<noteq> 0)"
| "stalled _ = False"

definition stalls :: "history \<Rightarrow> nat" where
  "stalls h = length (filter stalled h)"

lemma stalls_simps [simp]:
  "stalls [] = 0"
  "stalls (h @ k) = stalls h + stalls k"
  "stalls (ev # h) = of_bool (stalled ev) + stalls h"
  by (simp_all add: stalls_def)

section \<open>What the code relies on\<close>

text \<open>
  \<^verbatim>\<open>read(2)\<close>, \<^verbatim>\<open>write(2)\<close>, \<^verbatim>\<open>getrandom(2)\<close> and \<^verbatim>\<open>getdents64(2)\<close> never transfer more than the
  count they were given.
\<close>

definition reads_bounded :: "io_env \<Rightarrow> bool" where
  "reads_bounded env \<longleftrightarrow> (\<forall>h fd n bs. env_read env h fd n = Inr bs \<longrightarrow> length bs \<le> unat n)"

definition writes_bounded :: "io_env \<Rightarrow> bool" where
  "writes_bounded env \<longleftrightarrow> (\<forall>h fd bs k. env_write env h fd bs = Inr k \<longrightarrow> k \<le> length bs)"

definition getrandom_bounded :: "io_env \<Rightarrow> bool" where
  "getrandom_bounded env \<longleftrightarrow>
     (\<forall>h n fl bs. env_getrandom env h n fl = Inr bs \<longrightarrow> length bs \<le> unat n)"

text \<open>
  Signals and empty transfers do not go on for ever: at most \<open>N\<close> of them happen in a history.
\<close>

definition stalls_bounded :: "nat \<Rightarrow> io_env \<Rightarrow> bool" where
  "stalls_bounded N env \<longleftrightarrow>
     (\<forall>h fd n. stalled (Ev_read fd n (env_read env h fd n)) \<longrightarrow> stalls h < N) \<and>
     (\<forall>h fd bs. stalled (Ev_write fd bs (env_write env h fd bs)) \<longrightarrow> stalls h < N) \<and>
     (\<forall>h n fl. stalled (Ev_getrandom n fl (env_getrandom env h n fl)) \<longrightarrow> stalls h < N)"

lemma stalls_boundedD:
  assumes "stalls_bounded N env"
  shows "stalled (Ev_read fd n (env_read env h fd n)) \<Longrightarrow> stalls h < N"
    and "stalled (Ev_write fd bs (env_write env h fd bs)) \<Longrightarrow> stalls h < N"
    and "stalled (Ev_getrandom m fl (env_getrandom env h m fl)) \<Longrightarrow> stalls h < N"
  using assms unfolding stalls_bounded_def by blast+

text \<open>
  bc-core: the copying primitives copy, \<^verbatim>\<open>bc_core_zero\<close> clears, the checked operations fail
  exactly on overflow, \<^verbatim>\<open>bc_core_align_up\<close> rounds up to a multiple, \<^verbatim>\<open>bc_core_length\<close> finds
  the first terminator.
\<close>

definition bc_core_ok :: "io_env \<Rightarrow> bool" where
  "bc_core_ok env \<longleftrightarrow>
     (\<forall>bs. core_copy env bs = bs) \<and> (\<forall>bs. core_move env bs = bs) \<and>
     (\<forall>n. core_zero env n = (True, replicate (unat n) 0)) \<and>
     (\<forall>a b. core_safe_multiply env a b =
        (if unat a * unat b < 2 ^ 64 then Some (a * b) else None)) \<and>
     (\<forall>a b. core_safe_add env a b =
        (if unat a + unat b < 2 ^ 64 then Some (a + b) else None)) \<and>
     (\<forall>a k. k = 64 \<longrightarrow> core_align_up env a k =
        (if unat a + 63 < 2 ^ 64 then Some (of_nat ((unat a + 63) div 64 * 64)) else None)) \<and>
     (\<forall>bs t. core_length env bs t =
        (if t \<in> set bs then Some (of_nat (length (takeWhile (\<lambda>b. b \<noteq> t) bs))) else None))"

lemma bc_core_okD:
  assumes "bc_core_ok env"
  shows "core_copy env bs = bs" and "core_move env bs = bs"
    and "core_zero env n = (True, replicate (unat n) 0)"
    and "core_safe_multiply env a b = (if unat a * unat b < 2 ^ 64 then Some (a * b) else None)"
    and "core_safe_add env a b = (if unat a + unat b < 2 ^ 64 then Some (a + b) else None)"
    and "core_align_up env a 64 =
      (if unat a + 63 < 2 ^ 64 then Some (of_nat ((unat a + 63) div 64 * 64)) else None)"
    and "core_length env bs t =
      (if t \<in> set bs then Some (of_nat (length (takeWhile (\<lambda>b. b \<noteq> t) bs))) else None)"
  using assms by (auto simp: bc_core_ok_def)

text \<open>\<^verbatim>\<open>mmap(2)\<close> without \<^verbatim>\<open>MAP_FIXED\<close> and the allocators never return the null pointer.\<close>

definition addresses_ok :: "io_env \<Rightarrow> bool" where
  "addresses_ok env \<longleftrightarrow>
     (\<forall>h n pr fl fd off p. env_mmap env h n pr fl fd off = Inr p \<longrightarrow> p \<noteq> NULL) \<and>
     (\<forall>h c n p. env_pool_allocate env h c n = Inr p \<longrightarrow> p \<noteq> NULL) \<and>
     (\<forall>h c n p. env_arena_create env h c n = Inr p \<longrightarrow> p \<noteq> NULL) \<and>
     (\<forall>h a n al p. env_arena_allocate env h a n al = Inr p \<longrightarrow> p \<noteq> NULL)"

section \<open>A sample environment\<close>

text \<open>
  A well-behaved environment for concrete runs: every call succeeds, descriptors and addresses are
  numbered by the length of the history, files are empty, \<^verbatim>\<open>write\<close> takes everything.
\<close>

definition plain_stat :: c_stat where
  "plain_stat = \<lparr>st_mode = 0x81A4, st_size = 0, st_dev = 1, st_ino = 2, st_nlink = 1, st_uid = 0,
     st_gid = 0, st_mtim_sec = 0, st_mtim_nsec = 0\<rparr>"

definition calm_env :: io_env where
  "calm_env = \<lparr>
     env_open = (\<lambda>h _ _ _. Inr (length h + 3)),
     env_close = (\<lambda>_ _. Inr ()),
     env_read = (\<lambda>_ _ _. Inr []),
     env_write = (\<lambda>_ _ bs. Inr (length bs)),
     env_fstat = (\<lambda>_ _. Inr plain_stat),
     env_stat = (\<lambda>_ _. Inr plain_stat),
     env_lstat = (\<lambda>_ _. Inr plain_stat),
     env_fstatat = (\<lambda>_ _ _ _. Inr plain_stat),
     env_fadvise = (\<lambda>_ _ _ _ _. 0),
     env_mmap = (\<lambda>h _ _ _ _ _. Inr (if of_nat (length h) * 4096 = (0 :: addr) then 4096 else of_nat (length h) * 4096)),
     env_munmap = (\<lambda>_ _ _. Inr ()),
     env_madvise = (\<lambda>_ _ _ _. Inr ()),
     env_getdents = (\<lambda>_ _ _. Inr []),
     env_getrandom = (\<lambda>_ n _. Inr (replicate (unat n) 7)),
     env_getcwd = (\<lambda>_ _. Inr [47, 0]),
     env_pool_allocate = (\<lambda>h _ _. Inr (if of_nat (length h) * 64 = (0 :: addr) then 64 else of_nat (length h) * 64)),
     env_arena_create = (\<lambda>h _ _. Inr (if of_nat (length h) * 64 = (0 :: addr) then 64 else of_nat (length h) * 64)),
     env_arena_allocate = (\<lambda>h _ _ _. Inr (if of_nat (length h) * 64 = (0 :: addr) then 64 else of_nat (length h) * 64)),
     env_page_size = (\<lambda>_. Some 4096),
     env_indeterminate = (\<lambda>_. 0),
     env_fresh_byte = (\<lambda>_ _. 0),
     core_safe_multiply = (\<lambda>a b. if unat a * unat b < 2 ^ 64 then Some (a * b) else None),
     core_safe_add = (\<lambda>a b. if unat a + unat b < 2 ^ 64 then Some (a + b) else None),
     core_align_up = (\<lambda>a k. if k = 64 then
        (if unat a + 63 < 2 ^ 64 then Some (of_nat ((unat a + 63) div 64 * 64)) else None) else None),
     core_length = (\<lambda>bs t. if t \<in> set bs then Some (of_nat (length (takeWhile (\<lambda>b. b \<noteq> t) bs))) else None),
     core_copy = (\<lambda>bs. bs),
     core_move = (\<lambda>bs. bs),
     core_zero = (\<lambda>n. (True, replicate (unat n) 0))\<rparr>"

lemma calm_env_sel [simp]:
  "env_open calm_env h p fl m = Inr (length h + 3)"
  "env_close calm_env h fd = Inr ()"
  "env_read calm_env h fd n = Inr []"
  "env_write calm_env h fd bs = Inr (length bs)"
  "env_fstat calm_env h fd = Inr plain_stat"
  "env_pool_allocate calm_env h c n = Inr (if of_nat (length h) * 64 = (0 :: addr) then 64 else of_nat (length h) * 64)"
  "env_arena_create calm_env h c n = Inr (if of_nat (length h) * 64 = (0 :: addr) then 64 else of_nat (length h) * 64)"
  "env_arena_allocate calm_env h a n al = Inr (if of_nat (length h) * 64 = (0 :: addr) then 64 else of_nat (length h) * 64)"
  by (simp_all add: calm_env_def)

lemma calm_env_ok:
  "bc_core_ok calm_env" "reads_bounded calm_env" "writes_bounded calm_env" "getrandom_bounded calm_env"
  "addresses_ok calm_env" "stalls_bounded 0 calm_env"
  by (simp_all add: calm_env_def bc_core_ok_def reads_bounded_def writes_bounded_def getrandom_bounded_def
      addresses_ok_def stalls_bounded_def unat_gt_0)

lemma bc_core_ok_update [simp]:
  "bc_core_ok (env\<lparr>env_read := f\<rparr>) = bc_core_ok env"
  "bc_core_ok (env\<lparr>env_write := g\<rparr>) = bc_core_ok env"
  "bc_core_ok (env\<lparr>env_getdents := d\<rparr>) = bc_core_ok env"
  "bc_core_ok (env\<lparr>env_fstat := t\<rparr>) = bc_core_ok env"
  by (simp_all add: bc_core_ok_def)

definition initial_world :: io_world where
  "initial_world = \<lparr>trace = [], errno = 0\<rparr>"

end
