(* ===== verification/IO_Perm.thy ===== *)
theory IO_Perm
  imports IO_Env
begin

text \<open>
  \<^verbatim>\<open>src/perm/bc_io_perm.c\<close>: printing and parsing of file modes (\<^verbatim>\<open>rwxr-xr-x\<close> and octal text)
  and the translation between numeric ids and account names. The output buffers are lists of
  \<open>char\<close>; a function that returns false is \<open>None\<close>. The account database (\<^verbatim>\<open>getpwuid_r\<close> and its
  kin) is the parameter \<open>name_service\<close>. The two textual forms share the contract \<open>mode_codec\<close>,
  in which the round trips and their consequences are proved once.
\<close>

section \<open>Permission bits\<close>

definition S_ISUID :: u32 where "S_ISUID = 0x800"
definition S_ISGID :: u32 where "S_ISGID = 0x400"
definition S_ISVTX :: u32 where "S_ISVTX = 0x200"
definition S_IRUSR :: u32 where "S_IRUSR = 0x100"
definition S_IWUSR :: u32 where "S_IWUSR = 0x80"
definition S_IXUSR :: u32 where "S_IXUSR = 0x40"
definition S_IRGRP :: u32 where "S_IRGRP = 0x20"
definition S_IWGRP :: u32 where "S_IWGRP = 0x10"
definition S_IXGRP :: u32 where "S_IXGRP = 0x8"
definition S_IROTH :: u32 where "S_IROTH = 0x4"
definition S_IWOTH :: u32 where "S_IWOTH = 0x2"
definition S_IXOTH :: u32 where "S_IXOTH = 0x1"

lemmas perm_bit_defs = S_ISUID_def S_ISGID_def S_ISVTX_def S_IRUSR_def S_IWUSR_def S_IXUSR_def
  S_IRGRP_def S_IWGRP_def S_IXGRP_def S_IROTH_def S_IWOTH_def S_IXOTH_def

text \<open>\<open>07777\<close>: the bits both textual forms carry.\<close>

abbreviation permission_bits :: u32 where "permission_bits \<equiv> 0xFFF"

section \<open>The human-readable form\<close>

definition bc_io_perm_file_type_char :: "u32 \<Rightarrow> char" where
  "bc_io_perm_file_type_char mode =
     (if S_ISREG mode then CHR ''-''
      else if S_ISDIR mode then CHR ''d''
      else if S_ISLNK mode then CHR ''l''
      else if S_ISCHR mode then CHR ''c''
      else if S_ISBLK mode then CHR ''b''
      else if S_ISFIFO mode then CHR ''p''
      else if S_ISSOCK mode then CHR ''s''
      else CHR ''?'')"

definition bc_io_perm_format_mode_human :: "u32 \<Rightarrow> string \<Rightarrow> size_t \<Rightarrow> (string \<times> size_t) option" where
  "bc_io_perm_format_mode_human mode out capacity =
     (if capacity < 10 then None
      else Some (out
        [0 := bc_io_perm_file_type_char mode,
         1 := if mode AND S_IRUSR \<noteq> 0 then CHR ''r'' else CHR ''-'',
         2 := if mode AND S_IWUSR \<noteq> 0 then CHR ''w'' else CHR ''-'',
         3 := if mode AND S_ISUID \<noteq> 0
              then (if mode AND S_IXUSR \<noteq> 0 then CHR ''s'' else CHR ''S'')
              else (if mode AND S_IXUSR \<noteq> 0 then CHR ''x'' else CHR ''-''),
         4 := if mode AND S_IRGRP \<noteq> 0 then CHR ''r'' else CHR ''-'',
         5 := if mode AND S_IWGRP \<noteq> 0 then CHR ''w'' else CHR ''-'',
         6 := if mode AND S_ISGID \<noteq> 0
              then (if mode AND S_IXGRP \<noteq> 0 then CHR ''s'' else CHR ''S'')
              else (if mode AND S_IXGRP \<noteq> 0 then CHR ''x'' else CHR ''-''),
         7 := if mode AND S_IROTH \<noteq> 0 then CHR ''r'' else CHR ''-'',
         8 := if mode AND S_IWOTH \<noteq> 0 then CHR ''w'' else CHR ''-'',
         9 := if mode AND S_ISVTX \<noteq> 0
              then (if mode AND S_IXOTH \<noteq> 0 then CHR ''t'' else CHR ''T'')
              else (if mode AND S_IXOTH \<noteq> 0 then CHR ''x'' else CHR ''-'')], 10))"

definition bc_io_perm_parse_rwx_triple ::
    "string \<Rightarrow> u32 \<Rightarrow> u32 \<Rightarrow> u32 \<Rightarrow> u32 \<Rightarrow> char \<Rightarrow> char \<Rightarrow> u32 \<Rightarrow> u32 option" where
  "bc_io_perm_parse_rwx_triple triple read_bit write_bit exec_bit special_bit
      special_with_exec special_no_exec accumulated =
     (if triple ! 0 \<noteq> CHR ''r'' \<and> triple ! 0 \<noteq> CHR ''-'' then None
      else if triple ! 1 \<noteq> CHR ''w'' \<and> triple ! 1 \<noteq> CHR ''-'' then None
      else
        let accumulated = (if triple ! 0 = CHR ''r'' then accumulated OR read_bit else accumulated);
            accumulated = (if triple ! 1 = CHR ''w'' then accumulated OR write_bit else accumulated);
            execute_char = triple ! 2
        in if execute_char = CHR ''x'' then Some (accumulated OR exec_bit)
           else if execute_char = CHR ''-'' then Some accumulated
           else if execute_char = special_with_exec then Some (accumulated OR exec_bit OR special_bit)
           else if execute_char = special_no_exec then Some (accumulated OR special_bit)
           else None)"

definition bc_io_perm_parse_mode_human :: "string \<Rightarrow> size_t \<Rightarrow> u32 option" where
  "bc_io_perm_parse_mode_human input len =
     (if len \<noteq> 10 \<and> len \<noteq> 9 then None
      else if len = 10 \<and> input ! 0 \<noteq> CHR ''-'' \<and> input ! 0 \<noteq> CHR ''d'' \<and> input ! 0 \<noteq> CHR ''l'' \<and>
              input ! 0 \<noteq> CHR ''c'' \<and> input ! 0 \<noteq> CHR ''b'' \<and> input ! 0 \<noteq> CHR ''p'' \<and>
              input ! 0 \<noteq> CHR ''s'' \<and> input ! 0 \<noteq> CHR ''?'' then None
      else do {
        let base = (if len = 10 then 1 else 0 :: nat);
        mode \<leftarrow> bc_io_perm_parse_rwx_triple (drop base input)
                  S_IRUSR S_IWUSR S_IXUSR S_ISUID CHR ''s'' CHR ''S'' 0;
        mode \<leftarrow> bc_io_perm_parse_rwx_triple (drop (base + 3) input)
                  S_IRGRP S_IWGRP S_IXGRP S_ISGID CHR ''s'' CHR ''S'' mode;
        bc_io_perm_parse_rwx_triple (drop (base + 6) input)
                  S_IROTH S_IWOTH S_IXOTH S_ISVTX CHR ''t'' CHR ''T'' mode
      })"

section \<open>The octal form\<close>

definition bc_io_perm_format_mode_octal :: "u32 \<Rightarrow> string \<Rightarrow> size_t \<Rightarrow> (string \<times> size_t) option" where
  "bc_io_perm_format_mode_octal mode out capacity =
     (if capacity < 4 then None
      else
        let special = drop_bit 9 (mode AND (S_ISUID OR S_ISGID OR S_ISVTX))
        in Some (out
          [0 := char_of (48 + unat (special AND 7)),
           1 := char_of (48 + unat (drop_bit 6 mode AND 7)),
           2 := char_of (48 + unat (drop_bit 3 mode AND 7)),
           3 := char_of (48 + unat (mode AND 7))], 4))"

text \<open>The loop over the digits of \<^verbatim>\<open>bc_io_perm_parse_mode_octal\<close>.\<close>

fun octal_loop :: "string \<Rightarrow> u32 \<Rightarrow> u32 option" where
  "octal_loop [] result = Some result"
| "octal_loop (c # cs) result =
     (if (of_char c :: nat) < 48 \<or> (of_char c :: nat) > 55 then None
      else octal_loop cs (push_bit 3 result OR of_nat (of_char c - 48)))"

definition bc_io_perm_parse_mode_octal :: "string \<Rightarrow> size_t \<Rightarrow> u32 option" where
  "bc_io_perm_parse_mode_octal input len =
     (if len = 0 \<or> len > 4 then None
      else do {
        result \<leftarrow> octal_loop (take (unat len) input) 0;
        if len = 4 then
          let special = drop_bit 9 result AND 7;
              mode = result AND 0x1FF;
              mode = (if special AND 4 \<noteq> 0 then mode OR S_ISUID else mode);
              mode = (if special AND 2 \<noteq> 0 then mode OR S_ISGID else mode);
              mode = (if special AND 1 \<noteq> 0 then mode OR S_ISVTX else mode)
          in Some mode
        else Some result
      })"

section \<open>Account names\<close>

text \<open>
  The name service: \<^verbatim>\<open>getpwuid_r\<close> and \<^verbatim>\<open>getgrgid_r\<close> answer with their return code and, unless the
  result pointer is null, the name; \<^verbatim>\<open>getpwnam_r\<close> and \<^verbatim>\<open>getgrnam_r\<close> with the return code and the id.
\<close>

record name_service =
  ns_getpwuid :: "u32 \<Rightarrow> int \<times> string option"
  ns_getgrgid :: "u32 \<Rightarrow> int \<times> string option"
  ns_getpwnam :: "string \<Rightarrow> int \<times> u32 option"
  ns_getgrnam :: "string \<Rightarrow> int \<times> u32 option"

text \<open>\<^verbatim>\<open>while (source[length] != '\0') length += 1;\<close> over the bytes of a C string, terminator included.\<close>

fun c_length_loop :: "string \<Rightarrow> size_t \<Rightarrow> size_t option" where
  "c_length_loop [] len = None"
| "c_length_loop (c # cs) len = (if c \<noteq> CHR 0x00 then c_length_loop cs (len + 1) else Some len)"

text \<open>\<^verbatim>\<open>for (index = 0; index < n; index++) output[index] = source[index];\<close>\<close>

primrec copy_loop :: "string \<Rightarrow> string \<Rightarrow> nat \<Rightarrow> string" where
  "copy_loop source out 0 = out"
| "copy_loop source out (Suc n) = (copy_loop source out n)[n := source ! n]"

definition bc_io_perm_copy_string :: "string \<Rightarrow> string \<Rightarrow> size_t \<Rightarrow> (string \<times> size_t) option" where
  "bc_io_perm_copy_string source out capacity = do {
     len \<leftarrow> c_length_loop source 0;
     if len > capacity then None
     else Some (copy_loop source out (unat len), len)
   }"

definition bc_io_perm_resolve_user_name ::
    "name_service \<Rightarrow> u32 \<Rightarrow> string \<Rightarrow> size_t \<Rightarrow> (string \<times> size_t) option" where
  "bc_io_perm_resolve_user_name ns user_id out capacity =
     (case ns_getpwuid ns user_id of (rc, result) \<Rightarrow>
        if rc \<noteq> 0 then None
        else case result of
          None \<Rightarrow> None
        | Some pw_name \<Rightarrow> bc_io_perm_copy_string (pw_name @ [CHR 0x00]) out capacity)"

definition bc_io_perm_resolve_group_name ::
    "name_service \<Rightarrow> u32 \<Rightarrow> string \<Rightarrow> size_t \<Rightarrow> (string \<times> size_t) option" where
  "bc_io_perm_resolve_group_name ns group_id out capacity =
     (case ns_getgrgid ns group_id of (rc, result) \<Rightarrow>
        if rc \<noteq> 0 then None
        else case result of
          None \<Rightarrow> None
        | Some gr_name \<Rightarrow> bc_io_perm_copy_string (gr_name @ [CHR 0x00]) out capacity)"

definition bc_io_perm_copy_to_zero_terminated ::
    "string \<Rightarrow> size_t \<Rightarrow> string \<Rightarrow> size_t \<Rightarrow> string option" where
  "bc_io_perm_copy_to_zero_terminated source len out capacity =
     (if len + 1 > capacity then None
      else Some ((copy_loop source out (unat len))[unat len := CHR 0x00]))"

text \<open>The C string at the start of a buffer.\<close>

definition c_string :: "string \<Rightarrow> string" where
  "c_string buf = takeWhile (\<lambda>c. c \<noteq> CHR 0x00) buf"

definition bc_io_perm_resolve_user_id :: "name_service \<Rightarrow> string \<Rightarrow> size_t \<Rightarrow> string \<Rightarrow> u32 option" where
  "bc_io_perm_resolve_user_id ns name len zero_terminated = do {
     zero_terminated \<leftarrow> bc_io_perm_copy_to_zero_terminated name len zero_terminated 256;
     (case ns_getpwnam ns (c_string zero_terminated) of (rc, result) \<Rightarrow>
        if rc \<noteq> 0 then None else result)
   }"

definition bc_io_perm_resolve_group_id :: "name_service \<Rightarrow> string \<Rightarrow> size_t \<Rightarrow> string \<Rightarrow> u32 option" where
  "bc_io_perm_resolve_group_id ns name len zero_terminated = do {
     zero_terminated \<leftarrow> bc_io_perm_copy_to_zero_terminated name len zero_terminated 256;
     (case ns_getgrnam ns (c_string zero_terminated) of (rc, result) \<Rightarrow>
        if rc \<noteq> 0 then None else result)
   }"

section \<open>Facts about permission bits\<close>

text \<open>A permission bit is a single bit: masking with it gives all or nothing.\<close>

definition single_bit :: "u32 \<Rightarrow> bool" where
  "single_bit b \<longleftrightarrow> (\<exists>k < 32. b = 2 ^ k)"

lemma single_bit_and: "single_bit b \<Longrightarrow> m AND b = (if m AND b = 0 then 0 else b)"
  by (auto simp: single_bit_def and_bit_eq_if split: if_splits)

lemma perm_bits_single [simp]:
  "single_bit S_ISUID" "single_bit S_ISGID" "single_bit S_ISVTX"
  "single_bit S_IRUSR" "single_bit S_IWUSR" "single_bit S_IXUSR"
  "single_bit S_IRGRP" "single_bit S_IWGRP" "single_bit S_IXGRP"
  "single_bit S_IROTH" "single_bit S_IWOTH" "single_bit S_IXOTH"
proof -
  have single: "single_bit (2 ^ k)" if "k < 32" for k
    using that by (auto simp: single_bit_def)
  show "single_bit S_ISUID" using single [of 11] by (simp add: perm_bit_defs)
  show "single_bit S_ISGID" using single [of 10] by (simp add: perm_bit_defs)
  show "single_bit S_ISVTX" using single [of 9] by (simp add: perm_bit_defs)
  show "single_bit S_IRUSR" using single [of 8] by (simp add: perm_bit_defs)
  show "single_bit S_IWUSR" using single [of 7] by (simp add: perm_bit_defs)
  show "single_bit S_IXUSR" using single [of 6] by (simp add: perm_bit_defs)
  show "single_bit S_IRGRP" using single [of 5] by (simp add: perm_bit_defs)
  show "single_bit S_IWGRP" using single [of 4] by (simp add: perm_bit_defs)
  show "single_bit S_IXGRP" using single [of 3] by (simp add: perm_bit_defs)
  show "single_bit S_IROTH" using single [of 2] by (simp add: perm_bit_defs)
  show "single_bit S_IWOTH" using single [of 1] by (simp add: perm_bit_defs)
  show "single_bit S_IXOTH" using single [of 0] by (simp add: perm_bit_defs)
qed

text \<open>The text of one triple, and the mode text as three of them.\<close>

definition rwx_text :: "u32 \<Rightarrow> u32 \<Rightarrow> u32 \<Rightarrow> u32 \<Rightarrow> u32 \<Rightarrow> char \<Rightarrow> char \<Rightarrow> string" where
  "rwx_text m r w x s cs cS =
     [if m AND r \<noteq> 0 then CHR ''r'' else CHR ''-'',
      if m AND w \<noteq> 0 then CHR ''w'' else CHR ''-'',
      if m AND s \<noteq> 0 then (if m AND x \<noteq> 0 then cs else cS)
      else (if m AND x \<noteq> 0 then CHR ''x'' else CHR ''-'')]"

definition mode_text :: "u32 \<Rightarrow> string" where
  "mode_text m = rwx_text m S_IRUSR S_IWUSR S_IXUSR S_ISUID CHR ''s'' CHR ''S'' @
                 rwx_text m S_IRGRP S_IWGRP S_IXGRP S_ISGID CHR ''s'' CHR ''S'' @
                 rwx_text m S_IROTH S_IWOTH S_IXOTH S_ISVTX CHR ''t'' CHR ''T''"

lemma length_rwx_text [simp]: "length (rwx_text m r w x s cs cS) = 3"
  by (simp add: rwx_text_def)

lemma length_mode_text [simp]: "length (mode_text m) = 9"
  by (simp add: mode_text_def)

lemma rwx_text_cong:
  assumes "m AND r = m' AND r" "m AND w = m' AND w" "m AND x = m' AND x" "m AND s = m' AND s"
  shows "rwx_text m r w x s cs cS = rwx_text m' r w x s cs cS"
  using assms by (simp add: rwx_text_def)

lemma list_update_prefix:
  "length xs \<le> length out \<Longrightarrow>
   fold (\<lambda>i ys. ys[i := xs ! i]) [0..<length xs] out = overwrite 0 xs out"
proof (induction xs rule: rev_induct)
  case Nil
  then show ?case by simp
next
  case (snoc x xs)
  have "fold (\<lambda>i ys. ys[i := (xs @ [x]) ! i]) [0..<length xs] out =
        fold (\<lambda>i ys. ys[i := xs ! i]) [0..<length xs] out"
    by (rule fold_cong) (auto simp: nth_append)
  with snoc show ?case
    by (simp add: overwrite_def list_update_append drop_Suc upd_conv_take_nth_drop)
qed

lemma list_update_ten:
  "10 \<le> length out \<Longrightarrow>
   out[0 := a, 1 := b, 2 := c, 3 := d, 4 := e, 5 := f, 6 := g, 7 := h, 8 := i, 9 := j] =
   overwrite 0 [a, b, c, d, e, f, g, h, i, j] out"
  using list_update_prefix [of "[a, b, c, d, e, f, g, h, i, j]" out]
  by (simp add: upt_rec eval_nat_numeral)

lemma list_update_four:
  "4 \<le> length out \<Longrightarrow> out[0 := a, 1 := b, 2 := c, 3 := d] = overwrite 0 [a, b, c, d] out"
  using list_update_prefix [of "[a, b, c, d]" out]
  by (simp add: upt_rec eval_nat_numeral)

lemma format_human_text:
  assumes "10 \<le> capacity" and "unat capacity \<le> length out"
  shows "bc_io_perm_format_mode_human m out capacity =
         Some (overwrite 0 (bc_io_perm_file_type_char m # mode_text m) out, 10)"
proof -
  have "10 \<le> unat capacity"
    using assms(1) by (simp add: word_le_nat_alt)
  then have len: "10 \<le> length out" and cap: "\<not> capacity < 10"
    using assms by simp_all
  show ?thesis
    unfolding bc_io_perm_format_mode_human_def if_not_P [OF cap] list_update_ten [OF len]
    by (simp only: mode_text_def rwx_text_def append_Cons append_Nil)
qed

lemma parse_triple_text:
  assumes bits: "single_bit r" "single_bit w" "single_bit x" "single_bit s"
    and chars: "cs \<noteq> CHR ''x''" "cs \<noteq> CHR ''-''" "cS \<noteq> CHR ''x''" "cS \<noteq> CHR ''-''" "cs \<noteq> cS"
    and three: "take 3 t = rwx_text m r w x s cs cS"
  shows "bc_io_perm_parse_rwx_triple t r w x s cs cS acc = Some (acc OR (m AND (r OR w OR x OR s)))"
proof -
  have nth: "t ! i = rwx_text m r w x s cs cS ! i" if "i < 3" for i
    using that by (simp flip: three)
  note nths = nth [of 0] nth [of 1] nth [of 2]
  show ?thesis
    using nths chars single_bit_and [OF bits(1), of m] single_bit_and [OF bits(2), of m]
      single_bit_and [OF bits(3), of m] single_bit_and [OF bits(4), of m]
    by (simp add: bc_io_perm_parse_rwx_triple_def rwx_text_def bit.conj_disj_distrib or.assoc)
       (auto simp: or.assoc or.commute split: if_splits)
qed

lemmas parse_user_text = parse_triple_text [OF perm_bits_single(4,5,6,1), of "CHR ''s''" "CHR ''S''"]
lemmas parse_group_text = parse_triple_text [OF perm_bits_single(7,8,9,2), of "CHR ''s''" "CHR ''S''"]
lemmas parse_other_text = parse_triple_text [OF perm_bits_single(10,11,12,3), of "CHR ''t''" "CHR ''T''"]

lemma permission_bits_split:
  "m AND permission_bits = (m AND (S_IRUSR OR S_IWUSR OR S_IXUSR OR S_ISUID)) OR
     (m AND (S_IRGRP OR S_IWGRP OR S_IXGRP OR S_ISGID)) OR
     (m AND (S_IROTH OR S_IWOTH OR S_IXOTH OR S_ISVTX))"
proof -
  have "(S_IRUSR OR S_IWUSR OR S_IXUSR OR S_ISUID) OR (S_IRGRP OR S_IWGRP OR S_IXGRP OR S_ISGID)
      OR (S_IROTH OR S_IWOTH OR S_IXOTH OR S_ISVTX) = permission_bits"
    by (simp add: perm_bit_defs)
  then show ?thesis
    by (simp only: bit.conj_disj_distrib [symmetric])
qed

lemma parse_human_text:
  assumes base: "base = (if len = 10 then 1 else 0)" and len: "len = 9 \<or> len = 10"
    and type_ok: "len = 10 \<Longrightarrow> input ! 0 \<in> set ''-dlcbps?''"
    and tx: "take 9 (drop base input) = mode_text m"
  shows "bc_io_perm_parse_mode_human input len = Some (m AND permission_bits)"
proof -
  have three: "take 3 (drop (base + k) input) = take 3 (drop k (mode_text m))" if "k \<le> 6" for k
    using that by (simp add: tx [symmetric] take_drop add.commute min_def)
  have t1: "take 3 (drop base input) = rwx_text m S_IRUSR S_IWUSR S_IXUSR S_ISUID CHR ''s'' CHR ''S''"
    and t2: "take 3 (drop (base + 3) input) = rwx_text m S_IRGRP S_IWGRP S_IXGRP S_ISGID CHR ''s'' CHR ''S''"
    and t3: "take 3 (drop (base + 6) input) = rwx_text m S_IROTH S_IWOTH S_IXOTH S_ISVTX CHR ''t'' CHR ''T''"
    using three [of 0] three [of 3] three [of 6] by (simp_all add: mode_text_def)
  have guard: "\<not> (len \<noteq> 10 \<and> len \<noteq> 9)" using len by blast
  have type_guard: "\<not> (len = 10 \<and> input ! 0 \<noteq> CHR ''-'' \<and> input ! 0 \<noteq> CHR ''d'' \<and>
      input ! 0 \<noteq> CHR ''l'' \<and> input ! 0 \<noteq> CHR ''c'' \<and> input ! 0 \<noteq> CHR ''b'' \<and>
      input ! 0 \<noteq> CHR ''p'' \<and> input ! 0 \<noteq> CHR ''s'' \<and> input ! 0 \<noteq> CHR ''?'')"
    using type_ok by auto
  show ?thesis
    unfolding bc_io_perm_parse_mode_human_def if_not_P [OF guard] if_not_P [OF type_guard]
      base [symmetric] Let_def permission_bits_split
    by (simp add: parse_user_text [OF _ _ _ _ _ t1] parse_group_text [OF _ _ _ _ _ t2]
        parse_other_text [OF _ _ _ _ _ t3] or.assoc)
qed

text \<open>Conversely, a triple that parses is the text of the bits it contributes.\<close>

lemma parse_triple_inverse:
  assumes "bc_io_perm_parse_rwx_triple t r w x s cs cS acc = Some acc'" and "3 \<le> length t"
    and "r AND w = 0" "r AND x = 0" "r AND s = 0" "w AND x = 0" "w AND s = 0" "x AND s = 0"
    and "r \<noteq> 0" "w \<noteq> 0" "x \<noteq> 0" "s \<noteq> 0"
  shows "\<exists>v. acc' = acc OR v \<and> v AND (r OR w OR x OR s) = v \<and> take 3 t = rwx_text v r w x s cs cS"
proof -
  obtain a b c rest where t: "t = a # b # c # rest"
    using assms(2) by (auto simp: numeral_3_eq_3 Suc_le_length_iff)
  define v where "v = (if a = CHR ''r'' then r else 0) OR (if b = CHR ''w'' then w else 0) OR
    (if c = CHR ''x'' then x else if c = CHR ''-'' then 0 else if c = cs then x OR s else s)"
  have "acc' = acc OR v"
    using assms(1) unfolding v_def t
    by (auto simp: bc_io_perm_parse_rwx_triple_def Let_def ac_simps split: if_splits)
  moreover have "v AND (r OR w OR x OR s) = v"
    unfolding v_def by (rule bit_word_eqI) (auto simp: bit_simps)
  moreover have "take 3 t = rwx_text v r w x s cs cS"
  proof -
    have flipped: "w AND r = 0" "x AND r = 0" "s AND r = 0" "x AND w = 0" "s AND w = 0" "s AND x = 0"
      by (subst and.commute, rule assms)+
    note zero = assms(3-8) flipped
    have "v AND r = (if a = CHR ''r'' then r else 0)"
      unfolding v_def using zero by (simp add: bit.conj_disj_distrib2)
    moreover have "v AND w = (if b = CHR ''w'' then w else 0)"
      unfolding v_def using zero by (simp add: bit.conj_disj_distrib2)
    moreover have "v AND x = (if c = CHR ''x'' \<or> c \<noteq> CHR ''-'' \<and> c = cs then x else 0)"
      unfolding v_def using zero by (simp add: bit.conj_disj_distrib2)
    moreover have "v AND s = (if c = CHR ''x'' \<or> c = CHR ''-'' then 0 else s)"
      unfolding v_def using zero by (simp add: bit.conj_disj_distrib2)
    moreover have "a = CHR ''r'' \<or> a = CHR ''-''" "b = CHR ''w'' \<or> b = CHR ''-''"
        "c \<in> {CHR ''x'', CHR ''-'', cs, cS}"
      using assms(1) unfolding t
      by (auto simp: bc_io_perm_parse_rwx_triple_def Let_def split: if_splits)
    ultimately show ?thesis
      using assms(9-12) unfolding rwx_text_def t by (auto simp: numeral_3_eq_3)
  qed
  ultimately show ?thesis by blast
qed

lemma parse_class_inverse:
  assumes "3 \<le> length t"
  shows "bc_io_perm_parse_rwx_triple t S_IRUSR S_IWUSR S_IXUSR S_ISUID CHR ''s'' CHR ''S'' acc = Some acc' \<Longrightarrow>
      \<exists>v. acc' = acc OR v \<and> v AND (S_IRUSR OR S_IWUSR OR S_IXUSR OR S_ISUID) = v \<and>
        take 3 t = rwx_text v S_IRUSR S_IWUSR S_IXUSR S_ISUID CHR ''s'' CHR ''S''"
    and "bc_io_perm_parse_rwx_triple t S_IRGRP S_IWGRP S_IXGRP S_ISGID CHR ''s'' CHR ''S'' acc = Some acc' \<Longrightarrow>
      \<exists>v. acc' = acc OR v \<and> v AND (S_IRGRP OR S_IWGRP OR S_IXGRP OR S_ISGID) = v \<and>
        take 3 t = rwx_text v S_IRGRP S_IWGRP S_IXGRP S_ISGID CHR ''s'' CHR ''S''"
    and "bc_io_perm_parse_rwx_triple t S_IROTH S_IWOTH S_IXOTH S_ISVTX CHR ''t'' CHR ''T'' acc = Some acc' \<Longrightarrow>
      \<exists>v. acc' = acc OR v \<and> v AND (S_IROTH OR S_IWOTH OR S_IXOTH OR S_ISVTX) = v \<and>
        take 3 t = rwx_text v S_IROTH S_IWOTH S_IXOTH S_ISVTX CHR ''t'' CHR ''T''"
  using assms by - (erule parse_triple_inverse; simp add: perm_bit_defs)+

lemma and_absorb_other:
  "v AND g = v \<Longrightarrow> g AND b = 0 \<Longrightarrow> (v :: 'a::len word) AND b = 0"
  by (metis and.assoc and_zero_eq)

lemma parse_human_inverse:
  assumes parse: "bc_io_perm_parse_mode_human input len = Some m" and len: "unat len \<le> length input"
  shows "(len = 9 \<or> len = 10) \<and> m AND permission_bits = m \<and>
         mode_text m = take 9 (drop (unat len - 9) input)"
proof -
  define base where "base = (if len = 10 then 1 else 0 :: nat)"
  have lens: "len = 9 \<or> len = 10"
    using parse by (auto simp: bc_io_perm_parse_mode_human_def split: if_splits)
  then have base: "unat len - 9 = base" "unat len = base + 9"
    by (auto simp: base_def)
  obtain m1 m2 where
    p1: "bc_io_perm_parse_rwx_triple (drop base input) S_IRUSR S_IWUSR S_IXUSR S_ISUID CHR ''s'' CHR ''S'' 0 = Some m1"
    and p2: "bc_io_perm_parse_rwx_triple (drop (base + 3) input) S_IRGRP S_IWGRP S_IXGRP S_ISGID CHR ''s'' CHR ''S'' m1 = Some m2"
    and p3: "bc_io_perm_parse_rwx_triple (drop (base + 6) input) S_IROTH S_IWOTH S_IXOTH S_ISVTX CHR ''t'' CHR ''T'' m2 = Some m"
    using parse unfolding bc_io_perm_parse_mode_human_def base_def [symmetric] Let_def
    by (auto split: if_splits bind_splits)
  have lens3: "3 \<le> length (drop base input)" "3 \<le> length (drop (base + 3) input)"
      "3 \<le> length (drop (base + 6) input)"
    using len base by simp_all
  obtain u where u: "m1 = 0 OR u" "u AND (S_IRUSR OR S_IWUSR OR S_IXUSR OR S_ISUID) = u"
      "take 3 (drop base input) = rwx_text u S_IRUSR S_IWUSR S_IXUSR S_ISUID CHR ''s'' CHR ''S''"
    using parse_class_inverse(1) [OF lens3(1) p1] by blast
  obtain g where g: "m2 = m1 OR g" "g AND (S_IRGRP OR S_IWGRP OR S_IXGRP OR S_ISGID) = g"
      "take 3 (drop (base + 3) input) = rwx_text g S_IRGRP S_IWGRP S_IXGRP S_ISGID CHR ''s'' CHR ''S''"
    using parse_class_inverse(2) [OF lens3(2) p2] by blast
  obtain v where v: "m = m2 OR v" "v AND (S_IROTH OR S_IWOTH OR S_IXOTH OR S_ISVTX) = v"
      "take 3 (drop (base + 6) input) = rwx_text v S_IROTH S_IWOTH S_IXOTH S_ISVTX CHR ''t'' CHR ''T''"
    using parse_class_inverse(3) [OF lens3(3) p3] by blast
  note [simp] = and_absorb_other [OF u(2)] and_absorb_other [OF g(2)] and_absorb_other [OF v(2)]
  have m: "m = u OR g OR v"
    using u(1) g(1) v(1) by (simp add: or.assoc)
  have "mode_text m = take 3 (drop base input) @ take 3 (drop (base + 3) input) @ take 3 (drop (base + 6) input)"
    unfolding mode_text_def u(3) g(3) v(3)
    by (intro arg_cong2 [where f = "(@)"] rwx_text_cong)
       (simp_all add: m bit.conj_disj_distrib2 perm_bit_defs)
  also have "\<dots> = take 9 (drop base input)"
    using take_add [of 3 6 "drop base input"] take_add [of 3 3 "drop (base + 3) input"]
    by (simp add: add.commute)
  finally have "mode_text m = take 9 (drop base input)" .
  moreover have "m AND permission_bits = m"
    unfolding m permission_bits_split bit.conj_disj_distrib2
    by (simp add: u(2) g(2) v(2)) (simp add: perm_bit_defs)
  ultimately show ?thesis using lens base by simp
qed

section \<open>Facts about octal digits\<close>

text \<open>The value of a digit string, as a number.\<close>

definition octal_value :: "string \<Rightarrow> nat" where
  "octal_value cs = foldl (\<lambda>a c. 8 * a + (of_char c - 48)) 0 cs"

definition octal_digits :: "string \<Rightarrow> bool" where
  "octal_digits cs \<longleftrightarrow> (\<forall>c \<in> set cs. 48 \<le> (of_char c :: nat) \<and> (of_char c :: nat) \<le> 55)"

lemma octal_value_snoc: "octal_value (cs @ [c]) = 8 * octal_value cs + (of_char c - 48)"
  by (simp add: octal_value_def)

lemma octal_value_bound: "octal_digits cs \<Longrightarrow> octal_value cs < 8 ^ length cs"
proof (induction cs rule: rev_induct)
  case Nil
  then show ?case by (simp add: octal_value_def)
next
  case (snoc c cs)
  then show ?case by (auto simp: octal_value_snoc octal_digits_def)
qed

text \<open>Shifting in a digit is the arithmetic step, modulo \<open>2 ^ 32\<close>.\<close>

lemma shift_or_digit:
  assumes "d < 8"
  shows "push_bit 3 (of_nat n :: u32) OR of_nat d = of_nat (8 * n + d)"
proof -
  have "take_bit 3 d = d"
    using assms by (simp add: take_bit_nat_eq_self_iff)
  then have high: "\<not> bit d k" if "3 \<le> k" for k
    using that by (metis bit_take_bit_iff leD)
  have "push_bit 3 (of_nat n :: u32) AND of_nat d = 0"
    by (rule bit_word_eqI) (auto simp: bit_simps high)
  then have "push_bit 3 (of_nat n :: u32) OR of_nat d = push_bit 3 (of_nat n) + of_nat d"
    by (rule disjunctive_add_eq_or [symmetric])
  then show ?thesis
    by (simp add: push_bit_eq_mult mult.commute)
qed

lemma octal_loop_value:
  "octal_digits cs \<Longrightarrow>
   octal_loop cs (of_nat (octal_value ds)) = Some (of_nat (octal_value (ds @ cs)))"
proof (induction cs arbitrary: ds)
  case Nil
  then show ?case by simp
next
  case (Cons c cs)
  have digit: "48 \<le> (of_char c :: nat)" "(of_char c :: nat) \<le> 55"
    using Cons.prems by (auto simp: octal_digits_def)
  then have "push_bit 3 (of_nat (octal_value ds) :: u32) OR of_nat (of_char c - 48) =
      of_nat (octal_value (ds @ [c]))"
    using shift_or_digit [of "of_char c - 48"] by (simp add: octal_value_snoc)
  moreover have "octal_loop cs (of_nat (octal_value (ds @ [c]))) =
      Some (of_nat (octal_value ((ds @ [c]) @ cs)))"
    using Cons.prems by (intro Cons.IH) (auto simp: octal_digits_def)
  ultimately show ?case using digit by simp
qed

lemma octal_loop_rejects: "\<not> octal_digits cs \<Longrightarrow> octal_loop cs r = None"
  by (induction cs arbitrary: r) (auto simp: octal_digits_def)

lemma octal_loop_spec:
  "octal_loop cs 0 = (if octal_digits cs then Some (of_nat (octal_value cs)) else None)"
  using octal_loop_value [of cs "[]"] octal_loop_rejects [of cs 0]
  by (simp add: octal_value_def)

text \<open>The branch for four digits puts the leading digit's bits where they already are.\<close>

lemma special_digit_in_place:
  "(let special = drop_bit 9 r AND 7;
        mode = r AND 0x1FF;
        mode = (if special AND 4 \<noteq> 0 then mode OR S_ISUID else mode);
        mode = (if special AND 2 \<noteq> 0 then mode OR S_ISGID else mode);
        mode = (if special AND 1 \<noteq> 0 then mode OR S_ISVTX else mode)
    in Some mode) = Some (r AND permission_bits)" for r :: u32
proof -
  have seven: "(7 :: u32) = mask 3" by (simp add: mask_numeral)
  have special: "(drop_bit 9 r AND 7) AND 2 ^ k \<noteq> 0 \<longleftrightarrow> r AND 2 ^ (9 + k) \<noteq> 0" if "k < 3" for k
    using that unfolding and_bit_zero_iff seven by (simp add: bit_simps)
  have "r AND permission_bits = (r AND 0x1FF) OR (r AND S_ISUID) OR (r AND S_ISGID) OR (r AND S_ISVTX)"
    by (simp add: perm_bit_defs flip: bit.conj_disj_distrib)
  then show ?thesis
    using special [of 2] special [of 1] special [of 0]
      single_bit_and [OF perm_bits_single(1), of r] single_bit_and [OF perm_bits_single(2), of r]
      single_bit_and [OF perm_bits_single(3), of r]
    by (simp add: Let_def perm_bit_defs or.assoc) (auto simp: perm_bit_defs)
qed

lemma parse_octal_value:
  assumes "unat len \<le> length input"
  shows "bc_io_perm_parse_mode_octal input len =
     (if 0 < len \<and> len \<le> 4 \<and> octal_digits (take (unat len) input)
      then Some (of_nat (octal_value (take (unat len) input))) else None)"
proof (cases "0 < len \<and> len \<le> 4 \<and> octal_digits (take (unat len) input)")
  case True
  define v where "v = octal_value (take (unat len) input)"
  have "unat len \<le> 4" using True by (simp add: word_le_nat_alt)
  then have "8 ^ length (take (unat len) input) \<le> (8 :: nat) ^ 4"
    using assms by (intro power_increasing) auto
  then have "v < 2 ^ 12"
    using octal_value_bound [of "take (unat len) input"] True by (simp add: v_def)
  then have "take_bit 12 (of_nat v :: u32) = of_nat v"
    by (simp only: take_bit_of_nat take_bit_nat_eq_self)
  then have "(of_nat v :: u32) AND permission_bits = of_nat v"
    by (simp add: take_bit_eq_mask mask_numeral)
  then show ?thesis
    using True special_digit_in_place [of "of_nat v"]
    by (auto simp: bc_io_perm_parse_mode_octal_def octal_loop_spec v_def [symmetric] word_gt_0 not_less)
next
  case False
  then show ?thesis
    by (auto simp: bc_io_perm_parse_mode_octal_def octal_loop_spec word_gt_0 not_less)
qed

definition octal_text :: "u32 \<Rightarrow> string" where
  "octal_text m = map (\<lambda>k. char_of (48 + unat m div 8 ^ k mod 8)) [3, 2, 1, 0]"

lemma octal_text_value:
  "octal_digits (octal_text m)" "octal_value (octal_text m) = unat m mod 4096"
proof -
  have "n mod 8 + 48 < 256" for n :: nat
    by (rule less_trans [of _ 56]) simp_all
  then have small: "(48 + n mod 8) mod 256 = 48 + n mod 8" for n :: nat
    by (simp add: add.commute)
  have digit: "n mod 8 \<le> 7" for n :: nat
    by (simp add: less_Suc_eq_le [symmetric])
  show "octal_digits (octal_text m)"
    by (simp add: octal_digits_def octal_text_def small digit)
  have "unat m mod 4096 = 512 * (unat m div 512 mod 8) + 64 * (unat m div 64 mod 8) +
      8 * (unat m div 8 mod 8) + unat m mod 8"
    using mod_mult2_eq [of "unat m" 512 8] mod_mult2_eq [of "unat m" 64 8] mod_mult2_eq [of "unat m" 8 8]
    by simp
  then show "octal_value (octal_text m) = unat m mod 4096"
    by (simp add: octal_value_def octal_text_def small)
qed

lemma format_octal_text:
  assumes "4 \<le> capacity" and "unat capacity \<le> length out"
  shows "bc_io_perm_format_mode_octal m out capacity = Some (overwrite 0 (octal_text m) out, 4)"
proof -
  have len: "4 \<le> length out" and cap: "\<not> capacity < 4"
    using assms by (simp_all add: word_le_nat_alt word_less_nat_alt)
  have low: "unat (x AND 7) = unat x mod 8" for x :: u32
    using unat_and_mask [of x 3] by simp
  have "drop_bit 9 (m AND (S_ISUID OR S_ISGID OR S_ISVTX)) AND 7 = drop_bit 9 m AND 7"
    by (simp add: perm_bit_defs drop_bit_and and.assoc)
  then show ?thesis
    unfolding bc_io_perm_format_mode_octal_def Let_def if_not_P [OF cap] list_update_four [OF len]
    by (simp add: octal_text_def low unat_drop_bit_eq drop_bit_eq_div unat_div)
qed

section \<open>The contract of a textual form\<close>

text \<open>
  A textual form of a mode: a printer that writes \<open>width\<close> characters at the start of the caller's
  buffer or refuses when they do not fit, and a parser that recovers the permission bits.
\<close>

locale mode_codec =
  fixes fmt :: "u32 \<Rightarrow> string \<Rightarrow> size_t \<Rightarrow> (string \<times> size_t) option"
    and parse :: "string \<Rightarrow> size_t \<Rightarrow> u32 option"
    and width :: size_t
  assumes fmt_refuses: "cap < width \<Longrightarrow> fmt m out cap = None"
    and fmt_writes: "width \<le> cap \<Longrightarrow> unat cap \<le> length out \<Longrightarrow>
      \<exists>tx. length tx = unat width \<and> fmt m out cap = Some (overwrite 0 tx out, width)"
    and parse_fmt: "width \<le> cap \<Longrightarrow> unat cap \<le> length out \<Longrightarrow>
      fmt m out cap = Some (buf, n) \<Longrightarrow> parse buf n = Some (m AND permission_bits)"
begin

lemma fmt_frame:
  assumes "unat cap \<le> length out" and "fmt m out cap = Some (buf, n)"
  shows "width \<le> cap" and "n = width" and "length buf = length out"
    and "drop (unat n) buf = drop (unat n) out"
proof -
  show fits: "width \<le> cap"
    using assms(2) fmt_refuses [of cap m out] by (cases "cap < width") auto
  obtain tx where tx: "length tx = unat width" "fmt m out cap = Some (overwrite 0 tx out, width)"
    using fmt_writes [OF fits assms(1)] by blast
  have "unat width \<le> length out"
    using fits assms(1) by (simp add: word_le_nat_alt)
  with tx assms(2) show "n = width" and "length buf = length out"
    and "drop (unat n) buf = drop (unat n) out"
    by (auto simp: overwrite_def)
qed

lemma round_trip:
  assumes "unat cap \<le> length out" and "fmt m out cap = Some (buf, n)"
  shows "parse buf n = Some (m AND permission_bits)"
  using parse_fmt [OF fmt_frame(1) [OF assms] assms] .

lemma fmt_separates:
  assumes "unat cap \<le> length out" and "width \<le> cap"
    and same: "fmt m out cap = fmt m' out cap"
  shows "m AND permission_bits = m' AND permission_bits"
proof -
  obtain buf where buf: "fmt m out cap = Some (buf, width)"
    using fmt_writes [OF assms(2,1), of m] by blast
  then have "fmt m' out cap = Some (buf, width)"
    by (simp add: same)
  then show ?thesis
    using round_trip [OF assms(1) buf] round_trip [OF assms(1), of m'] by simp
qed

lemma round_trip_stable:
  assumes "unat cap \<le> length out" and "fmt m out cap = Some (buf, n)" and "parse buf n = Some m'"
    and again: "fmt m' out cap = Some (buf', n')"
  shows "parse buf' n' = Some m'"
  using round_trip [OF assms(1,2)] round_trip [OF assms(1) again] assms(3) by (simp add: and.assoc)

end

interpretation human: mode_codec bc_io_perm_format_mode_human bc_io_perm_parse_mode_human 10
proof unfold_locales
  show "bc_io_perm_format_mode_human m out cap = None" if "cap < 10" for cap m out
    using that by (simp add: bc_io_perm_format_mode_human_def)
next
  fix cap :: size_t and out :: string and m
  assume "10 \<le> cap" and "unat cap \<le> length out"
  then show "\<exists>tx. length tx = unat (10 :: size_t) \<and>
      bc_io_perm_format_mode_human m out cap = Some (overwrite 0 tx out, 10)"
    by (intro exI [of _ "bc_io_perm_file_type_char m # mode_text m"]) (simp add: format_human_text)
next
  fix cap :: size_t and out buf :: string and m n
  assume "10 \<le> cap" and "unat cap \<le> length out"
    and "bc_io_perm_format_mode_human m out cap = Some (buf, n)"
  then have "buf = overwrite 0 (bc_io_perm_file_type_char m # mode_text m) out" and "n = 10"
    by (simp_all add: format_human_text)
  then show "bc_io_perm_parse_mode_human buf n = Some (m AND permission_bits)"
    by (intro parse_human_text [where base = 1])
       (simp_all add: overwrite_def bc_io_perm_file_type_char_def)
qed

interpretation octal: mode_codec bc_io_perm_format_mode_octal bc_io_perm_parse_mode_octal 4
proof unfold_locales
  show "bc_io_perm_format_mode_octal m out cap = None" if "cap < 4" for cap m out
    using that by (simp add: bc_io_perm_format_mode_octal_def)
next
  fix cap :: size_t and out :: string and m
  assume "4 \<le> cap" and "unat cap \<le> length out"
  then show "\<exists>tx. length tx = unat (4 :: size_t) \<and>
      bc_io_perm_format_mode_octal m out cap = Some (overwrite 0 tx out, 4)"
    by (intro exI [of _ "octal_text m"]) (simp add: format_octal_text, simp add: octal_text_def)
next
  fix cap :: size_t and out buf :: string and m n
  assume "4 \<le> cap" and "unat cap \<le> length out"
    and "bc_io_perm_format_mode_octal m out cap = Some (buf, n)"
  then have buf: "buf = overwrite 0 (octal_text m) out" and n: "n = 4" and len: "4 \<le> length out"
    by (simp_all add: format_octal_text word_le_nat_alt)
  have four: "length (octal_text m) = 4" by (simp add: octal_text_def)
  have "of_nat (unat m mod 4096) = m AND permission_bits"
    using unat_and_mask [of m 12] by (simp add: word_unat_eq_iff)
  then show "bc_io_perm_parse_mode_octal buf n = Some (m AND permission_bits)"
    using len four octal_text_value [of m]
    by (subst parse_octal_value) (simp_all add: buf n overwrite_def)
qed

section \<open>Facts about account names\<close>

lemma copy_loop_overwrite:
  "n \<le> length source \<Longrightarrow> n \<le> length out \<Longrightarrow> copy_loop source out n = overwrite 0 (take n source) out"
proof (induction n)
  case 0
  then show ?case by simp
next
  case (Suc n)
  then have "copy_loop source out (Suc n) = (take n source @ drop n out)[n := source ! n]"
    by (simp add: overwrite_def min_def)
  then show ?case
    using Suc.prems
    by (simp add: overwrite_def list_update_append take_Suc_conv_app_nth Cons_nth_drop_Suc [symmetric] min_def)
qed

lemma c_length_loop_terminated:
  "CHR 0x00 \<notin> set cs \<Longrightarrow> c_length_loop (cs @ CHR 0x00 # rest) n = Some (n + of_nat (length cs))"
  by (induction cs arbitrary: n) (auto simp: algebra_simps)

lemma copy_string_spec:
  assumes "CHR 0x00 \<notin> set nm" and "length nm < 2 ^ 64" and "unat capacity \<le> length out"
  shows "bc_io_perm_copy_string (nm @ [CHR 0x00]) out capacity =
     (if length nm \<le> unat capacity then Some (overwrite 0 nm out, of_nat (length nm)) else None)"
proof -
  have "unat (of_nat (length nm) :: size_t) = length nm"
    using assms(2) by simp
  then have "(of_nat (length nm) > capacity) = (\<not> length nm \<le> unat capacity)"
    by (simp add: word_less_nat_alt not_le)
  then show ?thesis
    using assms by (simp add: bc_io_perm_copy_string_def c_length_loop_terminated copy_loop_overwrite)
qed

lemma zero_terminated_c_string:
  assumes "take (unat len) name = nm" and "unat len = length nm" and "unat len < 256"
    and "CHR 0x00 \<notin> set nm" and "length zero_terminated = 256"
  shows "map_option c_string (bc_io_perm_copy_to_zero_terminated name len zero_terminated 256) = Some nm"
proof -
  have "unat (len + 1) \<le> 256"
    using assms(3) by (simp add: unat_word_ariths)
  then have "\<not> len + 1 > 256"
    by (simp add: word_less_nat_alt)
  moreover have "unat len \<le> length name"
    using assms(1,2) by (metis length_take min.cobounded1 min_def)
  moreover have "(overwrite 0 nm zero_terminated)[length nm := CHR 0x00] =
      nm @ CHR 0x00 # drop (Suc (length nm)) zero_terminated"
    using assms by (simp add: overwrite_def list_update_append Cons_nth_drop_Suc [symmetric])
  ultimately show ?thesis
    using assms
    by (simp add: bc_io_perm_copy_to_zero_terminated_def copy_loop_overwrite c_string_def
        takeWhile_append takeWhile_eq_all_conv [THEN iffD2])
qed

text \<open>
  An account database that answers look-ups by name and by number consistently, with names that
  are C strings fitting the 1024-byte buffer the code passes.
\<close>

definition users_consistent :: "name_service \<Rightarrow> bool" where
  "users_consistent ns \<longleftrightarrow> (\<forall>u nm. ns_getpwuid ns u = (0, Some nm) \<longrightarrow>
     CHR 0x00 \<notin> set nm \<and> length nm < 1024 \<and> ns_getpwnam ns nm = (0, Some u))"

definition groups_consistent :: "name_service \<Rightarrow> bool" where
  "groups_consistent ns \<longleftrightarrow> (\<forall>g nm. ns_getgrgid ns g = (0, Some nm) \<longrightarrow>
     CHR 0x00 \<notin> set nm \<and> length nm < 1024 \<and> ns_getgrnam ns nm = (0, Some g))"

text \<open>A database with the one user \<^verbatim>\<open>ann\<close>.\<close>

definition one_user :: name_service where
  "one_user = \<lparr>ns_getpwuid = (\<lambda>u. if u = 7 then (0, Some ''ann'') else (0, None)),
     ns_getgrgid = (\<lambda>_. (0, None)),
     ns_getpwnam = (\<lambda>nm. if nm = ''ann'' then (0, Some 7) else (0, None)),
     ns_getgrnam = (\<lambda>_. (0, None))\<rparr>"

lemma resolve_round_trip_aux:
  assumes "bc_io_perm_copy_string (nm @ [CHR 0x00]) out capacity = Some (buf, n)"
    and "CHR 0x00 \<notin> set nm" and "length nm < 1024" and "unat capacity \<le> length out" and "n < 256"
    and "length zero_terminated = 256"
  shows "map_option c_string (bc_io_perm_copy_to_zero_terminated buf n zero_terminated 256) = Some nm"
proof -
  have "length nm < 2 ^ 64" using assms(3) by simp
  from copy_string_spec [OF assms(2) this assms(4)] assms(1)
  have buf: "buf = overwrite 0 nm out" and n: "n = of_nat (length nm)" and fit: "length nm \<le> unat capacity"
    by (auto split: if_splits)
  have "unat n = length nm" using assms(3) by (simp add: n)
  moreover have "unat n < 256" using assms(5) by (simp add: word_less_nat_alt)
  ultimately show ?thesis
    using assms(2,6) by (intro zero_terminated_c_string) (simp_all add: buf overwrite_def)
qed

section \<open>Properties\<close>

text \<open>
  C16. Printing a mode in the human-readable form and parsing the text gives back exactly the
  permission bits of the mode, for every 32-bit mode and every buffer of at least ten
  characters, and the printer changes only the first ten characters of the buffer.
\<close>

theorem format_parse_mode_human:
  assumes "unat capacity \<le> length out" and "10 \<le> capacity"
  shows "\<exists>buf. bc_io_perm_format_mode_human mode out capacity = Some (buf, 10) \<and>
    bc_io_perm_parse_mode_human buf 10 = Some (mode AND permission_bits) \<and>
    length buf = length out \<and> drop 10 buf = drop 10 out"
proof -
  obtain buf where buf: "bc_io_perm_format_mode_human mode out capacity = Some (buf, 10)"
    using human.fmt_writes [OF assms(2,1)] by blast
  with human.round_trip [OF assms(1) buf] human.fmt_frame(3,4) [OF assms(1) buf] show ?thesis
    by simp
qed

theorem format_parse_mode_human_witness:
  "\<exists>buf. bc_io_perm_format_mode_human 0x89ED (replicate 12 CHR ''.'') 12 = Some (buf, 10) \<and>
    bc_io_perm_parse_mode_human buf 10 = Some (0x89ED AND permission_bits) \<and>
    length buf = length (replicate 12 CHR ''.'') \<and> drop 10 buf = drop 10 (replicate 12 CHR ''.'')"
  by (rule format_parse_mode_human) simp_all

text \<open>
  C37. What the human parser accepts and keeps: a text that parses has nine characters, or ten of which the first is one of the type
  characters \<^verbatim>\<open>-dlcbps?\<close>; it yields a mode without other bits, and printing that mode gives ten characters, the nine
  permission characters of the text behind the type character \<^verbatim>\<open>?\<close>. The type character of the text is dropped:
  \<^verbatim>\<open>drwxr-xr-t\<close> is printed as \<^verbatim>\<open>?rwxr-xr-t\<close>. So no two texts with different permission characters parse to the same mode.
\<close>

theorem parse_format_mode_human:
  assumes "bc_io_perm_parse_mode_human input len = Some mode" and "unat len \<le> length input"
    and "unat capacity \<le> length out" and "10 \<le> capacity"
  shows "(len = 9 \<or> len = 10 \<and> input ! 0 \<in> set ''-dlcbps?'') \<and> mode AND permission_bits = mode \<and>
    (\<exists>buf. bc_io_perm_format_mode_human mode out capacity = Some (buf, 10) \<and>
      take 10 buf = CHR ''?'' # drop (unat len - 9) (take (unat len) input))"
proof -
  note inv = parse_human_inverse [OF assms(1,2)]
  then have mode: "mode AND permission_bits = mode" and
    tx: "mode_text mode = drop (unat len - 9) (take (unat len) input)"
    by (auto simp: take_drop)
  have len: "len = 9 \<or> len = 10 \<and> input ! 0 \<in> set ''-dlcbps?''"
    using assms(1) by (auto simp: bc_io_perm_parse_mode_human_def split: if_splits)
  have "mode AND S_IFMT = (mode AND permission_bits) AND S_IFMT"
    by (simp only: mode)
  also have "\<dots> = 0"
    by (simp add: file_type_defs and.assoc)
  finally have "bc_io_perm_file_type_char mode = CHR ''?''"
    by (simp add: bc_io_perm_file_type_char_def file_test_defs) (simp add: file_type_defs)
  with len mode tx show ?thesis
    using format_human_text [OF assms(4,3), of mode] length_mode_text [of mode]
    by (simp add: overwrite_def del: length_mode_text)
qed

theorem parse_format_mode_human_witness:
  "((10 :: size_t) = 9 \<or> (10 :: size_t) = 10 \<and> ''drwxr-xr-t'' ! 0 \<in> set ''-dlcbps?'') \<and> (0x3ED :: u32) AND permission_bits = 0x3ED \<and>
    (\<exists>buf. bc_io_perm_format_mode_human 0x3ED (replicate 10 CHR ''.'') 10 = Some (buf, 10) \<and>
      take 10 buf = CHR ''?'' # drop (unat (10 :: size_t) - 9) (take (unat (10 :: size_t)) ''drwxr-xr-t''))"
  by (rule parse_format_mode_human [where len = 10])
     (simp_all add: bc_io_perm_parse_mode_human_def bc_io_perm_parse_rwx_triple_def perm_bit_defs)

text \<open>
  C38. The octal form: printing writes four digits, and parsing them gives the permission bits
  back; both forms denote the same mode.
\<close>

theorem format_parse_mode_octal:
  assumes "unat capacity \<le> length out" and "4 \<le> capacity"
  shows "\<exists>buf. bc_io_perm_format_mode_octal mode out capacity = Some (buf, 4) \<and>
    octal_digits (take 4 buf) \<and> octal_value (take 4 buf) = unat mode mod 4096 \<and>
    bc_io_perm_parse_mode_octal buf 4 = Some (mode AND permission_bits)"
proof -
  have buf: "bc_io_perm_format_mode_octal mode out capacity = Some (overwrite 0 (octal_text mode) out, 4)"
    using format_octal_text [OF assms(2,1)] .
  have "take 4 (overwrite 0 (octal_text mode) out) = octal_text mode"
    by (simp add: overwrite_def octal_text_def)
  with octal.round_trip [OF assms(1) buf] octal_text_value [of mode] buf show ?thesis by simp
qed

theorem format_parse_mode_octal_witness:
  "\<exists>buf. bc_io_perm_format_mode_octal 0x81A4 ''....'' 4 = Some (buf, 4) \<and>
    octal_digits (take 4 buf) \<and> octal_value (take 4 buf) = unat (0x81A4 :: u32) mod 4096 \<and>
    bc_io_perm_parse_mode_octal buf 4 = Some (0x81A4 AND permission_bits)"
  by (rule format_parse_mode_octal) simp_all

text \<open>
  C39. \<^verbatim>\<open>bc_io_perm_parse_mode_octal\<close> accepts exactly the strings of one to four octal digits, and
  the result is their value; in particular it is below \<open>010000\<close>.
\<close>

theorem parse_mode_octal_exact:
  assumes "unat len \<le> length input"
  shows "bc_io_perm_parse_mode_octal input len =
     (if 0 < len \<and> len \<le> 4 \<and> octal_digits (take (unat len) input)
      then Some (of_nat (octal_value (take (unat len) input))) else None) \<and>
    (\<forall>mode. bc_io_perm_parse_mode_octal input len = Some mode \<longrightarrow> mode < 0x1000)"
proof -
  have "octal_value (take (unat len) input) < 4096"
    if "octal_digits (take (unat len) input)" "len \<le> 4"
  proof -
    have "octal_value (take (unat len) input) < 8 ^ length (take (unat len) input)"
      using that(1) by (rule octal_value_bound)
    also have "\<dots> \<le> 8 ^ 4"
      using that(2) by (intro power_increasing) (auto simp: word_le_nat_alt)
    finally show ?thesis by simp
  qed
  then show ?thesis
    using parse_octal_value [OF assms] by (auto simp: word_less_nat_alt unat_of_nat_small)
qed

theorem parse_mode_octal_exact_witness:
  "bc_io_perm_parse_mode_octal ''755'' 3 = Some 0x1ED \<and> bc_io_perm_parse_mode_octal ''758'' 3 = None"
  using parse_mode_octal_exact [of 3 "''755''"] parse_mode_octal_exact [of 3 "''758''"]
  by (simp add: octal_digits_def octal_value_def)

text \<open>
  C40. Looking up the name of a user and then the id of that name gives the user back, when the
  account database is consistent and the name is at most 255 characters long.
\<close>

theorem resolve_user_round_trip:
  assumes "users_consistent ns" and "bc_io_perm_resolve_user_name ns user_id out capacity = Some (buf, n)"
    and "unat capacity \<le> length out" and "n < 256" and "length zero_terminated = 256"
  shows "bc_io_perm_resolve_user_id ns buf n zero_terminated = Some user_id"
proof -
  obtain nm where nm: "ns_getpwuid ns user_id = (0, Some nm)"
    and copy: "bc_io_perm_copy_string (nm @ [CHR 0x00]) out capacity = Some (buf, n)"
    using assms(2) by (auto simp: bc_io_perm_resolve_user_name_def split: prod.splits if_splits option.splits)
  have ok: "CHR 0x00 \<notin> set nm" "length nm < 1024" "ns_getpwnam ns nm = (0, Some user_id)"
    using assms(1) nm by (auto simp: users_consistent_def)
  from resolve_round_trip_aux [OF copy ok(1,2) assms(3,4,5)] ok(3) show ?thesis
    by (auto simp: bc_io_perm_resolve_user_id_def)
qed

theorem resolve_user_round_trip_witness:
  "bc_io_perm_resolve_user_id one_user ''ann.'' 3 (replicate 256 CHR ''.'') = Some 7"
proof -
  have "users_consistent one_user"
    by (auto simp: users_consistent_def one_user_def split: if_splits)
  moreover have "bc_io_perm_resolve_user_name one_user 7 ''....'' 4 = Some (''ann.'', 3)"
    by code_simp
  ultimately show ?thesis
    by (rule resolve_user_round_trip) simp_all
qed

lemma resolve_group_round_trip:
  assumes "groups_consistent ns" and "bc_io_perm_resolve_group_name ns group_id out capacity = Some (buf, n)"
    and "unat capacity \<le> length out" and "n < 256" and "length zero_terminated = 256"
  shows "bc_io_perm_resolve_group_id ns buf n zero_terminated = Some group_id"
proof -
  obtain nm where nm: "ns_getgrgid ns group_id = (0, Some nm)"
    and copy: "bc_io_perm_copy_string (nm @ [CHR 0x00]) out capacity = Some (buf, n)"
    using assms(2) by (auto simp: bc_io_perm_resolve_group_name_def split: prod.splits if_splits option.splits)
  have ok: "CHR 0x00 \<notin> set nm" "length nm < 1024" "ns_getgrnam ns nm = (0, Some group_id)"
    using assms(1) nm by (auto simp: groups_consistent_def)
  from resolve_round_trip_aux [OF copy ok(1,2) assms(3,4,5)] ok(3) show ?thesis
    by (auto simp: bc_io_perm_resolve_group_id_def)
qed

end
