(* ===== verification/IO_Probing.thy ===== *)
theory IO_Probing
  imports IO_Prelude
begin

text \<open>
  Open addressing with linear probing, on the level of tables \<open>'k option list\<close>: what it means
  that a table is well formed, where a search stops, and that storing a key at the free slot
  the search stopped at keeps the table well formed. The interface \<open>probing\<close> asks only that the
  home slot of a key lies in the table; \<^verbatim>\<open>bc_io_file_inode.c\<close> provides it with its hash function.
\<close>

definition keys_of :: "'k option list \<Rightarrow> 'k set" where
  "keys_of tab = {k. Some k \<in> set tab}"

definition used :: "'k option list \<Rightarrow> nat" where
  "used tab = length (filter (\<lambda>e. e \<noteq> None) tab)"

lemma keys_of_nth: "k \<in> keys_of tab \<longleftrightarrow> (\<exists>i < length tab. tab ! i = Some k)"
  by (auto simp: keys_of_def in_set_conv_nth)

lemma free_slot_exists:
  assumes "used tab < length tab"
  shows "\<exists>i < length tab. tab ! i = None"
proof (rule ccontr)
  assume "\<not> ?thesis"
  then have "\<forall>e \<in> set tab. e \<noteq> None" by (metis in_set_conv_nth)
  then have "used tab = length tab" by (simp add: used_def filter_True)
  with assms show False by simp
qed

lemma used_update:
  "i < length tab \<Longrightarrow> tab ! i = None \<Longrightarrow> used (tab[i := Some k]) = Suc (used tab)"
proof (induction tab arbitrary: i)
  case Nil
  then show ?case by simp
next
  case (Cons e tab)
  then show ?case by (cases i) (auto simp: used_def)
qed

lemma keys_of_update:
  "i < length tab \<Longrightarrow> tab ! i = None \<Longrightarrow> keys_of (tab[i := Some k]) = insert k (keys_of tab)"
  by (auto simp: keys_of_nth nth_list_update split: if_splits) (metis option.distinct(1))+

lemma used_empty [simp]: "used (replicate n None) = 0"
  by (simp add: used_def)

lemma keys_of_empty [simp]: "keys_of (replicate n None) = {}"
  by (auto simp: keys_of_def)

text \<open>Every key sits at the end of an unbroken run of used slots that starts at its home slot.\<close>

definition reachable :: "('k \<Rightarrow> nat) \<Rightarrow> 'k option list \<Rightarrow> 'k \<Rightarrow> nat \<Rightarrow> bool" where
  "reachable home tab k i \<longleftrightarrow> (\<exists>j < length tab. i = (home k + j) mod length tab \<and>
     (\<forall>j' < j. tab ! ((home k + j') mod length tab) \<noteq> None))"

definition table_ok :: "('k \<Rightarrow> nat) \<Rightarrow> 'k option list \<Rightarrow> bool" where
  "table_ok home tab \<longleftrightarrow> tab \<noteq> [] \<and>
     (\<forall>i < length tab. \<forall>k. tab ! i = Some k \<longrightarrow> reachable home tab k i) \<and>
     (\<forall>i < length tab. \<forall>j < length tab. tab ! i = tab ! j \<longrightarrow> tab ! i \<noteq> None \<longrightarrow> i = j)"

lemma card_keys_of:
  assumes "table_ok home tab"
  shows "card (keys_of tab) = used tab"
proof -
  let ?I = "{i. i < length tab \<and> tab ! i \<noteq> None}"
  have "keys_of tab = (\<lambda>i. the (tab ! i)) ` ?I"
    by (force simp: keys_of_nth image_iff)
  moreover have "inj_on (\<lambda>i. the (tab ! i)) ?I"
    using assms by (auto intro!: inj_onI simp: table_ok_def)
  ultimately show ?thesis
    by (simp add: card_image used_def length_filter_conv_card)
qed

text \<open>The search for \<open>k\<close> stops at distance \<open>j\<close>: at a free slot or at \<open>k\<close>, and not before.\<close>

definition stops_at :: "('k \<Rightarrow> nat) \<Rightarrow> 'k option list \<Rightarrow> 'k \<Rightarrow> nat \<Rightarrow> bool" where
  "stops_at home tab k j \<longleftrightarrow>
     tab ! ((home k + j) mod length tab) \<in> {None, Some k} \<and>
     (\<forall>j' < j. tab ! ((home k + j') mod length tab) \<notin> {None, Some k})"

locale probing =
  fixes good :: "nat \<Rightarrow> bool" and home :: "nat \<Rightarrow> 'k \<Rightarrow> nat"
  assumes home_bound: "good n \<Longrightarrow> home n k < n"
begin

lemma empty_ok: "good n \<Longrightarrow> table_ok (home n) (replicate n None)"
  using home_bound [of n] by (fastforce simp: table_ok_def)

lemma every_slot_probed:
  assumes "good n" and "i < n"
  shows "\<exists>j < n. i = (home n k + j) mod n"
proof (cases "home n k \<le> i")
  case True
  with assms show ?thesis by (intro exI [of _ "i - home n k"]) auto
next
  case False
  with assms home_bound [OF assms(1), of k] show ?thesis
    by (intro exI [of _ "n + i - home n k"]) auto
qed

lemma search_stops:
  assumes "good (length tab)" and "used tab < length tab"
  obtains j where "j < length tab" and "stops_at (home (length tab)) tab k j"
proof -
  let ?h = "home (length tab)"
  let ?stop = "\<lambda>j. tab ! ((?h k + j) mod length tab) \<in> {None, Some k}"
  obtain i where i: "i < length tab" "tab ! i = None"
    using free_slot_exists [OF assms(2)] by blast
  obtain j0 where j0: "j0 < length tab" "i = (?h k + j0) mod length tab"
    using every_slot_probed [OF assms(1) i(1)] by blast
  define j where "j = (LEAST j. ?stop j)"
  have "?stop j0" using i j0 by simp
  then have "?stop j" and "j \<le> j0"
    unfolding j_def by (rule LeastI, rule Least_le)
  moreover have "\<forall>j' < j. \<not> ?stop j'"
    unfolding j_def by (blast dest: not_less_Least)
  ultimately have "?stop j" and "j \<le> j0" and "\<forall>j' < j. \<not> ?stop j'" by blast+
  then show ?thesis using j0(1) that [of j] by (auto simp: stops_at_def)
qed

lemma search_finds:
  assumes tab: "table_ok (home (length tab)) tab"
    and stop: "stops_at (home (length tab)) tab k j" and "j < length tab"
  shows "tab ! ((home (length tab) k + j) mod length tab) = Some k \<longleftrightarrow> k \<in> keys_of tab"
proof
  assume "tab ! ((home (length tab) k + j) mod length tab) = Some k"
  moreover have "(home (length tab) k + j) mod length tab < length tab"
    using tab by (simp add: table_ok_def)
  ultimately show "k \<in> keys_of tab" by (auto simp: keys_of_nth)
next
  let ?at = "\<lambda>j. tab ! ((home (length tab) k + j) mod length tab)"
  assume "k \<in> keys_of tab"
  then obtain i where i: "i < length tab" "tab ! i = Some k" by (auto simp: keys_of_nth)
  with tab obtain d where d: "i = (home (length tab) k + d) mod length tab" "\<forall>j' < d. ?at j' \<noteq> None"
    by (auto simp: table_ok_def reachable_def)
  have "?at d = Some k" using i d by simp
  then have "j \<le> d" using stop by (metis insertI1 insertI2 not_less stops_at_def)
  have stopped: "?at j = None \<or> ?at j = Some k" using stop by (simp add: stops_at_def)
  show "?at j = Some k"
  proof (cases "j = d")
    case True
    with \<open>?at d = Some k\<close> show ?thesis by simp
  next
    case False
    with \<open>j \<le> d\<close> d(2) have "?at j \<noteq> None" by simp
    with stopped show ?thesis by simp
  qed
qed

lemma store_ok:
  assumes tab: "table_ok (home (length tab)) tab"
    and stop: "stops_at (home (length tab)) tab k j" and j: "j < length tab"
    and free: "tab ! ((home (length tab) k + j) mod length tab) = None"
  shows "table_ok (home (length tab)) (tab[(home (length tab) k + j) mod length tab := Some k])"
proof -
  let ?h = "home (length tab)" and ?n = "length tab"
  let ?s = "(?h k + j) mod ?n"
  let ?t = "tab[?s := Some k]"
  have pos: "0 < ?n" and s: "?s < ?n" using tab by (auto simp: table_ok_def)
  have grows: "?t ! i \<noteq> None" if "tab ! i \<noteq> None" for i
    using that s by (cases "i < ?n") (auto simp: nth_list_update)
  have absent: "tab ! i \<noteq> Some k" if "i < ?n" for i
    using search_finds [OF tab stop j] free that by (auto simp: keys_of_nth)
  have "reachable ?h ?t k' i" if "i < ?n" "?t ! i = Some k'" for i k'
  proof (cases "i = ?s")
    case True
    then have "k' = k" using that s by simp
    have "\<forall>j' < j. tab ! ((?h k + j') mod ?n) \<noteq> None"
      using stop by (auto simp: stops_at_def)
    then show ?thesis
      using True \<open>k' = k\<close> j grows unfolding reachable_def by (intro exI [of _ j]) auto
  next
    case False
    then have "tab ! i = Some k'" using that by simp
    then show ?thesis
      using tab that(1) grows unfolding table_ok_def reachable_def by (metis length_list_update)
  qed
  moreover have "i = i'" if "i < ?n" "i' < ?n" "?t ! i = ?t ! i'" "?t ! i \<noteq> None" for i i'
    using that absent tab by (auto simp: nth_list_update table_ok_def split: if_splits)
  ultimately show ?thesis using pos by (auto simp: table_ok_def)
qed

end

end
