(* ===== verification/IO_Inode_Set.thy ===== *)
theory IO_Inode_Set
  imports IO_Env IO_Probing
begin

text \<open>
  \<^verbatim>\<open>src/file/bc_io_file_inode.c\<close>: the hash set of (device, inode) pairs with which callers detect
  files they have already seen. Open addressing with linear probing in an array whose
  capacity is a power of two, doubled when three quarters would be used. The model keeps the two
  arrays (\<^verbatim>\<open>entries\<close>, \<^verbatim>\<open>occupied\<close>) as lists beside the address of the one block that holds them; a
  loop that may not end is a \<^theory_text>\<open>partial_function\<close>, so that \<open>None\<close> is non-termination (or a read
  outside the arrays), and the theorems show that it is never the result for a well-formed set.
\<close>

section \<open>Model\<close>

record bc_io_file_inode_set_entry =
  entry_device :: u64
  entry_inode :: u64

record bc_io_file_inode_set =
  set_memory_context :: addr
  set_block :: addr
  set_entries :: "bc_io_file_inode_set_entry list"
  set_occupied :: bytes
  set_capacity :: size_t
  set_size :: size_t

definition BC_IO_INODE_SET_DEFAULT_CAPACITY :: size_t where
  "BC_IO_INODE_SET_DEFAULT_CAPACITY = 8192"

definition sizeof_inode_set_entry :: size_t where "sizeof_inode_set_entry = 16"
definition sizeof_inode_set :: size_t where "sizeof_inode_set = 40"

partial_function (option) round_up_loop :: "size_t \<Rightarrow> size_t \<Rightarrow> size_t option" where
  "round_up_loop v result =
     (if result < v then round_up_loop v (push_bit 1 result) else Some result)"

definition bc_io_file_inode_set_round_up_to_power_of_two :: "size_t \<Rightarrow> size_t option" where
  "bc_io_file_inode_set_round_up_to_power_of_two v = (if v < 2 then Some 2 else round_up_loop v 1)"

definition bc_io_file_inode_set_hash :: "u64 \<Rightarrow> u64 \<Rightarrow> size_t \<Rightarrow> size_t" where
  "bc_io_file_inode_set_hash device inode capacity =
     (let x = device * 0x9E3779B97F4A7C15;
          x = x XOR (inode + 0x9E3779B97F4A7C15 + push_bit 6 x + drop_bit 2 x);
          x = x XOR drop_bit 33 x;
          x = x * 0xff51afd7ed558ccd;
          x = x XOR drop_bit 33 x
      in x AND (capacity - 1))"

text \<open>The array of entries that starts at the beginning of a byte region.\<close>

definition load_entry :: "bytes \<Rightarrow> bc_io_file_inode_set_entry" where
  "load_entry bs = \<lparr>entry_device = load_le (take 8 bs), entry_inode = load_le (take 8 (drop 8 bs))\<rparr>"

definition load_entries :: "nat \<Rightarrow> bytes \<Rightarrow> bc_io_file_inode_set_entry list" where
  "load_entries n bs = map (\<lambda>i. load_entry (drop (16 * i) bs)) [0..<n]"

definition bc_io_file_inode_set_allocate_buckets ::
    "io_env \<Rightarrow> addr \<Rightarrow> size_t \<Rightarrow> 'w io_world_scheme \<Rightarrow>
     (addr \<times> bc_io_file_inode_set_entry list \<times> bytes) option \<times> 'w io_world_scheme" where
  "bc_io_file_inode_set_allocate_buckets env memory_context capacity w =
     (case core_safe_multiply env capacity sizeof_inode_set_entry of
        None \<Rightarrow> (None, set_errno ENOMEM w)
      | Some entries_size \<Rightarrow>
        case core_safe_add env entries_size capacity of
          None \<Rightarrow> (None, set_errno ENOMEM w)
        | Some total_size \<Rightarrow>
          case pool_allocate env memory_context total_size w of
            (Inl _, w) \<Rightarrow> (None, w)
          | (Inr mapped, w) \<Rightarrow>
            let memory = snd (core_zero env total_size)
            in (Some (mapped, load_entries (unat capacity) (take (unat entries_size) memory),
                      drop (unat entries_size) memory), w))"

definition bc_io_file_inode_set_create ::
    "io_env \<Rightarrow> addr \<Rightarrow> size_t \<Rightarrow> 'w io_world_scheme \<Rightarrow>
     ((addr \<times> bc_io_file_inode_set) option \<times> 'w io_world_scheme) option" where
  "bc_io_file_inode_set_create env memory_context initial_capacity w = do {
     capacity \<leftarrow> bc_io_file_inode_set_round_up_to_power_of_two
       (if initial_capacity = 0 then BC_IO_INODE_SET_DEFAULT_CAPACITY else initial_capacity);
     Some (case pool_allocate env memory_context sizeof_inode_set w of
       (Inl _, w) \<Rightarrow> (None, w)
     | (Inr p, w) \<Rightarrow>
       case bc_io_file_inode_set_allocate_buckets env memory_context capacity w of
         (None, w) \<Rightarrow> (None, pool_free memory_context p w)
       | (Some (block, entries, occupied), w) \<Rightarrow>
         (Some (p, \<lparr>set_memory_context = memory_context, set_block = block, set_entries = entries,
                    set_occupied = occupied, set_capacity = capacity, set_size = 0\<rparr>), w))
   }"

definition bc_io_file_inode_set_destroy ::
    "addr \<Rightarrow> bc_io_file_inode_set \<Rightarrow> 'w io_world_scheme \<Rightarrow> 'w io_world_scheme" where
  "bc_io_file_inode_set_destroy p s w =
     pool_free (set_memory_context s) p (pool_free (set_memory_context s) (set_block s) w)"

text \<open>\<^verbatim>\<open>while (new_occupied[slot]) slot = (slot + 1) & mask;\<close>\<close>

partial_function (option) probe_free :: "bytes \<Rightarrow> size_t \<Rightarrow> size_t \<Rightarrow> size_t option" where
  "probe_free occupied msk slot =
     (if unat slot < length occupied
      then if occupied ! unat slot \<noteq> 0 then probe_free occupied msk ((slot + 1) AND msk)
           else Some slot
      else None)"

text \<open>
  The search loop of \<^verbatim>\<open>insert\<close> and \<^verbatim>\<open>contains\<close>: whether the key was found, and the slot at which
  the loop stopped.
\<close>

partial_function (option) probe_key ::
    "bc_io_file_inode_set_entry list \<Rightarrow> bytes \<Rightarrow> size_t \<Rightarrow> u64 \<Rightarrow> u64 \<Rightarrow> size_t \<Rightarrow> (bool \<times> size_t) option" where
  "probe_key entries occupied msk device inode slot =
     (if unat slot < length occupied \<and> unat slot < length entries
      then if occupied ! unat slot \<noteq> 0
           then if entry_device (entries ! unat slot) = device \<and> entry_inode (entries ! unat slot) = inode
                then Some (True, slot)
                else probe_key entries occupied msk device inode ((slot + 1) AND msk)
           else Some (False, slot)
      else None)"

text \<open>The loop of \<^verbatim>\<open>grow\<close> over the old slots, given as the list of indices still to visit.\<close>

fun grow_loop :: "bc_io_file_inode_set \<Rightarrow> size_t \<Rightarrow> nat list \<Rightarrow>
    bc_io_file_inode_set_entry list \<times> bytes \<Rightarrow> (bc_io_file_inode_set_entry list \<times> bytes) option" where
  "grow_loop s new_capacity [] new = Some new"
| "grow_loop s new_capacity (index # rest) (new_entries, new_occupied) =
     (if set_occupied s ! index = 0 then grow_loop s new_capacity rest (new_entries, new_occupied)
      else do {
        let device = entry_device (set_entries s ! index);
        let inode = entry_inode (set_entries s ! index);
        slot \<leftarrow> probe_free new_occupied (new_capacity - 1)
                  (bc_io_file_inode_set_hash device inode new_capacity);
        grow_loop s new_capacity rest
          (new_entries[unat slot := \<lparr>entry_device = device, entry_inode = inode\<rparr>],
           new_occupied[unat slot := 1])
      })"

definition bc_io_file_inode_set_grow ::
    "io_env \<Rightarrow> bc_io_file_inode_set \<Rightarrow> 'w io_world_scheme \<Rightarrow>
     ((bool \<times> bc_io_file_inode_set) \<times> 'w io_world_scheme) option" where
  "bc_io_file_inode_set_grow env s w =
     (let new_capacity = set_capacity s * 2
      in case bc_io_file_inode_set_allocate_buckets env (set_memory_context s) new_capacity w of
           (None, w) \<Rightarrow> Some ((False, s), w)
         | (Some (block, new_entries, new_occupied), w) \<Rightarrow> do {
             (new_entries, new_occupied) \<leftarrow>
               grow_loop s new_capacity [0..<unat (set_capacity s)] (new_entries, new_occupied);
             let w = pool_free (set_memory_context s) (set_block s) w;
             Some ((True, s\<lparr>set_block := block, set_entries := new_entries,
                            set_occupied := new_occupied, set_capacity := new_capacity\<rparr>), w)
           })"

text \<open>\<open>None\<close> inside is the result false; otherwise whether the pair was already present.\<close>

definition bc_io_file_inode_set_insert ::
    "io_env \<Rightarrow> bc_io_file_inode_set \<Rightarrow> u64 \<Rightarrow> u64 \<Rightarrow> 'w io_world_scheme \<Rightarrow>
     ((bool option \<times> bc_io_file_inode_set) \<times> 'w io_world_scheme) option" where
  "bc_io_file_inode_set_insert env s device inode w = do {
     ((room, s), w) \<leftarrow>
       (if (set_size s + 1) * 4 > set_capacity s * 3 then bc_io_file_inode_set_grow env s w
        else Some ((True, s), w));
     if \<not> room then Some ((None, s), w)
     else do {
       (found, slot) \<leftarrow> probe_key (set_entries s) (set_occupied s) (set_capacity s - 1) device inode
                         (bc_io_file_inode_set_hash device inode (set_capacity s));
       if found then Some ((Some True, s), w)
       else Some ((Some False, s\<lparr>set_entries := (set_entries s)[unat slot :=
                       \<lparr>entry_device = device, entry_inode = inode\<rparr>],
                     set_occupied := (set_occupied s)[unat slot := 1],
                     set_size := set_size s + 1\<rparr>), w)
     }
   }"

definition bc_io_file_inode_set_contains :: "bc_io_file_inode_set \<Rightarrow> u64 \<Rightarrow> u64 \<Rightarrow> bool option" where
  "bc_io_file_inode_set_contains s device inode =
     map_option fst (probe_key (set_entries s) (set_occupied s) (set_capacity s - 1) device inode
       (bc_io_file_inode_set_hash device inode (set_capacity s)))"

definition bc_io_file_inode_set_clear :: "io_env \<Rightarrow> bc_io_file_inode_set \<Rightarrow> bc_io_file_inode_set" where
  "bc_io_file_inode_set_clear env s =
     s\<lparr>set_occupied := snd (core_zero env (set_capacity s)), set_size := 0\<rparr>"

definition bc_io_file_inode_set_get_size :: "bc_io_file_inode_set \<Rightarrow> size_t" where
  "bc_io_file_inode_set_get_size s = set_size s"

section \<open>Rounding up to a power of two\<close>

lemma round_up_loop_stops:
  assumes "n \<le> m" and "m < 64" and "v \<le> 2 ^ m" and "\<And>i. i < m \<Longrightarrow> 2 ^ i < v"
  shows "round_up_loop v (2 ^ n) = Some (2 ^ m)"
  using assms(1)
proof (induction n rule: inc_induct)
  case base
  from assms(3) show ?case by (subst round_up_loop.simps) (auto dest: leD)
next
  case (step n)
  have "push_bit 1 (2 ^ n :: size_t) = 2 ^ Suc n" by (simp add: push_bit_eq_mult)
  with step assms(4) [of n] show ?case by (subst round_up_loop.simps) (simp add: mult.commute)
qed

lemma round_up_total:
  assumes "2 \<le> v" and "v \<le> 2 ^ 63"
  obtains m where "1 \<le> m" and "m < 64" and "round_up_loop v 1 = Some (2 ^ m)"
    and "v \<le> 2 ^ m" and "\<And>i. i < m \<Longrightarrow> 2 ^ i < v"
proof -
  define m where "m = (LEAST m. v \<le> 2 ^ m)"
  have m: "v \<le> 2 ^ m" and le: "m \<le> 63"
    unfolding m_def using assms(2) by (rule LeastI, intro Least_le)
  have least: "2 ^ i < v" if "i < m" for i
    using not_less_Least [of i "\<lambda>m. v \<le> 2 ^ m"] that by (simp add: m_def not_le)
  have "m \<noteq> 0"
  proof
    assume "m = 0"
    with m assms(1) show False by (simp add: word_le_nat_alt)
  qed
  moreover have "round_up_loop v 1 = Some (2 ^ m)"
    using round_up_loop_stops [of 0 m v] m le least by simp
  ultimately show ?thesis using m le least that [of m] by simp
qed

lemma round_up_loop_diverges:
  assumes "2 ^ 63 < v" and "r = 0 \<or> (\<exists>n < 64. r = 2 ^ n)"
  shows "round_up_loop v r = None"
proof (rule ccontr)
  assume "round_up_loop v r \<noteq> None"
  then obtain y where ret: "round_up_loop v r = Some y" by blast
  have "2 ^ 63 < v \<longrightarrow> (r = 0 \<or> (\<exists>n < 64. r = 2 ^ n)) \<longrightarrow> False"
  proof (rule round_up_loop.raw_induct
      [where P = "\<lambda>v r y. 2 ^ 63 < v \<longrightarrow> (r = 0 \<or> (\<exists>n < 64. r = 2 ^ n)) \<longrightarrow> False", OF _ ret], intro impI)
    fix f v r y
    assume IH: "\<And>v r y. f v r = Some y \<Longrightarrow> 2 ^ 63 < v \<longrightarrow> (r = 0 \<or> (\<exists>n < 64. r = 2 ^ n)) \<longrightarrow> False"
      and eq: "(if r < v then f v (push_bit 1 r) else Some r) = Some y"
      and v: "2 ^ 63 < (v :: size_t)" and r: "r = 0 \<or> (\<exists>n < 64. r = (2 :: size_t) ^ n)"
    have big: "2 ^ 63 < unat v" using v by (simp add: word_less_nat_alt)
    have "unat r \<le> 2 ^ 63"
      using r power_increasing [of _ 63 "2 :: nat"] by auto
    with big have "r < v" by (simp add: word_less_nat_alt)
    with eq have "f v (push_bit 1 r) = Some y" by simp
    moreover have "push_bit 1 r = 0 \<or> (\<exists>n < 64. push_bit 1 r = 2 ^ n)"
    proof (cases "r = 0")
      case False
      with r obtain n where n: "n < 64" "r = 2 ^ n" by blast
      then have "push_bit 1 r = 2 ^ Suc n" by (simp add: push_bit_eq_mult)
      moreover have "(2 :: size_t) ^ Suc n = 0" if "\<not> Suc n < 64"
      proof -
        from that n(1) have "n = 63" by simp
        then show ?thesis by simp
      qed
      ultimately show ?thesis by metis
    qed simp
    ultimately show False using IH v by blast
  qed
  with assms show False by blast
qed

lemma round_up_diverges:
  assumes "2 ^ 63 < v"
  shows "bc_io_file_inode_set_round_up_to_power_of_two v = None"
proof -
  have "\<exists>n < 64. (1 :: size_t) = 2 ^ n" by (rule exI [of _ 0]) simp
  then have "round_up_loop v 1 = None" using round_up_loop_diverges [OF assms] by blast
  moreover have "\<not> v < 2" using assms by (simp add: word_less_nat_alt)
  ultimately show ?thesis by (simp add: bc_io_file_inode_set_round_up_to_power_of_two_def)
qed

lemma round_up_spec:
  assumes "bc_io_file_inode_set_round_up_to_power_of_two v = Some r"
  obtains m where "1 \<le> m" and "m < 64" and "r = 2 ^ m" and "v \<le> r"
proof (cases "v < 2")
  case True
  with assms have "r = 2" by (simp add: bc_io_file_inode_set_round_up_to_power_of_two_def)
  then show ?thesis using that [of 1] True by simp
next
  case False
  have "v \<le> 2 ^ 63"
    using assms round_up_diverges [of v] by (metis not_le option.distinct(1))
  then obtain m where "1 \<le> m" "m < 64" "round_up_loop v 1 = Some (2 ^ m)" "v \<le> 2 ^ m"
    using round_up_total [of v] False by (metis not_less)
  then show ?thesis
    using assms False that [of m] by (simp add: bc_io_file_inode_set_round_up_to_power_of_two_def)
qed

section \<open>Slots\<close>

text \<open>The capacities a set can have: powers of two whose arrays fit the address space.\<close>

definition good_capacity :: "nat \<Rightarrow> bool" where
  "good_capacity N \<longleftrightarrow> (\<exists>n. 1 \<le> n \<and> n \<le> 59 \<and> N = 2 ^ n)"

definition home_slot :: "nat \<Rightarrow> u64 \<times> u64 \<Rightarrow> nat" where
  "home_slot N k = unat (bc_io_file_inode_set_hash (fst k) (snd k) (of_nat N))"

lemma good_capacity_bounds:
  assumes "good_capacity N"
  shows "2 \<le> N" and "N \<le> 2 ^ 59"
  using assms power_increasing [of _ 59 "2::nat"] power_increasing [of 1 _ "2::nat"]
  by (auto simp: good_capacity_def)

lemma unat_and_capacity:
  assumes "good_capacity N"
  shows "unat (x AND (of_nat N - 1 :: size_t)) = unat x mod N"
  using assms unat_and_mask [of x] by (auto simp: good_capacity_def)

interpretation inode_probing: probing good_capacity home_slot
proof
  fix N and k :: "u64 \<times> u64"
  assume "good_capacity N"
  then show "home_slot N k < N"
    using good_capacity_bounds(1) [of N]
    by (simp add: home_slot_def bc_io_file_inode_set_hash_def Let_def unat_and_capacity)
qed

lemma next_slot:
  assumes "good_capacity N" and "i < N"
  shows "(of_nat i + 1) AND (of_nat N - 1) = (of_nat (Suc i mod N) :: size_t)"
proof -
  have "Suc i < 2 ^ 64" using good_capacity_bounds(2) [OF assms(1)] assms(2) by simp
  then have "unat (of_nat (Suc i) :: size_t) = Suc i" by (rule unat_of_nat64)
  then have "unat ((of_nat (Suc i) :: size_t) AND (of_nat N - 1)) = Suc i mod N"
    using unat_and_capacity [OF assms(1), of "of_nat (Suc i)"] by simp
  moreover have "Suc i mod N < 2 ^ 64"
    using \<open>Suc i < 2 ^ 64\<close> by (rule le_less_trans [OF mod_less_eq_dividend])
  ultimately show ?thesis
    by (simp only: word_unat_eq_iff unat_of_nat64) (simp add: add.commute)
qed

section \<open>The table a set represents\<close>

definition table_of :: "bc_io_file_inode_set_entry list \<Rightarrow> bytes \<Rightarrow> (u64 \<times> u64) option list" where
  "table_of entries occupied =
     map2 (\<lambda>e u. if u \<noteq> 0 then Some (entry_device e, entry_inode e) else None) entries occupied"

definition set_table :: "bc_io_file_inode_set \<Rightarrow> (u64 \<times> u64) option list" where
  "set_table s = table_of (set_entries s) (set_occupied s)"

definition set_keys :: "bc_io_file_inode_set \<Rightarrow> (u64 \<times> u64) set" where
  "set_keys s = keys_of (set_table s)"

text \<open>The invariant of the component.\<close>

definition set_ok :: "bc_io_file_inode_set \<Rightarrow> bool" where
  "set_ok s \<longleftrightarrow> good_capacity (unat (set_capacity s)) \<and>
     length (set_entries s) = unat (set_capacity s) \<and>
     length (set_occupied s) = unat (set_capacity s) \<and>
     table_ok (home_slot (unat (set_capacity s))) (set_table s) \<and>
     unat (set_size s) = used (set_table s) \<and>
     4 * used (set_table s) \<le> 3 * unat (set_capacity s)"

lemma table_of_simps:
  assumes "length entries = N" and "length occupied = N"
  shows "length (table_of entries occupied) = N"
    and "i < N \<Longrightarrow> table_of entries occupied ! i =
      (if occupied ! i \<noteq> 0 then Some (entry_device (entries ! i), entry_inode (entries ! i)) else None)"
  using assms by (auto simp: table_of_def)

lemma table_of_store:
  assumes "length entries = N" and "length occupied = N" and "i < N"
  shows "table_of (entries[i := \<lparr>entry_device = d, entry_inode = n\<rparr>]) (occupied[i := 1]) =
         (table_of entries occupied)[i := Some (d, n)]"
  using assms by (intro nth_equalityI) (auto simp: table_of_def nth_list_update)

lemma probe_position:
  assumes "good_capacity N"
  shows "(h + i) mod N < N"
    and "unat (of_nat ((h + i) mod N) :: size_t) = (h + i) mod N"
    and "(of_nat ((h + i) mod N) + 1) AND (of_nat N - 1) = (of_nat ((h + Suc i) mod N) :: size_t)"
proof -
  show slot: "(h + i) mod N < N" using good_capacity_bounds(1) [OF assms] by simp
  then have "(h + i) mod N < 2 ^ 64" using good_capacity_bounds(2) [OF assms] by simp
  then show "unat (of_nat ((h + i) mod N) :: size_t) = (h + i) mod N" by (rule unat_of_nat64)
  show "(of_nat ((h + i) mod N) + 1) AND (of_nat N - 1) = (of_nat ((h + Suc i) mod N) :: size_t)"
    using next_slot [OF assms slot] by (simp add: mod_Suc_eq)
qed

lemma hash_home_slot:
  assumes "good_capacity N"
  shows "bc_io_file_inode_set_hash d n (of_nat N) = of_nat ((home_slot N (d, n) + 0) mod N)"
  using inode_probing.home_bound [OF assms, of "(d, n)"] by (simp add: home_slot_def)

lemma probe_key_stops:
  assumes arrays: "length entries = N" "length occupied = N" and cap: "good_capacity N"
    and stop: "stops_at (home_slot N) (table_of entries occupied) (d, n) j"
  shows "probe_key entries occupied (of_nat N - 1) d n (bc_io_file_inode_set_hash d n (of_nat N)) =
    Some (table_of entries occupied ! ((home_slot N (d, n) + j) mod N) = Some (d, n),
          of_nat ((home_slot N (d, n) + j) mod N))"
proof -
  let ?tab = "table_of entries occupied" and ?at = "\<lambda>i. (home_slot N (d, n) + i) mod N"
  note tab = table_of_simps [OF arrays] and pos = probe_position [OF cap]
  have "probe_key entries occupied (of_nat N - 1) d n (of_nat (?at i)) =
      Some (?tab ! ?at j = Some (d, n), of_nat (?at j))" if "i \<le> j" for i
    using that
  proof (induction i rule: inc_induct)
    case base
    have "?tab ! ?at j = None \<or> ?tab ! ?at j = Some (d, n)"
      using stop tab(1) by (simp add: stops_at_def)
    then show ?case
      using arrays pos(1) by (subst probe_key.simps) (auto simp: pos(2) tab split: if_splits)
  next
    case (step i)
    then have "?tab ! ?at i \<noteq> None" "?tab ! ?at i \<noteq> Some (d, n)"
      using stop tab(1) by (auto simp: stops_at_def)
    then show ?case
      using arrays pos(1) step.IH
      by (subst probe_key.simps) (auto simp: pos(2,3) tab split: if_splits)
  qed
  from this [of 0] show ?thesis by (simp only: hash_home_slot [OF cap] le0)
qed

lemma probe_free_stops:
  assumes arrays: "length entries = N" "length occupied = N" and cap: "good_capacity N"
    and stop: "stops_at (home_slot N) (table_of entries occupied) (d, n) j"
    and free: "table_of entries occupied ! ((home_slot N (d, n) + j) mod N) = None"
  shows "probe_free occupied (of_nat N - 1) (bc_io_file_inode_set_hash d n (of_nat N)) =
    Some (of_nat ((home_slot N (d, n) + j) mod N))"
proof -
  let ?tab = "table_of entries occupied" and ?at = "\<lambda>i. (home_slot N (d, n) + i) mod N"
  note tab = table_of_simps [OF arrays] and pos = probe_position [OF cap]
  have "probe_free occupied (of_nat N - 1) (of_nat (?at i)) = Some (of_nat (?at j))" if "i \<le> j" for i
    using that
  proof (induction i rule: inc_induct)
    case base
    then show ?case
      using arrays pos(1) free by (subst probe_free.simps) (auto simp: pos(2) tab split: if_splits)
  next
    case (step i)
    then have "?tab ! ?at i \<noteq> None"
      using stop tab(1) by (auto simp: stops_at_def)
    then show ?case
      using arrays pos(1) step.IH
      by (subst probe_free.simps) (auto simp: pos(2,3) tab split: if_splits)
  qed
  from this [of 0] show ?thesis by (simp only: hash_home_slot [OF cap] le0)
qed

section \<open>Searching and storing\<close>

text \<open>
  What one search in a well-formed table yields, whichever of the two loops runs it: a slot, and
  a table that is again well formed when a new key is stored there.
\<close>

lemma search_spec:
  assumes arrays: "length entries = N" "length occupied = N" and cap: "good_capacity N"
    and tab: "table_ok (home_slot N) (table_of entries occupied)"
    and room: "used (table_of entries occupied) < N"
  obtains slot where "unat slot < N"
    and "probe_key entries occupied (of_nat N - 1) d n (bc_io_file_inode_set_hash d n (of_nat N)) =
      Some ((d, n) \<in> keys_of (table_of entries occupied), slot)"
    and "(d, n) \<notin> keys_of (table_of entries occupied) \<Longrightarrow>
      probe_free occupied (of_nat N - 1) (bc_io_file_inode_set_hash d n (of_nat N)) = Some slot \<and>
      table_of entries occupied ! unat slot = None \<and>
      table_ok (home_slot N) ((table_of entries occupied)[unat slot := Some (d, n)])"
proof -
  let ?tab = "table_of entries occupied"
  have len: "length ?tab = N" using arrays by (simp add: table_of_simps)
  obtain j where j: "j < N" and stop: "stops_at (home_slot N) ?tab (d, n) j"
    using inode_probing.search_stops [of ?tab "(d, n)"] cap room len by metis
  define i where "i = (home_slot N (d, n) + j) mod N"
  have i: "i < N" "unat (of_nat i :: size_t) = i"
    unfolding i_def by (rule probe_position [OF cap])+
  have found: "?tab ! i = Some (d, n) \<longleftrightarrow> (d, n) \<in> keys_of ?tab"
    using inode_probing.search_finds [of ?tab "(d, n)" j] tab stop j len by (simp add: i_def)
  show ?thesis
  proof (rule that [of "of_nat i"])
    show "unat (of_nat i :: size_t) < N" using i by simp
    show "probe_key entries occupied (of_nat N - 1) d n (bc_io_file_inode_set_hash d n (of_nat N)) =
        Some ((d, n) \<in> keys_of ?tab, of_nat i)"
      using probe_key_stops [OF arrays cap stop] found by (simp add: i_def)
    assume absent: "(d, n) \<notin> keys_of ?tab"
    then have free: "?tab ! i = None"
      using stop found len by (auto simp: stops_at_def i_def)
    then show "probe_free occupied (of_nat N - 1) (bc_io_file_inode_set_hash d n (of_nat N)) =
          Some (of_nat i) \<and> ?tab ! unat (of_nat i :: size_t) = None \<and>
        table_ok (home_slot N) (?tab[unat (of_nat i :: size_t) := Some (d, n)])"
      using probe_free_stops [OF arrays cap stop] inode_probing.store_ok [of ?tab "(d, n)" j]
        tab stop j len i(2) by (simp add: i_def)
  qed
qed

text \<open>The keys in the old slots of \<open>is\<close>, and the effect of the rehashing loop.\<close>

definition keys_at :: "'k option list \<Rightarrow> nat list \<Rightarrow> 'k set" where
  "keys_at tab is = {k. \<exists>i \<in> set is. tab ! i = Some k}"

lemma keys_at_Cons:
  "keys_at tab (i # is) = (case tab ! i of None \<Rightarrow> {} | Some k \<Rightarrow> {k}) \<union> keys_at tab is"
  by (auto simp: keys_at_def split: option.splits)

lemma keys_at_all: "keys_at tab [0..<length tab] = keys_of tab"
  by (force simp: keys_at_def keys_of_nth)

definition used_at :: "'k option list \<Rightarrow> nat list \<Rightarrow> nat" where
  "used_at tab is = length (filter (\<lambda>i. tab ! i \<noteq> None) is)"

lemma used_at_all: "used_at tab [0..<length tab] = used tab"
proof -
  have "tab = map ((!) tab) [0..<length tab]" by (simp add: map_nth)
  then have "used tab = length (filter (\<lambda>e. e \<noteq> None) (map ((!) tab) [0..<length tab]))"
    by (simp add: used_def)
  then show ?thesis by (simp add: used_at_def filter_map comp_def)
qed

lemma keys_at_later:
  assumes ok: "table_ok h tab" and key: "tab ! i = Some k" and i: "i < length tab"
    and "is": "i \<notin> set is" "set is \<subseteq> {..<length tab}"
  shows "k \<notin> keys_at tab is"
proof
  assume "k \<in> keys_at tab is"
  then obtain i' where i': "i' \<in> set is" "tab ! i' = Some k" by (auto simp: keys_at_def)
  then have "i' < length tab" using "is"(2) by auto
  then have "i = i'" using ok key i i'(2) unfolding table_ok_def by (metis option.distinct(1))
  with i'(1) "is"(1) show False by simp
qed

lemma grow_loop_spec:
  assumes old: "table_ok h (set_table s)" "length (set_entries s) = M" "length (set_occupied s) = M"
    and cap: "good_capacity N"
  shows "distinct is \<Longrightarrow> set is \<subseteq> {..<M} \<Longrightarrow> length entries = N \<Longrightarrow> length occupied = N \<Longrightarrow>
    table_ok (home_slot N) (table_of entries occupied) \<Longrightarrow>
    keys_of (table_of entries occupied) \<inter> keys_at (set_table s) is = {} \<Longrightarrow>
    used (table_of entries occupied) + used_at (set_table s) is < N \<Longrightarrow>
    \<exists>entries' occupied'. grow_loop s (of_nat N) is (entries, occupied) = Some (entries', occupied') \<and>
      length entries' = N \<and> length occupied' = N \<and>
      table_ok (home_slot N) (table_of entries' occupied') \<and>
      keys_of (table_of entries' occupied') = keys_of (table_of entries occupied) \<union> keys_at (set_table s) is \<and>
      used (table_of entries' occupied') = used (table_of entries occupied) + used_at (set_table s) is"
proof (induction "is" arbitrary: entries occupied)
  case Nil
  then show ?case by (simp add: keys_at_def used_at_def)
next
  case (Cons i "is")
  let ?old = "set_table s" and ?tab = "table_of entries occupied"
  have i: "i < M" using Cons.prems(2) by simp
  note old_i = table_of_simps(2) [OF old(2,3) i, folded set_table_def]
  show ?case
  proof (cases "set_occupied s ! i = 0")
    case True
    then have "?old ! i = None" using old_i by simp
    moreover have "\<exists>entries' occupied'. grow_loop s (of_nat N) is (entries, occupied) = Some (entries', occupied') \<and>
      length entries' = N \<and> length occupied' = N \<and> table_ok (home_slot N) (table_of entries' occupied') \<and>
      keys_of (table_of entries' occupied') = keys_of ?tab \<union> keys_at ?old is \<and>
      used (table_of entries' occupied') = used ?tab + used_at ?old is"
      using Cons.prems \<open>?old ! i = None\<close>
      by (intro Cons.IH) (auto simp: keys_at_Cons used_at_def)
    ultimately show ?thesis using True by (simp add: keys_at_Cons used_at_def)
  next
    case False
    define d where "d = entry_device (set_entries s ! i)"
    define n where "n = entry_inode (set_entries s ! i)"
    have key: "?old ! i = Some (d, n)" using False old_i by (simp add: d_def n_def)
    have absent: "(d, n) \<notin> keys_of ?tab" using Cons.prems(6) key by (auto simp: keys_at_Cons)
    have later: "(d, n) \<notin> keys_at ?old is"
      using keys_at_later [OF old(1) key] i Cons.prems(1,2) old by (simp add: set_table_def table_of_simps)
    have room: "used ?tab < N" using Cons.prems(7) by simp
    obtain slot where slot: "unat slot < N"
      "probe_free occupied (of_nat N - 1) (bc_io_file_inode_set_hash d n (of_nat N)) = Some slot"
      "?tab ! unat slot = None" "table_ok (home_slot N) (?tab[unat slot := Some (d, n)])"
      using search_spec [OF Cons.prems(3,4) cap Cons.prems(5) room, of d n] absent by metis
    let ?entries = "entries[unat slot := \<lparr>entry_device = d, entry_inode = n\<rparr>]"
    let ?occupied = "occupied[unat slot := 1]"
    have stored: "table_of ?entries ?occupied = ?tab[unat slot := Some (d, n)]"
      by (rule table_of_store [OF Cons.prems(3,4) slot(1)])
    have len: "length ?tab = N" using Cons.prems(3,4) by (simp add: table_of_simps)
    have keys: "keys_of (table_of ?entries ?occupied) = insert (d, n) (keys_of ?tab)"
      and used: "used (table_of ?entries ?occupied) = Suc (used ?tab)"
      using slot len by (simp_all add: stored keys_of_update used_update)
    have "\<exists>entries' occupied'. grow_loop s (of_nat N) is (?entries, ?occupied) = Some (entries', occupied') \<and>
      length entries' = N \<and> length occupied' = N \<and> table_ok (home_slot N) (table_of entries' occupied') \<and>
      keys_of (table_of entries' occupied') = keys_of (table_of ?entries ?occupied) \<union> keys_at ?old is \<and>
      used (table_of entries' occupied') = used (table_of ?entries ?occupied) + used_at ?old is"
      using Cons.prems slot(4) later key
      by (intro Cons.IH) (auto simp: stored [symmetric] keys used keys_at_Cons used_at_def)
    then show ?thesis
      using False slot(2) key
      by (auto simp: keys used keys_at_Cons used_at_def d_def [symmetric] n_def [symmetric])
  qed
qed

section \<open>The operations\<close>

lemma zeroed_table:
  assumes "length occupied = N" and "length entries = N" and "\<forall>u \<in> set occupied. u = 0"
  shows "table_of entries occupied = replicate N None"
  using assms by (intro nth_equalityI) (auto simp: table_of_def)

text \<open>
  A successful allocation bounds the capacity: sixteen bytes per entry and one per flag have to
  fit 64 bits, so doubling can never wrap.
\<close>

lemma allocate_buckets_spec:
  assumes "bc_core_ok env"
    and "bc_io_file_inode_set_allocate_buckets env ctx capacity w = (Some (block, entries, occupied), w')"
  shows "17 * unat capacity < 2 ^ 64" and "length entries = unat capacity"
    and "length occupied = unat capacity" and "table_of entries occupied = replicate (unat capacity) None"
    and "trace w' = trace w @ [Ev_pool_allocate ctx (17 * capacity) (Inr block)]"
proof -
  note core = bc_core_okD [OF assms(1)]
  from assms(2) have fit: "16 * unat capacity < 2 ^ 64" "unat (capacity * 16) + unat capacity < 2 ^ 64"
    and alloc: "pool_allocate env ctx (capacity * 16 + capacity) w = (Inr block, w')"
    and arrays: "entries = load_entries (unat capacity) (take (unat (capacity * 16)) (replicate (unat (capacity * 16 + capacity)) 0))"
      "occupied = drop (unat (capacity * 16)) (replicate (unat (capacity * 16 + capacity)) 0)"
    by (auto simp: bc_io_file_inode_set_allocate_buckets_def core sizeof_inode_set_entry_def Let_def
        split: if_splits sum.splits prod.splits)
  have sixteen: "unat (capacity * 16) = 16 * unat capacity"
    using fit(1) by (simp add: unat_word_ariths mult.commute)
  show "17 * unat capacity < 2 ^ 64" using fit(2) by (simp add: sixteen)
  moreover have seventeen: "capacity * 16 + capacity = 17 * capacity" by simp
  ultimately have total: "unat (17 * capacity) = 17 * unat capacity"
    using unat_plus_if_small [of "capacity * 16" capacity] by (simp add: sixteen)
  show lens: "length entries = unat capacity" "length occupied = unat capacity"
    by (simp_all add: arrays load_entries_def sixteen seventeen total)
  show "table_of entries occupied = replicate (unat capacity) None"
    using lens by (intro zeroed_table) (simp_all add: arrays(2))
  from alloc seventeen show "trace w' = trace w @ [Ev_pool_allocate ctx (17 * capacity) (Inr block)]"
    by (auto simp: pool_allocate_def answer_def)
qed

text \<open>
  When an insertion has to grow the table, and when it cannot: the arrays of twice the capacity, 17 bytes for each slot, do not fit the
  address space or are refused by the pool.
\<close>

definition set_full :: "bc_io_file_inode_set \<Rightarrow> bool" where
  "set_full s \<longleftrightarrow> 4 * Suc (card (set_keys s)) > 3 * unat (set_capacity s)"

definition growth_refused :: "io_env \<Rightarrow> bc_io_file_inode_set \<Rightarrow> history \<Rightarrow> bool" where
  "growth_refused env s h \<longleftrightarrow> 34 * unat (set_capacity s) \<ge> 2 ^ 64 \<or>
     (\<exists>e. env_pool_allocate env h (set_memory_context s) (34 * set_capacity s) = Inl e)"

lemma allocate_buckets_fails:
  assumes "bc_core_ok env" and "bc_io_file_inode_set_allocate_buckets env ctx capacity w = (r, w')"
  shows "r = None \<longleftrightarrow> 17 * unat capacity \<ge> 2 ^ 64 \<or> (\<exists>e. env_pool_allocate env (trace w) ctx (17 * capacity) = Inl e)"
proof (cases "17 * unat capacity < 2 ^ 64")
  case True
  note core = bc_core_okD [OF assms(1)]
  have "unat (capacity * 16) = 16 * unat capacity" using True by (simp add: unat_word_ariths mult.commute)
  moreover have "capacity * 16 + capacity = 17 * capacity" by simp
  ultimately show ?thesis
    using assms(2) True by (auto simp: bc_io_file_inode_set_allocate_buckets_def core sizeof_inode_set_entry_def pool_allocate_def
        answer_def Let_def split: sum.splits)
next
  case False
  then show ?thesis using assms allocate_buckets_spec(1) [OF assms(1), of ctx capacity w] by (cases r) fastforce+
qed

lemma good_capacityI:
  assumes "1 \<le> n" and "17 * 2 ^ n < (2 :: nat) ^ 64"
  shows "good_capacity (2 ^ n)"
proof -
  have "n \<le> 59"
  proof (rule ccontr)
    assume "\<not> n \<le> 59"
    then have "(2 :: nat) ^ 60 \<le> 2 ^ n" by (intro power_increasing) auto
    with assms(2) show False by simp
  qed
  with assms(1) show ?thesis by (auto simp: good_capacity_def)
qed

lemma fresh_set_ok:
  assumes "good_capacity (unat (set_capacity s))" and "set_size s = 0"
    and "length (set_entries s) = unat (set_capacity s)" and "length (set_occupied s) = unat (set_capacity s)"
    and "set_table s = replicate (unat (set_capacity s)) None"
  shows "set_ok s" and "set_keys s = {}"
  using assms inode_probing.empty_ok [OF assms(1)] by (simp_all add: set_ok_def set_keys_def)

lemma create_elim:
  assumes "bc_io_file_inode_set_create env ctx initial_capacity w = Some (Some (p, s), w')"
  obtains capacity w1 block entries occupied where
    "bc_io_file_inode_set_round_up_to_power_of_two
       (if initial_capacity = 0 then BC_IO_INODE_SET_DEFAULT_CAPACITY else initial_capacity) = Some capacity"
    and "bc_io_file_inode_set_allocate_buckets env ctx capacity w1 = (Some (block, entries, occupied), w')"
    and "s = \<lparr>set_memory_context = ctx, set_block = block, set_entries = entries,
              set_occupied = occupied, set_capacity = capacity, set_size = 0\<rparr>"
proof -
  obtain capacity where cap: "bc_io_file_inode_set_round_up_to_power_of_two
      (if initial_capacity = 0 then BC_IO_INODE_SET_DEFAULT_CAPACITY else initial_capacity) = Some capacity"
    using assms unfolding bc_io_file_inode_set_create_def bind_eq_Some_conv by blast
  obtain r w1 where "pool_allocate env ctx sizeof_inode_set w = (r, w1)" by fastforce
  moreover obtain r' w2 where "bc_io_file_inode_set_allocate_buckets env ctx capacity w1 = (r', w2)" by fastforce
  ultimately show ?thesis
    using assms cap that [of capacity w1]
    unfolding bc_io_file_inode_set_create_def cap bind.bind_lunit
    by (cases r; cases r') auto
qed

lemma create_spec:
  assumes "bc_core_ok env"
    and "bc_io_file_inode_set_create env ctx initial_capacity w = Some (Some (p, s), w')"
  shows "set_ok s" and "set_keys s = {}"
    and "unat initial_capacity \<le> unat (set_capacity s)"
proof -
  define c where "c = (if initial_capacity = 0 then BC_IO_INODE_SET_DEFAULT_CAPACITY else initial_capacity)"
  obtain capacity w1 block entries occupied where
    cap: "bc_io_file_inode_set_round_up_to_power_of_two c = Some capacity"
    and alloc: "bc_io_file_inode_set_allocate_buckets env ctx capacity w1 = (Some (block, entries, occupied), w')"
    and s: "s = \<lparr>set_memory_context = ctx, set_block = block, set_entries = entries,
                 set_occupied = occupied, set_capacity = capacity, set_size = 0\<rparr>"
    using create_elim [OF assms(2)] unfolding c_def .
  note spec = allocate_buckets_spec [OF assms(1) alloc]
  obtain m where m: "1 \<le> m" "m < 64" "capacity = 2 ^ m" "c \<le> capacity"
    using round_up_spec [OF cap] .
  have "good_capacity (unat capacity)"
    using good_capacityI [of m] m spec(1) by simp
  then show "set_ok s" "set_keys s = {}"
    using spec fresh_set_ok [of s] by (simp_all add: s set_table_def)
  show "unat initial_capacity \<le> unat (set_capacity s)"
    using m(4) by (simp add: s c_def word_le_nat_alt split: if_splits)
qed

lemma grow_spec:
  assumes "bc_core_ok env" and "set_ok s"
  shows "\<exists>room s' w'. bc_io_file_inode_set_grow env s w = Some ((room, s'), w') \<and>
    set_ok s' \<and> set_keys s' = set_keys s \<and> used (set_table s') = used (set_table s) \<and>
    (room \<longrightarrow> unat (set_capacity s') = 2 * unat (set_capacity s)) \<and> (\<not> room \<longrightarrow> s' = s) \<and>
    (room \<longleftrightarrow> \<not> growth_refused env s (trace w))"
proof (cases "bc_io_file_inode_set_allocate_buckets env (set_memory_context s) (set_capacity s * 2) w")
  case (Pair r w1)
  define N where "N = unat (set_capacity s)"
  have ok: "good_capacity N" "length (set_entries s) = N" "length (set_occupied s) = N"
      "table_ok (home_slot N) (set_table s)" "4 * used (set_table s) \<le> 3 * N" "unat (set_size s) = used (set_table s)"
    using assms(2) by (simp_all add: set_ok_def N_def)
  have double: "unat (set_capacity s * 2) = 2 * N"
    using good_capacity_bounds(2) [OF ok(1)] by (simp add: unat_word_ariths N_def)
  have refused: "r = None \<longleftrightarrow> growth_refused env s (trace w)"
    unfolding allocate_buckets_fails [OF assms(1) Pair] double growth_refused_def N_def by (simp add: mult.commute)
  show ?thesis
  proof (cases r)
    case None
    then show ?thesis using Pair refused assms(2) by (auto simp: bc_io_file_inode_set_grow_def Let_def)
  next
    case (Some b)
    obtain block entries occupied where b: "b = (block, entries, occupied)" by (cases b)
    note spec = allocate_buckets_spec [OF assms(1) Pair [unfolded Some b], unfolded double]
    obtain m where "1 \<le> m" "N = 2 ^ m" using ok(1) by (auto simp: good_capacity_def)
    then have good: "good_capacity (2 * N)"
      using good_capacityI [of "Suc m"] spec(1) by simp
    have len: "length (set_table s) = N" using ok by (simp add: set_table_def table_of_simps)
    have "used (set_table s) < 2 * N" using ok(5) good_capacity_bounds(1) [OF ok(1)] by simp
    then obtain entries' occupied' where
      loop: "grow_loop s (of_nat (2 * N)) [0..<N] (entries, occupied) = Some (entries', occupied')"
      and new: "length entries' = 2 * N" "length occupied' = 2 * N"
        "table_ok (home_slot (2 * N)) (table_of entries' occupied')"
        "keys_of (table_of entries' occupied') = keys_of (set_table s)"
        "used (table_of entries' occupied') = used (set_table s)"
      using grow_loop_spec [OF ok(4,2,3) good, of "[0..<N]" entries occupied] spec
        inode_probing.empty_ok [OF good] keys_at_all [of "set_table s"] used_at_all [of "set_table s"] len
      by (auto simp: atLeast0LessThan)
    have cap: "of_nat (2 * N) = set_capacity s * 2"
      by (simp add: N_def mult.commute)
    show ?thesis
      using Pair refused Some b loop [unfolded cap] new good double ok(5,6)
      by (auto simp: bc_io_file_inode_set_grow_def Let_def N_def [symmetric] set_ok_def set_keys_def set_table_def)
  qed
qed

lemma load_factor:
  assumes "set_ok s"
  shows "(set_size s + 1) * 4 > set_capacity s * 3 \<longleftrightarrow>
    4 * Suc (used (set_table s)) > 3 * unat (set_capacity s)"
proof -
  have cap: "unat (set_capacity s) \<le> 2 ^ 59" and size: "unat (set_size s) = used (set_table s)"
    and load: "4 * used (set_table s) \<le> 3 * unat (set_capacity s)"
    using assms good_capacity_bounds by (auto simp: set_ok_def)
  have "unat (set_size s + 1) = Suc (unat (set_size s))"
    using cap size load by (simp add: unat_word_ariths)
  then have "unat ((set_size s + 1) * 4) = 4 * Suc (used (set_table s))"
    using cap size load by (simp add: unat_word_ariths)
  moreover have "unat (set_capacity s * 3) = 3 * unat (set_capacity s)"
    using cap by (simp add: unat_word_ariths)
  ultimately show ?thesis by (simp add: word_less_nat_alt)
qed

lemma search_set:
  assumes "set_ok s"
  obtains slot where "unat slot < unat (set_capacity s)"
    and "probe_key (set_entries s) (set_occupied s) (set_capacity s - 1) d n
      (bc_io_file_inode_set_hash d n (set_capacity s)) = Some ((d, n) \<in> set_keys s, slot)"
    and "(d, n) \<notin> set_keys s \<Longrightarrow> set_table s ! unat slot = None \<and>
      table_ok (home_slot (unat (set_capacity s))) ((set_table s)[unat slot := Some (d, n)])"
proof -
  have ok: "length (set_entries s) = unat (set_capacity s)" "length (set_occupied s) = unat (set_capacity s)"
    "good_capacity (unat (set_capacity s))"
    "table_ok (home_slot (unat (set_capacity s))) (table_of (set_entries s) (set_occupied s))"
    and load: "4 * used (set_table s) \<le> 3 * unat (set_capacity s)"
    using assms by (simp_all add: set_ok_def set_table_def)
  have "used (table_of (set_entries s) (set_occupied s)) < unat (set_capacity s)"
    using load good_capacity_bounds(1) [OF ok(3)] by (simp add: set_table_def)
  then show ?thesis
    by (rule search_spec [OF ok, of d n]) (rule that, auto simp: set_keys_def set_table_def)
qed

lemma contains_spec: "set_ok s \<Longrightarrow> bc_io_file_inode_set_contains s d n = Some ((d, n) \<in> set_keys s)"
  by (erule search_set [of s d n]) (simp add: bc_io_file_inode_set_contains_def)

text \<open>Storing a new key where the search stopped.\<close>

lemma store_spec:
  assumes ok: "set_ok s" and room: "4 * Suc (used (set_table s)) \<le> 3 * unat (set_capacity s)"
    and slot: "unat slot < unat (set_capacity s)" "set_table s ! unat slot = None"
      "table_ok (home_slot (unat (set_capacity s))) ((set_table s)[unat slot := Some (d, n)])"
  defines "s' \<equiv> s\<lparr>set_entries := (set_entries s)[unat slot := \<lparr>entry_device = d, entry_inode = n\<rparr>],
      set_occupied := (set_occupied s)[unat slot := 1], set_size := set_size s + 1\<rparr>"
  shows "set_ok s'" and "set_keys s' = insert (d, n) (set_keys s)"
proof -
  have lens: "length (set_entries s) = unat (set_capacity s)" "length (set_occupied s) = unat (set_capacity s)"
    and good: "good_capacity (unat (set_capacity s))" and size: "unat (set_size s) = used (set_table s)"
    using ok by (simp_all add: set_ok_def)
  have len: "length (set_table s) = unat (set_capacity s)"
    using lens by (simp add: set_table_def table_of_simps)
  have tab: "set_table s' = (set_table s)[unat slot := Some (d, n)]"
    using table_of_store [OF lens slot(1)] by (simp add: s'_def set_table_def)
  have "unat (set_size s + 1) = Suc (unat (set_size s))"
    using room size good_capacity_bounds(2) [OF good] by (simp add: unat_word_ariths)
  then show "set_ok s'"
    unfolding set_ok_def tab using lens good slot size room len
    by (simp add: s'_def used_update)
  show "set_keys s' = insert (d, n) (set_keys s)"
    using slot len by (simp add: set_keys_def tab keys_of_update)
qed

lemma card_set_keys: "set_ok s \<Longrightarrow> card (set_keys s) = used (set_table s)"
  using card_keys_of [of "home_slot (unat (set_capacity s))" "set_table s"] by (simp add: set_ok_def set_keys_def)

lemma set_full_iff: "set_ok s \<Longrightarrow> set_full s \<longleftrightarrow> (set_size s + 1) * 4 > set_capacity s * 3"
  unfolding set_full_def by (simp only: load_factor card_set_keys)

text \<open>The first part of \<^verbatim>\<open>insert\<close>: room for one more key.\<close>

lemma make_room_spec:
  assumes "bc_core_ok env" and "set_ok s"
  obtains room s1 w1 where "(if (set_size s + 1) * 4 > set_capacity s * 3
      then bc_io_file_inode_set_grow env s w else Some ((True, s), w)) = Some ((room, s1), w1)"
    and "set_ok s1" and "set_keys s1 = set_keys s" and "\<not> room \<longrightarrow> s1 = s"
    and "room \<longrightarrow> 4 * Suc (used (set_table s1)) \<le> 3 * unat (set_capacity s1)"
    and "room \<longleftrightarrow> \<not> (set_full s \<and> growth_refused env s (trace w))"
    and "room \<longrightarrow> unat (set_capacity s1) = (if set_full s then 2 else 1) * unat (set_capacity s)"
proof (cases "(set_size s + 1) * 4 > set_capacity s * 3")
  case True
  obtain room s1 w1 where grow: "bc_io_file_inode_set_grow env s w = Some ((room, s1), w1)"
    "set_ok s1" "set_keys s1 = set_keys s" "used (set_table s1) = used (set_table s)"
    "room \<longrightarrow> unat (set_capacity s1) = 2 * unat (set_capacity s)" "\<not> room \<longrightarrow> s1 = s"
    "room \<longleftrightarrow> \<not> growth_refused env s (trace w)"
    using grow_spec [OF assms, of w] by blast
  moreover have "2 \<le> unat (set_capacity s)" "4 * used (set_table s) \<le> 3 * unat (set_capacity s)"
    using assms(2) good_capacity_bounds(1) by (auto simp: set_ok_def)
  ultimately show ?thesis using True set_full_iff [OF assms(2)] that [of room s1 w1] by auto
next
  case False
  then show ?thesis using assms(2) load_factor [OF assms(2)] set_full_iff [OF assms(2)] that [of True s w] by auto
qed

lemma insert_spec:
  assumes "bc_core_ok env" and "set_ok s"
  shows "\<exists>r s' w'. bc_io_file_inode_set_insert env s d n w = Some ((r, s'), w') \<and> set_ok s' \<and>
    (r = None \<longleftrightarrow> set_full s \<and> growth_refused env s (trace w)) \<and>
    (case r of None \<Rightarrow> s' = s
     | Some present \<Rightarrow> present = ((d, n) \<in> set_keys s) \<and> set_keys s' = insert (d, n) (set_keys s) \<and>
         unat (set_capacity s') = (if set_full s then 2 else 1) * unat (set_capacity s))"
proof -
  obtain room s1 w1 where pre: "(if (set_size s + 1) * 4 > set_capacity s * 3
      then bc_io_file_inode_set_grow env s w else Some ((True, s), w)) = Some ((room, s1), w1)"
    and s1: "set_ok s1" "set_keys s1 = set_keys s" "\<not> room \<longrightarrow> s1 = s"
      "room \<longrightarrow> 4 * Suc (used (set_table s1)) \<le> 3 * unat (set_capacity s1)"
    and room: "room \<longleftrightarrow> \<not> (set_full s \<and> growth_refused env s (trace w))"
      "room \<longrightarrow> unat (set_capacity s1) = (if set_full s then 2 else 1) * unat (set_capacity s)"
    by (rule make_room_spec [OF assms])
  obtain slot where slot: "unat slot < unat (set_capacity s1)"
    "probe_key (set_entries s1) (set_occupied s1) (set_capacity s1 - 1) d n
      (bc_io_file_inode_set_hash d n (set_capacity s1)) = Some ((d, n) \<in> set_keys s1, slot)"
    "(d, n) \<notin> set_keys s1 \<Longrightarrow> set_table s1 ! unat slot = None \<and>
      table_ok (home_slot (unat (set_capacity s1))) ((set_table s1)[unat slot := Some (d, n)])"
    using search_set [OF s1(1), of d n] by blast
  show ?thesis
  proof (cases room)
    case False
    then show ?thesis using pre s1 room by (simp add: bc_io_file_inode_set_insert_def)
  next
    case True
    then show ?thesis
      using pre s1 slot(2) store_spec [OF s1(1) _ slot(1), of d n] slot(3) room
      by (auto simp: bc_io_file_inode_set_insert_def insert_absorb)
  qed
qed

lemma clear_spec:
  assumes "bc_core_ok env" and "set_ok s"
  shows "set_ok (bc_io_file_inode_set_clear env s)" and "set_keys (bc_io_file_inode_set_clear env s) = {}"
proof -
  let ?s = "bc_io_file_inode_set_clear env s"
  have "set_table ?s = replicate (unat (set_capacity s)) None"
    using assms(2) by (simp add: bc_io_file_inode_set_clear_def bc_core_okD [OF assms(1)] set_table_def
        set_ok_def zeroed_table)
  then show "set_ok ?s" "set_keys ?s = {}"
    using fresh_set_ok [of ?s] assms(2)
    by (simp_all add: bc_io_file_inode_set_clear_def bc_core_okD [OF assms(1)] set_ok_def)
qed

lemma size_spec: "set_ok s \<Longrightarrow> unat (bc_io_file_inode_set_get_size s) = card (set_keys s)"
  using card_set_keys [of s] by (simp add: bc_io_file_inode_set_get_size_def set_ok_def)

section \<open>Blocks\<close>

text \<open>The set at address \<open>p\<close> holds its own block and the one of its arrays; growing exchanges the latter.\<close>

definition set_holds :: "addr \<Rightarrow> bc_io_file_inode_set \<Rightarrow> resource \<Rightarrow> int" where
  "set_holds p s r = of_bool (r = Block p) + of_bool (r = Block (set_block s))"

lemma allocate_buckets_balance:
  assumes "bc_io_file_inode_set_allocate_buckets env ctx capacity w = (res, w')"
  shows "balance (trace w') r = balance (trace w) r + (case res of None \<Rightarrow> 0 | Some (block, _) \<Rightarrow> of_bool (r = Block block))"
  using assms by (auto simp: bc_io_file_inode_set_allocate_buckets_def pool_allocate_def answer_def Let_def
      split: option.splits sum.splits)

lemma create_balance:
  assumes "bc_io_file_inode_set_create env ctx capacity w = Some (res, w')"
  shows "balance (trace w') r = balance (trace w) r + (case res of None \<Rightarrow> 0 | Some (p, s) \<Rightarrow> set_holds p s r)"
proof -
  obtain cap where cap: "bc_io_file_inode_set_round_up_to_power_of_two
      (if capacity = 0 then BC_IO_INODE_SET_DEFAULT_CAPACITY else capacity) = Some cap"
    using assms unfolding bc_io_file_inode_set_create_def bind_eq_Some_conv by blast
  obtain p w1 where p: "pool_allocate env ctx sizeof_inode_set w = (p, w1)" by fastforce
  obtain bl w2 where bl: "bc_io_file_inode_set_allocate_buckets env ctx cap w1 = (bl, w2)" by fastforce
  have "balance (trace w1) r = balance (trace w) r + (case p of Inl _ \<Rightarrow> 0 | Inr p \<Rightarrow> of_bool (r = Block p))"
    using p by (auto simp: pool_allocate_def answer_def split: sum.splits)
  then show ?thesis
    using assms allocate_buckets_balance [OF bl, of r] unfolding bc_io_file_inode_set_create_def cap bind.bind_lunit p prod.case
    by (cases p; cases bl) (auto simp: bl pool_free_def set_holds_def)
qed

lemma grow_balance:
  assumes "bc_io_file_inode_set_grow env s w = Some ((room, s'), w')"
  shows "balance (trace w') r = balance (trace w) r + (set_holds p s' r - set_holds p s r)"
proof -
  obtain bl w1 where bl: "bc_io_file_inode_set_allocate_buckets env (set_memory_context s) (set_capacity s * 2) w = (bl, w1)" by fastforce
  show ?thesis
    using assms allocate_buckets_balance [OF bl, of r] unfolding bc_io_file_inode_set_grow_def Let_def bl prod.case
    by (cases bl) (auto simp: bind_eq_Some_conv pool_free_def set_holds_def)
qed

lemma insert_balance:
  assumes "bc_io_file_inode_set_insert env s d n w = Some ((res, s'), w')"
  shows "balance (trace w') r = balance (trace w) r + (set_holds p s' r - set_holds p s r)"
proof -
  obtain room s1 w1 where pre: "(if (set_size s + 1) * 4 > set_capacity s * 3
      then bc_io_file_inode_set_grow env s w else Some ((True, s), w)) = Some ((room, s1), w1)"
    using assms by (auto simp: bc_io_file_inode_set_insert_def bind_eq_Some_conv)
  then have "balance (trace w1) r = balance (trace w) r + (set_holds p s1 r - set_holds p s r)"
    by (auto split: if_splits dest: grow_balance [where r = r and p = p])
  moreover have "w' = w1 \<and> set_holds p s' r = set_holds p s1 r"
    using assms pre by (auto simp: bc_io_file_inode_set_insert_def bind_eq_Some_conv set_holds_def split: if_splits)
  ultimately show ?thesis by simp
qed

lemma destroy_balance:
  "balance (trace (bc_io_file_inode_set_destroy p s w)) r = balance (trace w) r - set_holds p s r"
  by (simp add: bc_io_file_inode_set_destroy_def pool_free_def set_holds_def)

section \<open>The contract clients rely on\<close>

text \<open>
  A set of keys kept by fallible, possibly growing storage: an insertion always returns, reports
  whether the key was there, and either adds it or (on an allocation failure) changes nothing.
\<close>

locale key_set =
  fixes ok :: "'e \<Rightarrow> bool" and invar :: "'s \<Rightarrow> bool" and keys :: "'s \<Rightarrow> 'k set"
    and ins :: "'e \<Rightarrow> 's \<Rightarrow> 'k \<Rightarrow> 'w \<Rightarrow> ((bool option \<times> 's) \<times> 'w) option"
    and has :: "'s \<Rightarrow> 'k \<Rightarrow> bool option" and clr :: "'e \<Rightarrow> 's \<Rightarrow> 's" and count :: "'s \<Rightarrow> size_t"
  assumes ins_law: "ok e \<Longrightarrow> invar s \<Longrightarrow> \<exists>r s' w'. ins e s k w = Some ((r, s'), w') \<and> invar s' \<and>
      (case r of None \<Rightarrow> s' = s | Some present \<Rightarrow> present = (k \<in> keys s) \<and> keys s' = insert k (keys s))"
    and has_law: "invar s \<Longrightarrow> has s k = Some (k \<in> keys s)"
    and clr_law: "ok e \<Longrightarrow> invar s \<Longrightarrow> invar (clr e s) \<and> keys (clr e s) = {}"
    and count_law: "invar s \<Longrightarrow> unat (count s) = card (keys s)"

text \<open>A client: any calls in any order, with the answers it gets.\<close>

datatype 'k set_call = Insert 'k | Contains 'k | Get_size | Clear
datatype set_answer = Inserted "bool option" | Found bool | Counted size_t | Cleared

fun run_set_calls :: "('s \<Rightarrow> 'k \<Rightarrow> 'w \<Rightarrow> ((bool option \<times> 's) \<times> 'w) option) \<Rightarrow> ('s \<Rightarrow> 'k \<Rightarrow> bool option) \<Rightarrow> ('s \<Rightarrow> 's) \<Rightarrow> ('s \<Rightarrow> size_t) \<Rightarrow>
    's \<Rightarrow> 'k set_call list \<Rightarrow> 'w \<Rightarrow> ((set_answer list \<times> 's) \<times> 'w) option" where
  "run_set_calls i h c n s [] w = Some (([], s), w)"
| "run_set_calls i h c n s (Insert k # cs) w =
     do { ((r, s), w) \<leftarrow> i s k w; ((as, s), w) \<leftarrow> run_set_calls i h c n s cs w; Some ((Inserted r # as, s), w) }"
| "run_set_calls i h c n s (Contains k # cs) w =
     do { b \<leftarrow> h s k; ((as, s), w) \<leftarrow> run_set_calls i h c n s cs w; Some ((Found b # as, s), w) }"
| "run_set_calls i h c n s (Get_size # cs) w =
     do { ((as, s'), w) \<leftarrow> run_set_calls i h c n s cs w; Some ((Counted (n s) # as, s'), w) }"
| "run_set_calls i h c n s (Clear # cs) w =
     do { ((as, s), w) \<leftarrow> run_set_calls i h c n (c s) cs w; Some ((Cleared # as, s), w) }"

text \<open>
  What a set of keys answers: the abstract machine the implementation refines. An insertion may be refused, which changes nothing; every
  other answer is determined by the keys.
\<close>

inductive set_session :: "'k set \<Rightarrow> ('k set_call \<times> set_answer) list \<Rightarrow> 'k set \<Rightarrow> bool" where
  Done: "set_session K [] K"
| Accept: "set_session (insert k K) cs K' \<Longrightarrow> set_session K ((Insert k, Inserted (Some (k \<in> K))) # cs) K'"
| Refuse: "set_session K cs K' \<Longrightarrow> set_session K ((Insert k, Inserted None) # cs) K'"
| Look: "set_session K cs K' \<Longrightarrow> set_session K ((Contains k, Found (k \<in> K)) # cs) K'"
| Count: "unat n = card K \<Longrightarrow> set_session K cs K' \<Longrightarrow> set_session K ((Get_size, Counted n) # cs) K'"
| Empty: "set_session {} cs K' \<Longrightarrow> set_session K ((Clear, Cleared) # cs) K'"

inductive_simps set_session_Nil [simp]: "set_session K [] K'"
inductive_simps set_session_Insert [simp]: "set_session K ((Insert k, a) # cs) K'"
inductive_simps set_session_Contains [simp]: "set_session K ((Contains k, a) # cs) K'"
inductive_simps set_session_Get_size [simp]: "set_session K ((Get_size, a) # cs) K'"
inductive_simps set_session_Clear [simp]: "set_session K ((Clear, a) # cs) K'"

context key_set
begin

lemma run_set_calls_spec:
  assumes "ok e" and "invar s"
  shows "\<exists>as s' w'. run_set_calls (ins e) has (clr e) count s cs w = Some ((as, s'), w') \<and> length as = length cs \<and> invar s' \<and>
    set_session (keys s) (zip cs as) (keys s')"
  using assms(2)
proof (induction cs arbitrary: s w)
  case Nil
  then show ?case by simp
next
  case (Cons c cs)
  show ?case
  proof (cases c)
    case (Insert k)
    obtain r s1 w1 where step: "ins e s k w = Some ((r, s1), w1)" "invar s1"
      "case r of None \<Rightarrow> s1 = s | Some present \<Rightarrow> present = (k \<in> keys s) \<and> keys s1 = insert k (keys s)"
      using ins_law [OF assms(1) Cons.prems, of k w] by blast
    from Cons.IH [OF step(2), of w1] show ?thesis using step Insert by (cases r) fastforce+
  next
    case (Contains k)
    from Cons.IH [OF Cons.prems, of w] show ?thesis using has_law [OF Cons.prems, of k] Contains by fastforce
  next
    case Get_size
    from Cons.IH [OF Cons.prems, of w] show ?thesis using count_law [OF Cons.prems] Get_size by fastforce
  next
    case Clear
    note c = clr_law [OF assms(1) Cons.prems]
    from Cons.IH [of "clr e s" w] c show ?thesis using Clear by fastforce
  qed
qed

end

definition insert_pair where
  "insert_pair env s k w = bc_io_file_inode_set_insert env s (fst k) (snd k) w"

definition contains_pair where
  "contains_pair s k = bc_io_file_inode_set_contains s (fst k) (snd k)"

interpretation inode_set: key_set bc_core_ok set_ok set_keys insert_pair contains_pair
  bc_io_file_inode_set_clear bc_io_file_inode_set_get_size
proof unfold_locales
  fix e s and k :: "u64 \<times> u64" and w :: "'a io_world_scheme"
  assume "bc_core_ok e" and "set_ok s"
  then show "\<exists>r s' w'. insert_pair e s k w = Some ((r, s'), w') \<and> set_ok s' \<and>
      (case r of None \<Rightarrow> s' = s
       | Some present \<Rightarrow> present = (k \<in> set_keys s) \<and> set_keys s' = insert k (set_keys s))"
    using insert_spec [of e s "fst k" "snd k" w, unfolded prod.collapse] by (fastforce simp: insert_pair_def split: option.splits)
qed (simp_all add: contains_pair_def contains_spec clear_spec size_spec)

lemma run_set_calls_balance:
  assumes "run_set_calls (insert_pair env) contains_pair (bc_io_file_inode_set_clear env) bc_io_file_inode_set_get_size s cs w = Some ((as, s'), w')"
  shows "balance (trace w') r = balance (trace w) r + (set_holds p s' r - set_holds p s r)"
  using assms
proof (induction cs arbitrary: s w as)
  case (Cons c cs)
  show ?case
  proof (cases c)
    case (Insert k)
    then obtain res s1 w1 as1 where "insert_pair env s k w = Some ((res, s1), w1)"
      "run_set_calls (insert_pair env) contains_pair (bc_io_file_inode_set_clear env) bc_io_file_inode_set_get_size s1 cs w1 = Some ((as1, s'), w')"
      using Cons.prems by (auto simp: bind_eq_Some_conv)
    then show ?thesis using Cons.IH insert_balance [of env s "fst k" "snd k" w res s1 w1 r p, folded insert_pair_def] by simp
  next
    case Clear
    have "set_holds p (bc_io_file_inode_set_clear env s) r = set_holds p s r" by (simp add: bc_io_file_inode_set_clear_def set_holds_def)
    then show ?thesis using Clear Cons.prems Cons.IH by (fastforce simp: bind_eq_Some_conv)
  qed (use Cons in \<open>fastforce simp: bind_eq_Some_conv\<close>)+
qed simp

text \<open>The empty set with two slots, for concrete runs.\<close>

definition two_slots :: bc_io_file_inode_set where
  "two_slots = \<lparr>set_memory_context = 16, set_block = 64,
     set_entries = [\<lparr>entry_device = 0, entry_inode = 0\<rparr>, \<lparr>entry_device = 0, entry_inode = 0\<rparr>],
     set_occupied = [0, 0], set_capacity = 2, set_size = 0\<rparr>"

lemma two_slots_ok: "set_ok two_slots" "set_keys two_slots = {}"
proof -
  have "good_capacity (2 ^ 1)" by (rule good_capacityI) simp_all
  moreover have "set_table two_slots = replicate 2 None"
    by (simp add: two_slots_def set_table_def table_of_def numeral_2_eq_2)
  ultimately show "set_ok two_slots" "set_keys two_slots = {}"
    using fresh_set_ok [of two_slots] by (simp_all add: two_slots_def)
qed

lemma calm_create: "\<exists>p s w. bc_io_file_inode_set_create calm_env 16 1 initial_world = Some (Some (p, s), w)"
proof -
  have "core_safe_multiply calm_env 2 sizeof_inode_set_entry = Some 32" "core_safe_add calm_env 32 2 = Some 34"
    by (simp_all add: calm_env_def sizeof_inode_set_entry_def)
  then show ?thesis
    by (simp add: bc_io_file_inode_set_create_def bc_io_file_inode_set_round_up_to_power_of_two_def bc_io_file_inode_set_allocate_buckets_def
        pool_allocate_def answer_def Let_def)
qed

section \<open>Properties\<close>

text \<open>
  C27. Creation returns for every requested capacity up to \<open>2 ^ 63\<close>. A created inode set is well formed and empty, its capacity is a power of
  two not below the requested one, and it holds its own block and the one of its arrays; a failed creation leaves nothing behind.
\<close>

theorem inode_set_create_correct:
  assumes "bc_core_ok env" and "initial_capacity \<le> 2 ^ 63"
  shows "\<exists>out w'. bc_io_file_inode_set_create env ctx initial_capacity w = Some (out, w') \<and>
    (case out of None \<Rightarrow> \<forall>r. balance (trace w') r = balance (trace w) r
     | Some (p, s) \<Rightarrow> set_ok s \<and> set_keys s = {} \<and> unat initial_capacity \<le> unat (set_capacity s) \<and>
         (\<forall>r. balance (trace w') r = balance (trace w) r + set_holds p s r))"
proof -
  define c where "c = (if initial_capacity = 0 then BC_IO_INODE_SET_DEFAULT_CAPACITY else initial_capacity)"
  have "c \<le> 2 ^ 63"
    using assms(2) by (simp add: c_def BC_IO_INODE_SET_DEFAULT_CAPACITY_def word_le_nat_alt)
  then obtain capacity where "bc_io_file_inode_set_round_up_to_power_of_two c = Some capacity"
    using round_up_total [of c] by (cases "c < 2")
      (auto simp: bc_io_file_inode_set_round_up_to_power_of_two_def not_less)
  then obtain out w' where ret: "bc_io_file_inode_set_create env ctx initial_capacity w = Some (out, w')"
    unfolding bc_io_file_inode_set_create_def c_def [symmetric] by fastforce
  with create_spec [OF assms(1), of ctx initial_capacity w] create_balance [OF ret] show ?thesis
    by (cases out) auto
qed

theorem inode_set_create_correct_witness:
  "\<exists>out w'. bc_io_file_inode_set_create calm_env 16 5 initial_world = Some (out, w') \<and>
    (case out of None \<Rightarrow> \<forall>r. balance (trace w') r = balance (trace initial_world) r
     | Some (p, s) \<Rightarrow> set_ok s \<and> set_keys s = {} \<and> unat (5 :: size_t) \<le> unat (set_capacity s) \<and>
         (\<forall>r. balance (trace w') r = balance (trace initial_world) r + set_holds p s r))"
  by (rule inode_set_create_correct) (simp_all add: calm_env_ok)

text \<open>
  C28. Creation with a requested capacity above \<open>2 ^ 63\<close> never returns: the rounding loop shifts its
  only bit out and then compares zero for ever.
\<close>

theorem inode_set_create_diverges:
  assumes "2 ^ 63 < initial_capacity"
  shows "bc_io_file_inode_set_create env ctx initial_capacity w = None"
proof -
  have "initial_capacity \<noteq> 0" using assms by auto
  then show ?thesis
    using round_up_diverges [OF assms] by (simp add: bc_io_file_inode_set_create_def)
qed

theorem inode_set_create_diverges_witness:
  "bc_io_file_inode_set_create calm_env 16 (2 ^ 63 + 1) initial_world = None"
  by (rule inode_set_create_diverges) simp

text \<open>
  C26. Insertion into a well-formed set always returns and keeps it well formed. It fails exactly when one more key would
  use over three quarters of the table and the table cannot grow, because arrays of twice the capacity do not fit the address
  space or the pool refuses them; a failure leaves the set exactly as it was and holds no block more. In every other case it succeeds: it reports
  whether the pair was already present and yields the set with the pair added, in a table of twice the capacity when three
  quarters would have been exceeded and of the same capacity otherwise.
\<close>

theorem inode_set_insert_correct:
  assumes "bc_core_ok env" and "set_ok s"
  shows "\<exists>r s' w'. bc_io_file_inode_set_insert env s device inode w = Some ((r, s'), w') \<and> set_ok s' \<and>
    (r = None \<longleftrightarrow> set_full s \<and> growth_refused env s (trace w)) \<and>
    (case r of None \<Rightarrow> s' = s \<and> (\<forall>x. balance (trace w') x = balance (trace w) x)
     | Some present \<Rightarrow> present = ((device, inode) \<in> set_keys s) \<and>
         set_keys s' = insert (device, inode) (set_keys s) \<and>
         unat (bc_io_file_inode_set_get_size s') = card (insert (device, inode) (set_keys s)) \<and>
         unat (set_capacity s') = (if set_full s then 2 else 1) * unat (set_capacity s))"
proof -
  obtain r s' w' where i: "bc_io_file_inode_set_insert env s device inode w = Some ((r, s'), w')" "set_ok s'"
    "r = None \<longleftrightarrow> set_full s \<and> growth_refused env s (trace w)"
    "case r of None \<Rightarrow> s' = s
     | Some present \<Rightarrow> present = ((device, inode) \<in> set_keys s) \<and> set_keys s' = insert (device, inode) (set_keys s) \<and>
         unat (set_capacity s') = (if set_full s then 2 else 1) * unat (set_capacity s)"
    using insert_spec [OF assms, of device inode w] by blast
  have "balance (trace w') x = balance (trace w) x" if "s' = s" for x using insert_balance [OF i(1), of x] that by simp
  then show ?thesis using i size_spec [OF i(2)] by (cases r) auto
qed

text \<open>Two insertions: the first fits the two slots, the second needs four.\<close>

theorem inode_set_insert_correct_witness:
  "\<exists>s1 w1 s2 w2. bc_io_file_inode_set_insert calm_env two_slots 5 9 initial_world = Some ((Some False, s1), w1) \<and>
    bc_io_file_inode_set_insert calm_env s1 5 7 w1 = Some ((Some False, s2), w2) \<and> set_keys s2 = {(5, 7), (5, 9)} \<and>
    unat (set_capacity s1) = 2 \<and> set_full s1 \<and> unat (set_capacity s2) = 4"
proof -
  have g: "\<not> growth_refused calm_env s h" if "unat (set_capacity s) = 2" for s h using that by (simp add: growth_refused_def)
  have c: "unat (set_capacity two_slots) = 2" and f: "\<not> set_full two_slots" by (simp_all add: set_full_def two_slots_ok(2)) (simp_all add: two_slots_def)
  obtain s1 w1 where s1: "bc_io_file_inode_set_insert calm_env two_slots 5 9 initial_world = Some ((Some False, s1), w1)" "set_ok s1"
    "set_keys s1 = {(5, 9)}" "unat (set_capacity s1) = 2"
    using inode_set_insert_correct [OF calm_env_ok(1) two_slots_ok(1), of 5 9 initial_world] f c
    by (auto simp: two_slots_ok(2) split: option.splits)
  then have full: "set_full s1" by (simp add: set_full_def)
  then obtain s2 w2 where "bc_io_file_inode_set_insert calm_env s1 5 7 w1 = Some ((Some False, s2), w2)"
    "set_keys s2 = {(5, 7), (5, 9)}" "unat (set_capacity s2) = 4"
    using inode_set_insert_correct [OF calm_env_ok(1) s1(2), of 5 7 w1] g [OF s1(4)] s1(3,4) by (auto split: option.splits)
  with s1 full show ?thesis by blast
qed

text \<open>
  C6. A whole use of an inode set: creation, any sequence of insertions, membership tests, size queries and clearings, destruction. Every call returns, and
  the answers are those of a mathematical set that starts empty, across collisions and growth of the table: an insertion
  reports whether the pair was there, or is refused and changes nothing. At the end every block is given back.
\<close>

theorem inode_set_implements_set:
  assumes "bc_core_ok env" and "bc_io_file_inode_set_create env ctx initial_capacity w = Some (Some (p, s), w1)"
  shows "\<exists>as s' w2. run_set_calls (insert_pair env) contains_pair (bc_io_file_inode_set_clear env) bc_io_file_inode_set_get_size s cs w1 =
      Some ((as, s'), w2) \<and> length as = length cs \<and> set_ok s' \<and> set_session {} (zip cs as) (set_keys s') \<and>
    (\<forall>r. balance (trace (bc_io_file_inode_set_destroy p s' w2)) r = balance (trace w) r)"
proof -
  have s: "set_ok s" "set_keys s = {}" using create_spec [OF assms] by simp_all
  from inode_set.run_set_calls_spec [OF assms(1) s(1), of cs w1] obtain as s' w2 where
    run: "run_set_calls (insert_pair env) contains_pair (bc_io_file_inode_set_clear env) bc_io_file_inode_set_get_size s cs w1 = Some ((as, s'), w2)"
      "length as = length cs" "set_ok s'" "set_session {} (zip cs as) (set_keys s')" using s(2) by auto
  have "balance (trace (bc_io_file_inode_set_destroy p s' w2)) r = balance (trace w) r" for r
    using run_set_calls_balance [OF run(1), where p = p and r = r] create_balance [OF assms(2), of r] by (simp add: destroy_balance)
  then show ?thesis using run by blast
qed

theorem inode_set_implements_set_witness:
  "\<exists>p s w1 as s' w2. bc_io_file_inode_set_create calm_env 16 1 initial_world = Some (Some (p, s), w1) \<and>
    run_set_calls (insert_pair calm_env) contains_pair (bc_io_file_inode_set_clear calm_env) bc_io_file_inode_set_get_size s
      [Insert (5, 9), Insert (5, 9), Contains (5, 7), Get_size, Clear, Contains (5, 9)] w1 = Some ((as, s'), w2) \<and>
    length as = length [Insert (5, 9), Insert (5, 9), Contains (5, 7), Get_size, Clear, Contains (5 :: u64, 9 :: u64)] \<and> set_ok s' \<and>
    set_session {} (zip [Insert (5, 9), Insert (5, 9), Contains (5, 7), Get_size, Clear, Contains (5, 9)] as) (set_keys s') \<and>
    (\<forall>r. balance (trace (bc_io_file_inode_set_destroy p s' w2)) r = balance (trace initial_world) r)"
proof -
  obtain p s w1 where c: "bc_io_file_inode_set_create calm_env 16 1 initial_world = Some (Some (p, s), w1)"
    using calm_create by blast
  from inode_set_implements_set [OF calm_env_ok(1) c, of "[Insert (5, 9), Insert (5, 9), Contains (5, 7), Get_size, Clear, Contains (5, 9)]"] c
  show ?thesis by blast
qed

end
