(* ===== verification/IO_Stream_Io.thy ===== *)
theory IO_Stream_Io
  imports IO_Env
begin

text \<open>
  \<^verbatim>\<open>src/stream/bc_io_stream_io.c\<close>: the system-call layer of the streams. \<^verbatim>\<open>read_full\<close> and \<^verbatim>\<open>write_full\<close>
  retry interrupted and short transfers until the request is complete, the end of file, or an
  error; the model returns \<open>None\<close> only when they never return. The theory also declares the
  enumerations of \<^verbatim>\<open>bc_io_stream.h\<close>.
\<close>

section \<open>Model\<close>

datatype bc_io_stream_source_type =
    BC_IO_STREAM_SOURCE_FILE
  | BC_IO_STREAM_SOURCE_SOCKET
  | BC_IO_STREAM_SOURCE_MEMORY
  | BC_IO_STREAM_SOURCE_PIPE

datatype bc_io_stream_mode = BC_IO_STREAM_MODE_READ | BC_IO_STREAM_MODE_WRITE

datatype bc_io_stream_access_hint =
    BC_IO_STREAM_ACCESS_SEQUENTIAL
  | BC_IO_STREAM_ACCESS_RANDOM
  | BC_IO_STREAM_ACCESS_DROP

definition POSIX_FADV_NORMAL :: u32 where "POSIX_FADV_NORMAL = 0"
definition POSIX_FADV_RANDOM :: u32 where "POSIX_FADV_RANDOM = 1"
definition POSIX_FADV_SEQUENTIAL :: u32 where "POSIX_FADV_SEQUENTIAL = 2"
definition POSIX_FADV_WILLNEED :: u32 where "POSIX_FADV_WILLNEED = 3"
definition POSIX_FADV_DONTNEED :: u32 where "POSIX_FADV_DONTNEED = 4"

definition BC_IO_STREAM_DEFAULT_FILE_BUFFER_SIZE :: size_t where
  "BC_IO_STREAM_DEFAULT_FILE_BUFFER_SIZE = 131072"
definition BC_IO_STREAM_DEFAULT_SOCKET_BUFFER_SIZE :: size_t where
  "BC_IO_STREAM_DEFAULT_SOCKET_BUFFER_SIZE = 32768"
definition BC_IO_STREAM_DEFAULT_PIPE_BUFFER_SIZE :: size_t where
  "BC_IO_STREAM_DEFAULT_PIPE_BUFFER_SIZE = 65536"
definition BC_IO_STREAM_DEFAULT_MEMORY_CHUNK_SIZE :: size_t where
  "BC_IO_STREAM_DEFAULT_MEMORY_CHUNK_SIZE = 131072"
definition BC_IO_STREAM_BUFFER_ALIGNMENT :: size_t where
  "BC_IO_STREAM_BUFFER_ALIGNMENT = 64"

text \<open>
  One round of the loop of \<^verbatim>\<open>bc_io_stream_io_read_full\<close>. The state is the buffer and \<^verbatim>\<open>total_read\<close>;
  the result is the returned flag, \<^verbatim>\<open>*out_bytes_read\<close>, \<^verbatim>\<open>*out_eof\<close> and the buffer.
\<close>

definition read_full_body :: "io_env \<Rightarrow> int \<Rightarrow> size_t \<Rightarrow> bytes \<times> size_t \<times> 'w io_world_scheme \<Rightarrow>
    bytes \<times> size_t \<times> 'w io_world_scheme + (bool \<times> size_t \<times> bool \<times> bytes) \<times> 'w io_world_scheme" where
  "read_full_body env fd requested_size = (\<lambda>(buffer, total_read, w).
     if total_read < requested_size then
       (case sys_read env fd (requested_size - total_read) w of
          (Inr bs, w) \<Rightarrow>
            if bs \<noteq> []
            then Inl (overwrite (unat total_read) bs buffer, total_read + of_nat (length bs), w)
            else Inr ((True, total_read, True, buffer), w)
        | (Inl _, w) \<Rightarrow>
            if errno w = EINTR then Inl (buffer, total_read, w)
            else if errno w = EAGAIN then Inr ((True, total_read, False, buffer), w)
            else Inr ((False, total_read, False, buffer), w))
     else Inr ((True, total_read, False, buffer), w))"

definition bc_io_stream_io_read_full :: "io_env \<Rightarrow> int \<Rightarrow> bytes \<Rightarrow> size_t \<Rightarrow> 'w io_world_scheme \<Rightarrow>
    ((bool \<times> size_t \<times> bool \<times> bytes) \<times> 'w io_world_scheme) option" where
  "bc_io_stream_io_read_full env fd buffer requested_size w =
     iterate (read_full_body env fd requested_size) (buffer, 0, w)"

text \<open>
  One round of the loop of \<^verbatim>\<open>bc_io_stream_io_write_full\<close>: the state is \<^verbatim>\<open>total_written\<close>, the result the
  returned flag and \<^verbatim>\<open>*out_bytes_written\<close>.
\<close>

definition write_full_body :: "io_env \<Rightarrow> int \<Rightarrow> bytes \<Rightarrow> size_t \<Rightarrow> size_t \<times> 'w io_world_scheme \<Rightarrow>
    size_t \<times> 'w io_world_scheme + (bool \<times> size_t) \<times> 'w io_world_scheme" where
  "write_full_body env fd data sz = (\<lambda>(total_written, w).
     if total_written < sz then
       (case sys_write env fd (drop (unat total_written) (take (unat sz) data)) w of
          (Inr k, w) \<Rightarrow> Inl (total_written + of_nat k, w)
        | (Inl _, w) \<Rightarrow>
            if errno w = EINTR then Inl (total_written, w)
            else if errno w = EAGAIN then Inr ((True, total_written), w)
            else Inr ((False, total_written), w))
     else Inr ((True, total_written), w))"

definition bc_io_stream_io_write_full :: "io_env \<Rightarrow> int \<Rightarrow> bytes \<Rightarrow> size_t \<Rightarrow> 'w io_world_scheme \<Rightarrow>
    ((bool \<times> size_t) \<times> 'w io_world_scheme) option" where
  "bc_io_stream_io_write_full env fd data sz w = iterate (write_full_body env fd data sz) (0, w)"

text \<open>\<open>0x1A4\<close> is the creation mode \<^verbatim>\<open>0644\<close>.\<close>

definition bc_io_stream_io_open_file :: "io_env \<Rightarrow> bytes \<Rightarrow> bc_io_stream_mode \<Rightarrow> 'w io_world_scheme \<Rightarrow>
    int option \<times> 'w io_world_scheme" where
  "bc_io_stream_io_open_file env path mode w =
     (let flags = (if mode = BC_IO_STREAM_MODE_READ then O_RDONLY OR O_CLOEXEC OR O_NOFOLLOW
                   else O_WRONLY OR O_CREAT OR O_TRUNC OR O_CLOEXEC OR O_NOFOLLOW);
          (file_descriptor, w) = sys_open env path flags 0x1A4 w
      in if file_descriptor < 0 then (None, w) else (Some file_descriptor, w))"

definition bc_io_stream_io_get_file_size :: "io_env \<Rightarrow> int \<Rightarrow> 'w io_world_scheme \<Rightarrow>
    size_t option \<times> 'w io_world_scheme" where
  "bc_io_stream_io_get_file_size env fd w =
     (case sys_fstat env fd w of
        (Inl _, w) \<Rightarrow> (None, w)
      | (Inr file_stat, w) \<Rightarrow> if \<not> S_ISREG (st_mode file_stat) then (None, w) else (Some (st_size file_stat), w))"

definition bc_io_stream_io_advise_sequential :: "io_env \<Rightarrow> int \<Rightarrow> 'w io_world_scheme \<Rightarrow>
    bool \<times> 'w io_world_scheme" where
  "bc_io_stream_io_advise_sequential env fd w =
     (case sys_fadvise env fd 0 0 POSIX_FADV_SEQUENTIAL w of (result, w) \<Rightarrow> (result = 0, w))"

definition bc_io_stream_io_default_buffer_size :: "bc_io_stream_source_type \<Rightarrow> size_t" where
  "bc_io_stream_io_default_buffer_size source_type =
     (case source_type of
        BC_IO_STREAM_SOURCE_FILE \<Rightarrow> BC_IO_STREAM_DEFAULT_FILE_BUFFER_SIZE
      | BC_IO_STREAM_SOURCE_SOCKET \<Rightarrow> BC_IO_STREAM_DEFAULT_SOCKET_BUFFER_SIZE
      | BC_IO_STREAM_SOURCE_PIPE \<Rightarrow> BC_IO_STREAM_DEFAULT_PIPE_BUFFER_SIZE
      | BC_IO_STREAM_SOURCE_MEMORY \<Rightarrow> BC_IO_STREAM_DEFAULT_MEMORY_CHUNK_SIZE)"

text \<open>\<open>None\<close>: the call returned false and wrote no output.\<close>

definition bc_io_stream_io_align_buffer_size :: "io_env \<Rightarrow> size_t \<Rightarrow> size_t option" where
  "bc_io_stream_io_align_buffer_size env requested_size =
     core_align_up env requested_size BC_IO_STREAM_BUFFER_ALIGNMENT"

section \<open>The transfer loops\<close>

text \<open>
  One round of \<^verbatim>\<open>read_full\<close> keeps: the bytes delivered on the descriptor since the start are the ones
  at the beginning of the buffer, \<open>total_read\<close> counts them, they fit the request, and nothing but
  \<^verbatim>\<open>read\<close> for at least one byte on that descriptor was called, each answered as the kernel answers
  after the history before it.
\<close>

fun only_reads :: "io_env \<Rightarrow> int \<Rightarrow> history \<Rightarrow> history \<Rightarrow> bool" where
  "only_reads env fd past [] = True"
| "only_reads env fd past (ev # h) \<longleftrightarrow>
     (\<exists>n. n \<noteq> 0 \<and> ev = Ev_read fd n (env_read env past fd n)) \<and> only_reads env fd (past @ [ev]) h"

definition only_writes :: "io_env \<Rightarrow> int \<Rightarrow> history \<Rightarrow> bool" where
  "only_writes env fd h \<longleftrightarrow> (\<forall>ev \<in> set h. \<exists>bs k. ev = Ev_write fd bs (env_write env k fd bs))"

lemma only_reads_append [simp]:
  "only_reads env fd past (h @ k) \<longleftrightarrow> only_reads env fd past h \<and> only_reads env fd (past @ h) k"
  by (induction h arbitrary: past) auto

declare only_reads.simps(2) [simp del]

lemma only_writes_simps [simp]:
  "only_writes env fd []" "only_writes env fd (h @ k) \<longleftrightarrow> only_writes env fd h \<and> only_writes env fd k"
  "only_writes env fd [Ev_write fd bs (env_write env k fd bs)]"
  by (auto simp: only_writes_def)

lemma only_reads_no_effect:
  "only_reads env fd past h \<Longrightarrow> balance h r = 0" "only_reads env fd past h \<Longrightarrow> os_written h fd' = []"
  by (induction h arbitrary: past) (auto simp: only_reads.simps(2))

lemma only_writes_no_effect:
  "only_writes env fd h \<Longrightarrow> balance h r = 0" "only_writes env fd h \<Longrightarrow> os_delivered h fd' = []"
  by (induction h) (auto simp: only_writes_def)

definition reading :: "io_env \<Rightarrow> int \<Rightarrow> size_t \<Rightarrow> bytes \<Rightarrow> 'w io_world_scheme \<Rightarrow> bytes \<times> size_t \<times> 'w io_world_scheme \<Rightarrow> bool" where
  "reading env fd requested buffer0 w0 = (\<lambda>(buffer, total, w). \<exists>h.
     trace w = trace w0 @ h \<and> io_world.more w = io_world.more w0 \<and> only_reads env fd (trace w0) h \<and>
     buffer = overwrite 0 (os_delivered h fd) buffer0 \<and>
     unat total = length (os_delivered h fd) \<and> length (os_delivered h fd) \<le> unat requested)"

definition writing :: "io_env \<Rightarrow> int \<Rightarrow> bytes \<Rightarrow> size_t \<Rightarrow> 'w io_world_scheme \<Rightarrow> size_t \<times> 'w io_world_scheme \<Rightarrow> bool" where
  "writing env fd data sz w0 = (\<lambda>(total, w). \<exists>h.
     trace w = trace w0 @ h \<and> io_world.more w = io_world.more w0 \<and> only_writes env fd h \<and>
     os_written h fd = take (unat total) data \<and> unat total \<le> unat sz)"

lemma more_answer [simp]: "io_world.more (snd (answer ev r w)) = io_world.more w"
  by (simp add: answer_def log_event_def set_errno_def split: sum.split)

lemma read_full_body_reading:
  assumes bounded: "reads_bounded env" and fits: "unat requested \<le> length buffer0"
    and inv: "reading env fd requested buffer0 w0 st" and step: "read_full_body env fd requested st = Inl st'"
  shows "reading env fd requested buffer0 w0 st'"
proof -
  obtain buffer total w where st: "st = (buffer, total, w)" by (cases st)
  obtain r w1 where read: "sys_read env fd (requested - total) w = (r, w1)" by fastforce
  then have r: "r = env_read env (trace w) fd (requested - total)"
    and w1: "trace w1 = trace w @ [Ev_read fd (requested - total) r]" "io_world.more w1 = io_world.more w"
    by (auto simp: sys_read_def prod_eq_iff dest: sym [of _ w1])
  obtain h where h: "trace w = trace w0 @ h" "io_world.more w = io_world.more w0" "only_reads env fd (trace w0) h"
    "buffer = overwrite 0 (os_delivered h fd) buffer0" "unat total = length (os_delivered h fd)"
    "length (os_delivered h fd) \<le> unat requested"
    using inv by (auto simp: reading_def st)
  have less: "total < requested" using step by (auto simp: read_full_body_def st split: if_splits)
  have auth: "only_reads env fd (trace w) [Ev_read fd (requested - total) r]" using less by (auto simp: r only_reads.simps(2))
  show ?thesis
  proof (cases r)
    case (Inl e)
    then have "st' = (buffer, total, w1)"
      using step less read by (auto simp: read_full_body_def st split: if_splits)
    then show ?thesis
      unfolding reading_def using h w1 Inl auth by (auto intro!: exI [of _ "h @ [Ev_read fd (requested - total) r]"])
  next
    case (Inr bs)
    then have st': "st' = (overwrite (unat total) bs buffer, total + of_nat (length bs), w1)"
      using step less read by (auto simp: read_full_body_def st split: if_splits)
    have "length bs \<le> unat (requested - total)"
      using bounded r Inr by (auto simp: reads_bounded_def dest: sym)
    then have room: "unat total + length bs \<le> unat requested"
      using less by (simp add: unat_minus_le word_less_nat_alt)
    have "unat (total + of_nat (length bs)) = unat total + length bs"
      using room by (rule unat_advance)
    then show ?thesis
      unfolding reading_def st'
      using h w1 Inr auth room fits overwrite_overwrite_adjacent [of 0 buffer0 "os_delivered h fd" bs]
      by (auto intro!: exI [of _ "h @ [Ev_read fd (requested - total) r]"])
  qed
qed

lemma write_full_body_writing:
  assumes bounded: "writes_bounded env" and fits: "unat sz \<le> length data"
    and inv: "writing env fd data sz w0 st" and step: "write_full_body env fd data sz st = Inl st'"
  shows "writing env fd data sz w0 st'"
proof -
  obtain total w where st: "st = (total, w)" by (cases st)
  let ?rest = "drop (unat total) (take (unat sz) data)"
  obtain r w1 where wr: "sys_write env fd ?rest w = (r, w1)" by fastforce
  then have r: "r = env_write env (trace w) fd ?rest"
    and w1: "trace w1 = trace w @ [Ev_write fd ?rest r]" "io_world.more w1 = io_world.more w"
    by (auto simp: sys_write_def prod_eq_iff dest: sym [of _ w1])
  have auth: "only_writes env fd [Ev_write fd ?rest r]" unfolding r by simp
  obtain h where h: "trace w = trace w0 @ h" "io_world.more w = io_world.more w0" "only_writes env fd h"
    "os_written h fd = take (unat total) data" "unat total \<le> unat sz"
    using inv by (auto simp: writing_def st)
  have less: "total < sz" using step by (auto simp: write_full_body_def st split: if_splits)
  show ?thesis
  proof (cases r)
    case (Inl e)
    then have "st' = (total, w1)"
      using step less wr by (auto simp: write_full_body_def st split: if_splits)
    then show ?thesis
      unfolding writing_def using h w1 Inl auth by (auto intro!: exI [of _ "h @ [Ev_write fd ?rest r]"])
  next
    case (Inr k)
    then have st': "st' = (total + of_nat k, w1)"
      using step less wr by (auto simp: write_full_body_def st split: if_splits)
    have "k \<le> length ?rest"
      using bounded r Inr unfolding writes_bounded_def by metis
    then have room: "unat total + k \<le> unat sz" using fits h(5) by simp
    then have "unat (total + of_nat k) = unat total + k" by (rule unat_advance)
    moreover have "take (unat total) data @ take k ?rest = take (unat total + k) data"
      using room by (simp only: take_add drop_take take_take) (simp add: min_def)
    ultimately show ?thesis
      unfolding writing_def st'
      using h w1 Inr auth room by (auto intro!: exI [of _ "h @ [Ev_write fd ?rest r]"])
  qed
qed

text \<open>How the loops leave: which event was the last one, and what the flags say about it.\<close>

definition read_end :: "int \<Rightarrow> size_t \<Rightarrow> history \<Rightarrow> bool \<Rightarrow> size_t \<Rightarrow> bool \<Rightarrow> bool" where
  "read_end fd requested h ok n eof \<longleftrightarrow>
     (if ok \<and> \<not> eof then n = requested \<or> (\<exists>h' m. h = h' @ [Ev_read fd m (Inl EAGAIN)])
      else if ok then n < requested \<and> (\<exists>h' m. h = h' @ [Ev_read fd m (Inr [])])
      else \<not> eof \<and> n < requested \<and> (\<exists>h' m e. h = h' @ [Ev_read fd m (Inl e)] \<and> e \<noteq> EINTR \<and> e \<noteq> EAGAIN))"

definition write_end :: "int \<Rightarrow> size_t \<Rightarrow> history \<Rightarrow> bool \<Rightarrow> size_t \<Rightarrow> bool" where
  "write_end fd sz h ok n \<longleftrightarrow>
     (if ok then n = sz \<or> (\<exists>h' bs. h = h' @ [Ev_write fd bs (Inl EAGAIN)])
      else n < sz \<and> (\<exists>h' bs e. h = h' @ [Ev_write fd bs (Inl e)] \<and> e \<noteq> EINTR \<and> e \<noteq> EAGAIN))"

lemma errno_answer: "errno (snd (answer ev (Inl e) w)) = e"
  by (simp add: answer_def)

lemma read_full_spec:
  assumes "reads_bounded env" and "unat requested \<le> length buffer0"
    and "bc_io_stream_io_read_full env fd buffer0 requested w0 = Some ((ok, n, eof, buffer), w)"
  obtains h where "trace w = trace w0 @ h" and "io_world.more w = io_world.more w0" and "only_reads env fd (trace w0) h"
    and "buffer = overwrite 0 (os_delivered h fd) buffer0" and "unat n = length (os_delivered h fd)"
    and "n \<le> requested" and "read_end fd requested h ok n eof"
proof -
  let ?Q = "\<lambda>((ok, n, eof, buffer), w). \<exists>h. trace w = trace w0 @ h \<and> io_world.more w = io_world.more w0 \<and>
    only_reads env fd (trace w0) h \<and> buffer = overwrite 0 (os_delivered h fd) buffer0 \<and>
    unat n = length (os_delivered h fd) \<and> n \<le> requested \<and> read_end fd requested h ok n eof"
  have "?Q ((ok, n, eof, buffer), w)"
  proof (rule iterate_partial [OF assms(3) [unfolded bc_io_stream_io_read_full_def],
        where P = "reading env fd requested buffer0 w0" and Q = ?Q])
    show "reading env fd requested buffer0 w0 (buffer0, 0, w0)" by (simp add: reading_def)
    show "reading env fd requested buffer0 w0 st'"
      if "reading env fd requested buffer0 w0 st" "read_full_body env fd requested st = Inl st'" for st st'
      using read_full_body_reading [OF assms(1,2) that] .
  next
    fix st res
    assume inv: "reading env fd requested buffer0 w0 st" and leave: "read_full_body env fd requested st = Inr res"
    obtain buffer total w where st: "st = (buffer, total, w)" by (cases st)
    obtain h where h: "trace w = trace w0 @ h" "io_world.more w = io_world.more w0" "only_reads env fd (trace w0) h"
      "buffer = overwrite 0 (os_delivered h fd) buffer0" "unat total = length (os_delivered h fd)"
      "length (os_delivered h fd) \<le> unat requested"
      using inv by (auto simp: reading_def st)
    have le: "total \<le> requested" using h by (simp add: word_le_nat_alt)
    show "?Q res"
    proof (cases "total < requested")
      case False
      then have "res = ((True, total, False, buffer), w)" "total = requested"
        using leave le by (simp_all add: read_full_body_def st)
      then show ?thesis using h by (auto simp: read_end_def)
    next
      case True
      let ?n = "requested - total"
      let ?r = "env_read env (trace w) fd ?n"
      let ?w = "snd (answer (Ev_read fd ?n) ?r w)"
      have "sys_read env fd ?n w = (?r, ?w)" by (simp add: sys_read_def prod_eq_iff)
      moreover have "errno ?w = e" if "?r = Inl e" for e using that by (simp add: errno_answer)
      moreover obtain ok n eof buf wr where res: "res = ((ok, n, eof, buf), wr)" by (metis surj_pair)
      ultimately have "n = total \<and> buf = buffer \<and> wr = ?w \<and> delivered_by fd (Ev_read fd ?n ?r) = []"
        and "read_end fd requested (h @ [Ev_read fd ?n ?r]) ok n eof"
        using leave True by (auto simp: read_full_body_def st read_end_def split: sum.splits if_splits)
      then show ?thesis
        unfolding res prod.case using h le True by (intro exI [of _ "h @ [Ev_read fd ?n ?r]"]) (auto simp: only_reads.simps(2))
    qed
  qed
  then show ?thesis using that by auto
qed

lemma write_full_spec:
  assumes "writes_bounded env" and "unat sz \<le> length data"
    and "bc_io_stream_io_write_full env fd data sz w0 = Some ((ok, n), w)"
  obtains h where "trace w = trace w0 @ h" and "io_world.more w = io_world.more w0" and "only_writes env fd h"
    and "os_written h fd = take (unat n) data" and "n \<le> sz" and "write_end fd sz h ok n"
proof -
  let ?Q = "\<lambda>((ok, n), w). \<exists>h. trace w = trace w0 @ h \<and> io_world.more w = io_world.more w0 \<and>
    only_writes env fd h \<and> os_written h fd = take (unat n) data \<and> n \<le> sz \<and> write_end fd sz h ok n"
  have "?Q ((ok, n), w)"
  proof (rule iterate_partial [OF assms(3) [unfolded bc_io_stream_io_write_full_def],
        where P = "writing env fd data sz w0" and Q = ?Q])
    show "writing env fd data sz w0 (0, w0)" by (simp add: writing_def)
    show "writing env fd data sz w0 st'"
      if "writing env fd data sz w0 st" "write_full_body env fd data sz st = Inl st'" for st st'
      using write_full_body_writing [OF assms(1,2) that] .
  next
    fix st res
    assume inv: "writing env fd data sz w0 st" and leave: "write_full_body env fd data sz st = Inr res"
    obtain total w where st: "st = (total, w)" by (cases st)
    obtain h where h: "trace w = trace w0 @ h" "io_world.more w = io_world.more w0" "only_writes env fd h"
      "os_written h fd = take (unat total) data" "unat total \<le> unat sz"
      using inv by (auto simp: writing_def st)
    have le: "total \<le> sz" using h by (simp add: word_le_nat_alt)
    show "?Q res"
    proof (cases "total < sz")
      case False
      then have "res = ((True, total), w)" "total = sz"
        using leave le by (simp_all add: write_full_body_def st)
      then show ?thesis using h by (auto simp: write_end_def)
    next
      case True
      let ?bs = "drop (unat total) (take (unat sz) data)"
      let ?r = "env_write env (trace w) fd ?bs"
      let ?w = "snd (answer (Ev_write fd ?bs) ?r w)"
      have "sys_write env fd ?bs w = (?r, ?w)" by (simp add: sys_write_def prod_eq_iff)
      moreover have "errno ?w = e" if "?r = Inl e" for e using that by (simp add: errno_answer)
      moreover obtain ok n wr where res: "res = ((ok, n), wr)" by (metis surj_pair)
      ultimately have "n = total \<and> wr = ?w \<and> taken_by fd (Ev_write fd ?bs ?r) = []"
        and "write_end fd sz (h @ [Ev_write fd ?bs ?r]) ok n"
        using leave True by (auto simp: write_full_body_def st write_end_def split: sum.splits if_splits)
      then show ?thesis
        unfolding res prod.case using h le by (intro exI [of _ "h @ [Ev_write fd ?bs ?r]"]) auto
    qed
  qed
  then show ?thesis using that by auto
qed

text \<open>
  The loops leave when only finitely many calls stall: a round either stalls, which uses up one of
  the \<open>N\<close> stalls, or transfers at least one byte of what is left.
\<close>

lemma read_full_returns:
  assumes "reads_bounded env" and "unat requested \<le> length buffer0" and "stalls_bounded N env"
  shows "\<exists>r. bc_io_stream_io_read_full env fd buffer0 requested w0 = Some r"
  unfolding bc_io_stream_io_read_full_def
proof (rule iterate_total [where P = "reading env fd requested buffer0 w0"
      and m = "\<lambda>(buffer, total, w). (N - stalls (trace w)) + (unat requested - unat total)"])
  show "reading env fd requested buffer0 w0 (buffer0, 0, w0)" by (simp add: reading_def)
next
  fix st st'
  assume inv: "reading env fd requested buffer0 w0 st" and step: "read_full_body env fd requested st = Inl st'"
  have inv': "reading env fd requested buffer0 w0 st'" by (rule read_full_body_reading [OF assms(1,2) inv step])
  obtain buffer total w where st: "st = (buffer, total, w)" by (cases st)
  let ?r = "env_read env (trace w) fd (requested - total)"
  let ?w = "snd (answer (Ev_read fd (requested - total)) ?r w)"
  have read: "sys_read env fd (requested - total) w = (?r, ?w)" by (simp add: sys_read_def prod_eq_iff)
  have less: "total < requested" using step by (auto simp: read_full_body_def st split: if_splits)
  have stall: "stalled (Ev_read fd (requested - total) ?r) \<Longrightarrow> stalls (trace w) < N"
    using stalls_boundedD [OF assms(3)] by blast
  show "reading env fd requested buffer0 w0 st' \<and>
    (case st' of (buffer, total, w) \<Rightarrow> (N - stalls (trace w)) + (unat requested - unat total))
    < (case st of (buffer, total, w) \<Rightarrow> (N - stalls (trace w)) + (unat requested - unat total))"
  proof (cases ?r)
    case (Inl e)
    moreover from this have "errno ?w = e" by (simp add: errno_answer)
    ultimately have "st' = (buffer, total, ?w)" "e = EINTR"
      using step less read by (auto simp: read_full_body_def st split: if_splits)
    then show ?thesis using inv' stall Inl by (simp add: st)
  next
    case (Inr bs)
    then have st': "st' = (overwrite (unat total) bs buffer, total + of_nat (length bs), ?w)" and "bs \<noteq> []"
      using step less read by (auto simp: read_full_body_def st split: if_splits)
    have "length bs \<le> unat (requested - total)"
      using assms(1) Inr by (auto simp: reads_bounded_def)
    then have room: "unat total + length bs \<le> unat requested"
      using less by (simp add: unat_minus_le word_less_nat_alt)
    moreover have "length bs > 0" using \<open>bs \<noteq> []\<close> by simp
    ultimately show ?thesis
      using inv' Inr by (simp add: st st' unat_advance del: length_greater_0_conv)
  qed
qed

lemma write_full_returns:
  assumes "writes_bounded env" and "unat sz \<le> length data" and "stalls_bounded N env"
  shows "\<exists>r. bc_io_stream_io_write_full env fd data sz w0 = Some r"
  unfolding bc_io_stream_io_write_full_def
proof (rule iterate_total [where P = "writing env fd data sz w0"
      and m = "\<lambda>(total, w). (N - stalls (trace w)) + (unat sz - unat total)"])
  show "writing env fd data sz w0 (0, w0)" by (simp add: writing_def)
next
  fix st st'
  assume inv: "writing env fd data sz w0 st" and step: "write_full_body env fd data sz st = Inl st'"
  have inv': "writing env fd data sz w0 st'" by (rule write_full_body_writing [OF assms(1,2) inv step])
  obtain total w where st: "st = (total, w)" by (cases st)
  let ?bs = "drop (unat total) (take (unat sz) data)"
  let ?r = "env_write env (trace w) fd ?bs"
  let ?w = "snd (answer (Ev_write fd ?bs) ?r w)"
  have wr: "sys_write env fd ?bs w = (?r, ?w)" by (simp add: sys_write_def prod_eq_iff)
  have less: "total < sz" using step by (auto simp: write_full_body_def st split: if_splits)
  have stall: "stalled (Ev_write fd ?bs ?r) \<Longrightarrow> stalls (trace w) < N"
    using stalls_boundedD [OF assms(3)] by blast
  show "writing env fd data sz w0 st' \<and>
    (case st' of (total, w) \<Rightarrow> (N - stalls (trace w)) + (unat sz - unat total))
    < (case st of (total, w) \<Rightarrow> (N - stalls (trace w)) + (unat sz - unat total))"
  proof (cases ?r)
    case (Inl e)
    moreover from this have "errno ?w = e" by (simp add: errno_answer)
    ultimately have "st' = (total, ?w)" "e = EINTR"
      using step less wr by (auto simp: write_full_body_def st split: if_splits)
    then show ?thesis using inv' stall Inl by (simp add: st)
  next
    case (Inr k)
    then have st': "st' = (total + of_nat k, ?w)"
      using step less wr by (auto simp: write_full_body_def st split: if_splits)
    have "k \<le> length ?bs" using assms(1) Inr unfolding writes_bounded_def by metis
    then have room: "unat total + k \<le> unat sz" using assms(2) less by (simp add: word_less_nat_alt)
    then have adv: "unat (total + of_nat k) = unat total + k" by (rule unat_advance)
    show ?thesis
    proof (cases "k = 0")
      case True
      moreover have "\<not> min (length data) (unat sz) \<le> unat total"
        using less assms(2) by (simp add: word_less_nat_alt min_def)
      ultimately show ?thesis using inv' stall Inr by (simp add: st st')
    next
      case False
      then show ?thesis using inv' Inr less room by (simp add: st st' adv word_less_nat_alt)
    qed
  qed
qed

section \<open>Properties\<close>

text \<open>
  C19 \<^verbatim>\<open>bc_io_stream_io_read_full\<close> returns, and it is exact: if the kernel never delivers more than it
  was asked for and only finitely many calls are interrupted, the call ends; the bytes the kernel
  delivered on the descriptor during the call, in order and however fragmented, are the ones at
  the start of the buffer (the rest of the buffer is untouched) and \<^verbatim>\<open>*out_bytes_read\<close> counts them;
  it never exceeds the request; \<^verbatim>\<open>*out_eof\<close> is set exactly when the last \<^verbatim>\<open>read\<close> gave no byte, success
  without it means the request is full or the descriptor would block, failure that the last \<^verbatim>\<open>read\<close>
  failed otherwise. No other call is made, so nothing is acquired, released or written.
\<close>

theorem read_full_exact:
  assumes "reads_bounded env" and "stalls_bounded N env" and "unat requested \<le> length buffer0"
  shows "\<exists>ok n eof buffer w h.
    bc_io_stream_io_read_full env fd buffer0 requested w0 = Some ((ok, n, eof, buffer), w) \<and>
    trace w = trace w0 @ h \<and> only_reads env fd (trace w0) h \<and> buffer = overwrite 0 (os_delivered h fd) buffer0 \<and>
    unat n = length (os_delivered h fd) \<and> n \<le> requested \<and> read_end fd requested h ok n eof"
proof -
  obtain r where "bc_io_stream_io_read_full env fd buffer0 requested w0 = Some r"
    using read_full_returns [OF assms(1,3,2)] by blast
  moreover obtain ok n eof buffer w where "r = ((ok, n, eof, buffer), w)" by (metis surj_pair)
  ultimately have ret: "bc_io_stream_io_read_full env fd buffer0 requested w0 = Some ((ok, n, eof, buffer), w)"
    by simp
  from read_full_spec [OF assms(1,3) this] ret show ?thesis by metis
qed

text \<open>A descriptor that is interrupted once, then delivers its bytes one by one, then is at its end.\<close>

definition choppy_env :: io_env where
  "choppy_env = calm_env\<lparr>env_read := \<lambda>h fd n.
     if h = [] then Inl EINTR
     else if n = 0 then Inr []
     else if length h < 4 then Inr [of_nat (64 + length h)]
     else Inr []\<rparr>"

lemma choppy_env_ok:
  "reads_bounded choppy_env" "writes_bounded choppy_env" "stalls_bounded 1 choppy_env" "bc_core_ok choppy_env"
  by (auto simp: choppy_env_def reads_bounded_def writes_bounded_def stalls_bounded_def calm_env_def
      bc_core_ok_def Suc_le_eq unat_gt_0 unat_eq_0)

theorem read_full_exact_witness:
  "\<exists>ok n eof buffer w h.
    bc_io_stream_io_read_full choppy_env 3 [0, 0, 0, 0, 0] 5 initial_world = Some ((ok, n, eof, buffer), w) \<and>
    trace w = trace initial_world @ h \<and> only_reads choppy_env 3 (trace initial_world) h \<and>
    buffer = overwrite 0 (os_delivered h 3) [0, 0, 0, 0, 0] \<and>
    unat n = length (os_delivered h 3) \<and> n \<le> 5 \<and> read_end 3 5 h ok n eof"
  by (rule read_full_exact [OF choppy_env_ok(1,3)]) simp

text \<open>
  C20 \<^verbatim>\<open>bc_io_stream_io_write_full\<close> returns, and it is exact: under the same conditions the bytes the
  kernel took during the call, over any number of short writes and interruptions, are precisely the
  first \<^verbatim>\<open>*out_bytes_written\<close> bytes of the data, none twice and none skipped; success means that all
  of it was taken or the descriptor would block, failure that the last \<^verbatim>\<open>write\<close> failed otherwise.
\<close>

theorem write_full_exact:
  assumes "writes_bounded env" and "stalls_bounded N env" and "unat sz \<le> length data"
  shows "\<exists>ok n w h.
    bc_io_stream_io_write_full env fd data sz w0 = Some ((ok, n), w) \<and>
    trace w = trace w0 @ h \<and> only_writes env fd h \<and> os_written h fd = take (unat n) data \<and> n \<le> sz \<and>
    write_end fd sz h ok n"
proof -
  obtain r where "bc_io_stream_io_write_full env fd data sz w0 = Some r"
    using write_full_returns [OF assms(1,3,2)] by blast
  moreover obtain ok n w where "r = ((ok, n), w)" by (metis surj_pair)
  ultimately have ret: "bc_io_stream_io_write_full env fd data sz w0 = Some ((ok, n), w)" by simp
  from write_full_spec [OF assms(1,3) this] ret show ?thesis by metis
qed

text \<open>A descriptor that takes one byte at a time and would block after three.\<close>

definition dripping_env :: io_env where
  "dripping_env = calm_env\<lparr>env_write := \<lambda>h fd bs.
     if length h < 3 then Inr (min 1 (length bs)) else Inl EAGAIN\<rparr>"

lemma dripping_env_ok:
  "writes_bounded dripping_env" "reads_bounded dripping_env" "stalls_bounded 3 dripping_env" "bc_core_ok dripping_env"
  using length_filter_le [of stalled]
  by (auto simp: dripping_env_def reads_bounded_def writes_bounded_def stalls_bounded_def calm_env_def
      bc_core_ok_def stalls_def errno_defs unat_eq_0 min_def intro: le_less_trans split: if_splits)

theorem write_full_exact_witness:
  "\<exists>ok n w h.
    bc_io_stream_io_write_full dripping_env 3 [1, 2, 3, 4] 4 initial_world = Some ((ok, n), w) \<and>
    trace w = trace initial_world @ h \<and> only_writes dripping_env 3 h \<and> os_written h 3 = take (unat n) [1, 2, 3, 4] \<and>
    n \<le> 4 \<and> write_end 3 4 h ok n"
  by (rule write_full_exact [OF dripping_env_ok(1,3)]) simp

end
