(* ===== verification/IO_Stream.thy ===== *)
theory IO_Stream
  imports IO_Stream_Io
begin

text \<open>
  \<^verbatim>\<open>src/stream/bc_io_stream.c\<close>, \<^verbatim>\<open>bc_io_stream_read.c\<close> and \<^verbatim>\<open>bc_io_stream_write.c\<close>: buffered streams
  over a descriptor or over a memory region. A stream is passed by value together with the world;
  the object behind the pointer \<^verbatim>\<open>buffer\<close> is the field \<open>stream_contents\<close>, and \<open>stream_self\<close> is the
  address of the stream object. Operations that reach a transfer loop return \<open>None\<close> when the
  loop never ends.
\<close>

section \<open>Model\<close>

record bc_io_stream_chunk =
  chunk_data :: addr
  chunk_size :: size_t
  chunk_owned :: bool

record bc_io_stream_stats =
  bytes_read :: size_t
  bytes_written :: size_t
  read_count :: size_t
  write_count :: size_t
  short_read_count :: size_t
  short_write_count :: size_t
  retry_count :: size_t

record bc_io_stream =
  stream_self :: addr
  stream_memory_context :: addr
  stream_buffer_arena :: addr
  stream_buffer :: addr
  stream_contents :: bytes
  stream_buffer_size :: size_t
  stream_buffer_used :: size_t
  stream_source_type :: bc_io_stream_source_type
  stream_mode :: bc_io_stream_mode
  stream_file_descriptor :: int
  stream_owns_file_descriptor :: bool
  stream_end_of_stream :: bool
  stream_memory_data :: addr
  stream_memory_size :: size_t
  stream_memory_position :: size_t
  stream_total_size :: size_t
  stream_total_size_known :: bool
  stream_logical_position :: size_t
  stream_stats :: bc_io_stream_stats

definition sizeof_bc_io_stream :: size_t where
  "sizeof_bc_io_stream = 160"

definition zero_stats :: bc_io_stream_stats where
  "zero_stats = \<lparr>bytes_read = 0, bytes_written = 0, read_count = 0, write_count = 0, short_read_count = 0,
     short_write_count = 0, retry_count = 0\<rparr>"

text \<open>
  The result is the stream object, the arena, the buffer with its contents, and the aligned size. The
  boolean of \<^verbatim>\<open>bc_io_stream_io_align_buffer_size\<close> is ignored by the code: when it fails, \<^verbatim>\<open>aligned_size\<close>
  is whatever the automatic variable held.
\<close>

definition bc_io_stream_allocate_with_buffer :: "io_env \<Rightarrow> addr \<Rightarrow> size_t \<Rightarrow> bc_io_stream_source_type \<Rightarrow>
    'w io_world_scheme \<Rightarrow> (addr \<times> addr \<times> addr \<times> bytes \<times> size_t) option \<times> 'w io_world_scheme" where
  "bc_io_stream_allocate_with_buffer env memory_context buffer_size source_type w =
     (let effective_buffer_size =
            (if buffer_size = 0 then bc_io_stream_io_default_buffer_size source_type else buffer_size);
          aligned_size = (case bc_io_stream_io_align_buffer_size env effective_buffer_size of
            Some n \<Rightarrow> n | None \<Rightarrow> env_indeterminate env (trace w))
      in case pool_allocate env memory_context sizeof_bc_io_stream w of
           (Inl _, w) \<Rightarrow> (None, w)
         | (Inr stream, w) \<Rightarrow>
             (case arena_create env memory_context aligned_size w of
                (Inl _, w) \<Rightarrow> (None, pool_free memory_context stream w)
              | (Inr arena, w) \<Rightarrow>
                  (case arena_allocate env arena aligned_size 64 w of
                     (Inl _, w) \<Rightarrow> (None, pool_free memory_context stream (arena_destroy arena w))
                   | (Inr buffer, w) \<Rightarrow>
                       (Some (stream, arena, buffer, fresh_memory env (trace w) aligned_size, aligned_size), w))))"

definition bc_io_stream_init_common_fields :: "addr \<Rightarrow> addr \<Rightarrow> addr \<Rightarrow> addr \<Rightarrow> bytes \<Rightarrow> size_t \<Rightarrow>
    bc_io_stream_source_type \<Rightarrow> bc_io_stream_mode \<Rightarrow> int \<Rightarrow> bool \<Rightarrow> bc_io_stream" where
  "bc_io_stream_init_common_fields stream memory_context buffer_arena buffer contents buffer_size source_type mode
     file_descriptor owns_file_descriptor =
     \<lparr>stream_self = stream, stream_memory_context = memory_context, stream_buffer_arena = buffer_arena,
      stream_buffer = buffer, stream_contents = contents, stream_buffer_size = buffer_size,
      stream_buffer_used = 0, stream_source_type = source_type, stream_mode = mode,
      stream_file_descriptor = file_descriptor, stream_owns_file_descriptor = owns_file_descriptor,
      stream_end_of_stream = False, stream_memory_data = NULL, stream_memory_size = 0,
      stream_memory_position = 0, stream_total_size = 0, stream_total_size_known = False,
      stream_logical_position = 0, stream_stats = zero_stats\<rparr>"

text \<open>\<^verbatim>\<open>total_size\<close> and \<^verbatim>\<open>total_size_known\<close> as the two opening functions compute them for a readable file.\<close>

definition probe_file :: "io_env \<Rightarrow> int \<Rightarrow> 'w io_world_scheme \<Rightarrow> (size_t \<times> bool) \<times> 'w io_world_scheme" where
  "probe_file env file_descriptor w =
     (let (size_result, w) = bc_io_stream_io_get_file_size env file_descriptor w;
          (_, w) = bc_io_stream_io_advise_sequential env file_descriptor w
      in (case size_result of Some total_size \<Rightarrow> (total_size, True) | None \<Rightarrow> (0, False), w))"

definition bc_io_stream_open_file :: "io_env \<Rightarrow> addr \<Rightarrow> bytes \<Rightarrow> bc_io_stream_mode \<Rightarrow> size_t \<Rightarrow> 'w io_world_scheme \<Rightarrow>
    bc_io_stream option \<times> 'w io_world_scheme" where
  "bc_io_stream_open_file env memory_context path mode buffer_size w =
     (case bc_io_stream_io_open_file env path mode w of
        (None, w) \<Rightarrow> (None, w)
      | (Some file_descriptor, w) \<Rightarrow>
          (let ((total_size, total_size_known), w) =
                 (if mode = BC_IO_STREAM_MODE_READ then probe_file env file_descriptor w else ((0, False), w))
           in case bc_io_stream_allocate_with_buffer env memory_context buffer_size BC_IO_STREAM_SOURCE_FILE w of
                (None, w) \<Rightarrow> (None, sys_close env file_descriptor w)
              | (Some (stream, arena, buffer, contents, aligned_size), w) \<Rightarrow>
                  (Some ((bc_io_stream_init_common_fields stream memory_context arena buffer contents aligned_size
                            BC_IO_STREAM_SOURCE_FILE mode file_descriptor True)
                           \<lparr>stream_total_size := total_size, stream_total_size_known := total_size_known\<rparr>), w)))"

definition bc_io_stream_open_file_descriptor :: "io_env \<Rightarrow> addr \<Rightarrow> int \<Rightarrow> bc_io_stream_source_type \<Rightarrow> bc_io_stream_mode \<Rightarrow>
    size_t \<Rightarrow> 'w io_world_scheme \<Rightarrow> bc_io_stream option \<times> 'w io_world_scheme" where
  "bc_io_stream_open_file_descriptor env memory_context file_descriptor source_type mode buffer_size w =
     (let ((total_size, total_size_known), w) =
            (if source_type = BC_IO_STREAM_SOURCE_FILE \<and> mode = BC_IO_STREAM_MODE_READ
             then probe_file env file_descriptor w else ((0, False), w))
      in case bc_io_stream_allocate_with_buffer env memory_context buffer_size source_type w of
           (None, w) \<Rightarrow> (None, w)
         | (Some (stream, arena, buffer, contents, aligned_size), w) \<Rightarrow>
             (Some ((bc_io_stream_init_common_fields stream memory_context arena buffer contents aligned_size
                       source_type mode file_descriptor False)
                      \<lparr>stream_total_size := total_size, stream_total_size_known := total_size_known\<rparr>), w))"

definition bc_io_stream_open_memory :: "io_env \<Rightarrow> addr \<Rightarrow> addr \<Rightarrow> size_t \<Rightarrow> 'w io_world_scheme \<Rightarrow>
    bc_io_stream option \<times> 'w io_world_scheme" where
  "bc_io_stream_open_memory env memory_context data sz w =
     (let chunk_size = bc_io_stream_io_default_buffer_size BC_IO_STREAM_SOURCE_MEMORY
      in case pool_allocate env memory_context sizeof_bc_io_stream w of
           (Inl _, w) \<Rightarrow> (None, w)
         | (Inr stream, w) \<Rightarrow>
             (Some ((bc_io_stream_init_common_fields stream memory_context NULL NULL [] chunk_size
                       BC_IO_STREAM_SOURCE_MEMORY BC_IO_STREAM_MODE_READ (-1) False)
                      \<lparr>stream_memory_data := data, stream_memory_size := sz, stream_memory_position := 0,
                       stream_total_size := sz, stream_total_size_known := True\<rparr>), w))"

definition bc_io_stream_source_type :: "bc_io_stream \<Rightarrow> bc_io_stream_source_type" where
  "bc_io_stream_source_type stream = stream_source_type stream"

definition bc_io_stream_total_size :: "bc_io_stream \<Rightarrow> size_t option" where
  "bc_io_stream_total_size stream =
     (if \<not> stream_total_size_known stream then None else Some (stream_total_size stream))"

definition bc_io_stream_current_position :: "bc_io_stream \<Rightarrow> size_t" where
  "bc_io_stream_current_position stream = stream_logical_position stream"

definition bc_io_stream_remaining_bytes :: "bc_io_stream \<Rightarrow> size_t option" where
  "bc_io_stream_remaining_bytes stream =
     (if \<not> stream_total_size_known stream then None
      else Some (stream_total_size stream - stream_logical_position stream))"

definition bc_io_stream_is_end_of_stream :: "bc_io_stream \<Rightarrow> bool" where
  "bc_io_stream_is_end_of_stream stream = stream_end_of_stream stream"

definition bc_io_stream_get_stats :: "bc_io_stream \<Rightarrow> bc_io_stream_stats" where
  "bc_io_stream_get_stats stream = stream_stats stream"

definition bc_io_stream_advise :: "io_env \<Rightarrow> bc_io_stream \<Rightarrow> bc_io_stream_access_hint \<Rightarrow> 'w io_world_scheme \<Rightarrow>
    bool \<times> 'w io_world_scheme" where
  "bc_io_stream_advise env stream hint w =
     (if stream_source_type stream = BC_IO_STREAM_SOURCE_MEMORY then (True, w)
      else
        let advice = (if hint = BC_IO_STREAM_ACCESS_SEQUENTIAL then POSIX_FADV_SEQUENTIAL
                      else if hint = BC_IO_STREAM_ACCESS_RANDOM then POSIX_FADV_RANDOM
                      else POSIX_FADV_DONTNEED)
        in case sys_fadvise env (stream_file_descriptor stream) 0 0 advice w of (result, w) \<Rightarrow> (result = 0, w))"

text \<open>Reading. The chunk is \<open>None\<close> where the C function returns false, which leaves \<^verbatim>\<open>*out_chunk\<close> alone.\<close>

definition bc_io_stream_read_chunk_file :: "io_env \<Rightarrow> bc_io_stream \<Rightarrow> 'w io_world_scheme \<Rightarrow>
    (bc_io_stream_chunk option \<times> bc_io_stream \<times> 'w io_world_scheme) option" where
  "bc_io_stream_read_chunk_file env stream w =
     do {
       ((ok, n, eof, contents), w) \<leftarrow> bc_io_stream_io_read_full env (stream_file_descriptor stream)
         (stream_contents stream) (stream_buffer_size stream) w;
       let stream = stream\<lparr>stream_contents := contents\<rparr>;
       Some (
         if \<not> ok then (None, stream, w)
         else if n = 0 \<and> eof then (None, stream\<lparr>stream_end_of_stream := True\<rparr>, w)
         else
           let chunk = \<lparr>chunk_data = stream_buffer stream, chunk_size = n, chunk_owned = True\<rparr>;
               stats = stream_stats stream;
               stats = stats\<lparr>bytes_read := bytes_read stats + n, read_count := read_count stats + 1\<rparr>;
               stats = (if n < stream_buffer_size stream
                        then stats\<lparr>short_read_count := short_read_count stats + 1\<rparr> else stats);
               stream = stream\<lparr>stream_stats := stats\<rparr>;
               stream = (if eof then stream\<lparr>stream_end_of_stream := True\<rparr> else stream);
               stream = stream\<lparr>stream_logical_position := stream_logical_position stream + n\<rparr>
           in (Some chunk, stream, w))
     }"

definition bc_io_stream_read_chunk_memory :: "bc_io_stream \<Rightarrow> bc_io_stream_chunk option \<times> bc_io_stream" where
  "bc_io_stream_read_chunk_memory stream =
     (if stream_memory_position stream \<ge> stream_memory_size stream
      then (None, stream\<lparr>stream_end_of_stream := True\<rparr>)
      else
        let remaining = stream_memory_size stream - stream_memory_position stream;
            n = (if remaining < stream_buffer_size stream then remaining else stream_buffer_size stream);
            chunk = \<lparr>chunk_data = stream_memory_data stream + stream_memory_position stream,
                     chunk_size = n, chunk_owned = False\<rparr>;
            stream = stream\<lparr>stream_memory_position := stream_memory_position stream + n,
                            stream_logical_position := stream_logical_position stream + n\<rparr>;
            stats = stream_stats stream;
            stats = stats\<lparr>bytes_read := bytes_read stats + n, read_count := read_count stats + 1\<rparr>
        in (Some chunk, stream\<lparr>stream_stats := stats\<rparr>))"

definition bc_io_stream_read_chunk :: "io_env \<Rightarrow> bc_io_stream \<Rightarrow> 'w io_world_scheme \<Rightarrow>
    (bc_io_stream_chunk option \<times> bc_io_stream \<times> 'w io_world_scheme) option" where
  "bc_io_stream_read_chunk env stream w =
     (if stream_end_of_stream stream then Some (None, stream, w)
      else if stream_mode stream \<noteq> BC_IO_STREAM_MODE_READ then Some (None, stream, w)
      else if stream_source_type stream = BC_IO_STREAM_SOURCE_MEMORY
      then (case bc_io_stream_read_chunk_memory stream of (chunk, stream) \<Rightarrow> Some (chunk, stream, w))
      else bc_io_stream_read_chunk_file env stream w)"

text \<open>Writing.\<close>

definition bc_io_stream_flush :: "io_env \<Rightarrow> bc_io_stream \<Rightarrow> 'w io_world_scheme \<Rightarrow>
    (bool \<times> bc_io_stream \<times> 'w io_world_scheme) option" where
  "bc_io_stream_flush env stream w =
     (if stream_buffer_used stream = 0 then Some (True, stream, w)
      else do {
        let original_used = stream_buffer_used stream;
        ((write_ok, n), w) \<leftarrow> bc_io_stream_io_write_full env (stream_file_descriptor stream)
          (stream_contents stream) original_used w;
        let remaining = original_used - n;
        let moved = core_move env (take (unat remaining) (drop (unat n) (stream_contents stream)));
        let stream = stream\<lparr>stream_contents := overwrite 0 moved (stream_contents stream),
                            stream_buffer_used := remaining\<rparr>;
        Some (
          if n < original_used
          then (False, stream\<lparr>stream_stats := (stream_stats stream)
                  \<lparr>short_write_count := short_write_count (stream_stats stream) + 1\<rparr>\<rparr>, w)
          else (write_ok, stream, w))
      })"

text \<open>\<^verbatim>\<open>stats.bytes_written += n; stats.write_count++; logical_position += n\<close>, which occurs three times.\<close>

definition count_written :: "size_t \<Rightarrow> bc_io_stream \<Rightarrow> bc_io_stream" where
  "count_written n stream = stream
     \<lparr>stream_stats := (stream_stats stream)\<lparr>bytes_written := bytes_written (stream_stats stream) + n,
                       write_count := write_count (stream_stats stream) + 1\<rparr>,
      stream_logical_position := stream_logical_position stream + n\<rparr>"

definition bc_io_stream_write_chunk :: "io_env \<Rightarrow> bc_io_stream \<Rightarrow> bytes \<Rightarrow> size_t \<Rightarrow> 'w io_world_scheme \<Rightarrow>
    ((bool \<times> size_t) \<times> bc_io_stream \<times> 'w io_world_scheme) option" where
  "bc_io_stream_write_chunk env stream data sz w =
     (if stream_mode stream \<noteq> BC_IO_STREAM_MODE_WRITE then Some ((False, 0), stream, w)
      else if stream_source_type stream = BC_IO_STREAM_SOURCE_MEMORY then Some ((False, 0), stream, w)
      else if sz = 0 then Some ((True, 0), stream, w)
      else if sz \<le> stream_buffer_size stream - stream_buffer_used stream
      then Some ((True, sz), count_written sz (stream
             \<lparr>stream_contents := overwrite (unat (stream_buffer_used stream)) (core_copy env (take (unat sz) data))
                                   (stream_contents stream),
              stream_buffer_used := stream_buffer_used stream + sz\<rparr>), w)
      else do {
        (flushed, stream, w) \<leftarrow> (if stream_buffer_used stream > 0 then bc_io_stream_flush env stream w
                                 else Some (True, stream, w));
        if \<not> flushed then Some ((False, 0), stream, w)
        else if sz \<ge> stream_buffer_size stream then do {
          ((ok, n), w) \<leftarrow> bc_io_stream_io_write_full env (stream_file_descriptor stream) data sz w;
          let stream = count_written n stream;
          let stream = (if n < sz then stream\<lparr>stream_stats := (stream_stats stream)
                  \<lparr>short_write_count := short_write_count (stream_stats stream) + 1\<rparr>\<rparr> else stream);
          Some ((ok, n), stream, w)
        }
        else Some ((True, sz), count_written sz (stream
               \<lparr>stream_contents := overwrite 0 (core_copy env (take (unat sz) data)) (stream_contents stream),
                stream_buffer_used := sz\<rparr>), w)
      })"

definition bc_io_stream_close :: "io_env \<Rightarrow> bc_io_stream \<Rightarrow> 'w io_world_scheme \<Rightarrow> 'w io_world_scheme option" where
  "bc_io_stream_close env stream w =
     do {
       (_, stream, w) \<leftarrow> bc_io_stream_flush env stream w;
       let w = (if stream_buffer_arena stream \<noteq> NULL then arena_destroy (stream_buffer_arena stream) w else w);
       let w = (if stream_owns_file_descriptor stream then sys_close env (stream_file_descriptor stream) w else w);
       Some (pool_free (stream_memory_context stream) (stream_self stream) w)
     }"

section \<open>Invariant and frame\<close>

text \<open>
  What every operation keeps: the buffer has the size the stream says, the used part is within it
  and empty unless the stream writes; a memory stream stays within its region.
\<close>

definition stream_ok :: "bc_io_stream \<Rightarrow> bool" where
  "stream_ok s \<longleftrightarrow>
     stream_buffer_used s \<le> stream_buffer_size s \<and>
     (stream_mode s = BC_IO_STREAM_MODE_READ \<longrightarrow> stream_buffer_used s = 0) \<and>
     (if stream_source_type s = BC_IO_STREAM_SOURCE_MEMORY
      then stream_buffer_used s = 0 \<and> stream_memory_position s \<le> stream_memory_size s
      else length (stream_contents s) = unat (stream_buffer_size s))"

text \<open>The bytes accepted from the caller that no \<^verbatim>\<open>write\<close> has taken yet.\<close>

definition pending :: "bc_io_stream \<Rightarrow> bytes" where
  "pending s = take (unat (stream_buffer_used s)) (stream_contents s)"

text \<open>The fields no operation changes once the stream is open.\<close>

definition stream_frame :: "bc_io_stream \<Rightarrow>
    (addr \<times> addr \<times> addr \<times> addr \<times> size_t) \<times> (bc_io_stream_source_type \<times> bc_io_stream_mode \<times> int \<times> bool) \<times>
    (addr \<times> size_t \<times> size_t \<times> bool)" where
  "stream_frame s =
     ((stream_self s, stream_memory_context s, stream_buffer_arena s, stream_buffer s, stream_buffer_size s),
      (stream_source_type s, stream_mode s, stream_file_descriptor s, stream_owns_file_descriptor s),
      (stream_memory_data s, stream_memory_size s, stream_total_size s, stream_total_size_known s))"

lemma stream_frameD:
  assumes "stream_frame s' = stream_frame s"
  shows "stream_self s' = stream_self s" "stream_memory_context s' = stream_memory_context s"
    "stream_buffer_arena s' = stream_buffer_arena s" "stream_buffer s' = stream_buffer s"
    "stream_buffer_size s' = stream_buffer_size s" "stream_source_type s' = stream_source_type s"
    "stream_mode s' = stream_mode s" "stream_file_descriptor s' = stream_file_descriptor s"
    "stream_owns_file_descriptor s' = stream_owns_file_descriptor s"
    "stream_memory_data s' = stream_memory_data s" "stream_memory_size s' = stream_memory_size s"
    "stream_total_size s' = stream_total_size s" "stream_total_size_known s' = stream_total_size_known s"
  using assms by (simp_all add: stream_frame_def)

text \<open>What a stream holds: its object, its buffer's arena, and the descriptor when it owns it.\<close>

definition stream_holds :: "bc_io_stream \<Rightarrow> resource \<Rightarrow> int" where
  "stream_holds s r =
     of_bool (r = Block (stream_self s)) +
     of_bool (stream_buffer_arena s \<noteq> NULL \<and> r = Arena (stream_buffer_arena s)) +
     of_bool (stream_owns_file_descriptor s \<and> r = Descriptor (stream_file_descriptor s))"

lemma stream_holds_cong: "stream_frame s' = stream_frame s \<Longrightarrow> stream_holds s' = stream_holds s"
  by (simp add: fun_eq_iff stream_holds_def stream_frame_def)

lemma length_pending:
  assumes "stream_ok s"
  shows "length (pending s) = unat (stream_buffer_used s)"
  using assms by (auto simp: stream_ok_def pending_def word_le_nat_alt split: if_splits)

section \<open>Opening and closing\<close>

lemma get_file_size_balance [io_balance]:
  "balance (trace (snd (bc_io_stream_io_get_file_size env fd w))) r = balance (trace w) r"
  by (auto simp: bc_io_stream_io_get_file_size_def sys_fstat_def answer_def split: sum.splits)

lemma advise_sequential_balance [io_balance]:
  "balance (trace (snd (bc_io_stream_io_advise_sequential env fd w))) r = balance (trace w) r"
  by (simp add: bc_io_stream_io_advise_sequential_def sys_fadvise_def Let_def)

lemma probe_file_balance [io_balance]:
  "balance (trace (snd (probe_file env fd w))) r = balance (trace w) r"
  by (simp add: probe_file_def Let_def split_beta io_balance)

lemma sys_close_balance [io_balance]:
  "balance (trace (sys_close env fd w)) r = balance (trace w) r - of_bool (r = Descriptor fd)"
  by (simp add: sys_close_def)

lemma allocate_with_buffer_balance:
  assumes "bc_io_stream_allocate_with_buffer env ctx n ty w = (res, w')"
  shows "balance (trace w') r = balance (trace w) r + (case res of None \<Rightarrow> 0
    | Some (stream, arena, buffer, contents, sz) \<Rightarrow> of_bool (r = Block stream) + of_bool (r = Arena arena))"
  using assms
  by (auto simp: bc_io_stream_allocate_with_buffer_def Let_def pool_allocate_def arena_create_def
      arena_allocate_def pool_free_def arena_destroy_def answer_def split: sum.splits)

lemma allocate_with_buffer_sizes:
  assumes "bc_io_stream_allocate_with_buffer env ctx n ty w = (Some (stream, arena, buffer, contents, sz), w')"
  shows "length contents = unat sz" and "addresses_ok env \<Longrightarrow> stream \<noteq> NULL \<and> arena \<noteq> NULL \<and> buffer \<noteq> NULL"
  using assms
  by (auto simp: bc_io_stream_allocate_with_buffer_def Let_def pool_allocate_def arena_create_def
      arena_allocate_def answer_def addresses_ok_def split: sum.splits)

text \<open>A request that does not overflow when it is rounded up gives a buffer of at least one byte.\<close>

lemma align_nonzero:
  assumes "bc_core_ok env" and "unat n + 63 < 2 ^ 64" and "n \<noteq> 0"
  shows "\<exists>k. bc_io_stream_io_align_buffer_size env n = Some k \<and> k \<noteq> 0 \<and> n \<le> k \<and> unat k mod 64 = 0"
proof -
  define m where "m = (unat n + 63) div 64 * 64"
  have "unat n > 0" using assms(3) by (simp add: unat_gt_0)
  then have m: "m \<le> unat n + 63" "unat n \<le> m" "m > 0" unfolding m_def by linarith+
  then have u: "unat (of_nat m :: u64) = m" using assms(2) by (intro unat_of_nat64) linarith
  have "bc_io_stream_io_align_buffer_size env n = Some (of_nat m)"
    unfolding bc_io_stream_io_align_buffer_size_def BC_IO_STREAM_BUFFER_ALIGNMENT_def bc_core_okD(6) [OF assms(1)]
    using assms(2) by (simp only: if_True m_def)
  moreover have "of_nat m \<noteq> (0 :: u64)" using u m(3) by auto
  moreover have "n \<le> of_nat m" using m(2) by (simp only: word_le_nat_alt u)
  moreover have "m mod 64 = 0" by (simp add: m_def)
  ultimately show ?thesis by (intro exI [of _ "of_nat m"]) (simp only: u simp_thms)
qed

lemma allocate_with_buffer_nonzero:
  assumes "bc_core_ok env" and "unat n + 63 < 2 ^ 64"
    and "bc_io_stream_allocate_with_buffer env ctx n ty w = (Some (stream, arena, buffer, contents, aligned), w')"
  shows "aligned \<noteq> 0"
proof -
  let ?n = "if n = 0 then bc_io_stream_io_default_buffer_size ty else n"
  have "unat ?n + 63 < 2 ^ 64" "?n \<noteq> 0"
    using assms(2) by (cases ty; simp add: bc_io_stream_io_default_buffer_size_def BC_IO_STREAM_DEFAULT_FILE_BUFFER_SIZE_def
        BC_IO_STREAM_DEFAULT_SOCKET_BUFFER_SIZE_def BC_IO_STREAM_DEFAULT_PIPE_BUFFER_SIZE_def BC_IO_STREAM_DEFAULT_MEMORY_CHUNK_SIZE_def)+
  from align_nonzero [OF assms(1) this] obtain k where "bc_io_stream_io_align_buffer_size env ?n = Some k" "k \<noteq> 0" by blast
  then show ?thesis
    using assms(3) by (auto simp: bc_io_stream_allocate_with_buffer_def Let_def split: sum.splits prod.splits)
qed

lemma open_file_buffer_nonzero:
  fixes w w' :: "'w io_world_scheme"
  assumes "bc_core_ok env" and "unat n + 63 < 2 ^ 64"
    and "bc_io_stream_open_file env ctx path mode n w = (Some s, w')"
  shows "stream_buffer_size s \<noteq> 0"
  using assms(3)
  by (auto simp: bc_io_stream_open_file_def bc_io_stream_init_common_fields_def Let_def
      dest: allocate_with_buffer_nonzero [OF assms(1,2)] split: option.splits prod.splits if_splits)

lemma open_file_descriptor_buffer_nonzero:
  fixes w w' :: "'w io_world_scheme"
  assumes "bc_core_ok env" and "unat n + 63 < 2 ^ 64"
    and "bc_io_stream_open_file_descriptor env ctx fd ty mode n w = (Some s, w')"
  shows "stream_buffer_size s \<noteq> 0"
  using assms(3)
  by (auto simp: bc_io_stream_open_file_descriptor_def bc_io_stream_init_common_fields_def Let_def
      dest: allocate_with_buffer_nonzero [OF assms(1,2)] split: option.splits prod.splits if_splits)

text \<open>Opening a stream transfers no byte on any descriptor.\<close>

definition transfers :: "'w io_world_scheme \<Rightarrow> (int \<Rightarrow> bytes) \<times> (int \<Rightarrow> bytes)" where
  "transfers w = (os_written (trace w), os_delivered (trace w))"

lemma probe_file_transfers: "transfers (snd (probe_file env fd w)) = transfers w"
  by (auto simp: transfers_def probe_file_def bc_io_stream_io_get_file_size_def bc_io_stream_io_advise_sequential_def
      sys_fstat_def sys_fadvise_def answer_def Let_def fun_eq_iff split: sum.splits)

lemma allocate_with_buffer_transfers:
  "transfers (snd (bc_io_stream_allocate_with_buffer env ctx n ty w)) = transfers w"
  by (auto simp: transfers_def bc_io_stream_allocate_with_buffer_def pool_allocate_def arena_create_def
      arena_allocate_def pool_free_def arena_destroy_def answer_def Let_def fun_eq_iff split: sum.splits)

lemma io_open_file_transfers: "transfers (snd (bc_io_stream_io_open_file env path mode w)) = transfers w"
  by (auto simp: transfers_def bc_io_stream_io_open_file_def sys_open_def answer_def Let_def fun_eq_iff split: sum.splits)

lemma sys_close_transfers: "transfers (sys_close env fd w) = transfers w"
  by (simp add: transfers_def sys_close_def fun_eq_iff)

lemma open_file_transfers: "transfers (snd (bc_io_stream_open_file env ctx path mode n w)) = transfers w"
proof -
  obtain fd w1 where o: "bc_io_stream_io_open_file env path mode w = (fd, w1)" by fastforce
  then have 1: "transfers w1 = transfers w" using io_open_file_transfers [of env path mode w] by simp
  show ?thesis
  proof (cases fd)
    case (Some d)
    obtain sz known w2 where p: "(if mode = BC_IO_STREAM_MODE_READ then probe_file env d w1 else ((0, False), w1)) = ((sz, known), w2)"
      by (metis surj_pair)
    have 2: "transfers w2 = transfers w1" using p probe_file_transfers [of env d w1] by (auto split: if_splits)
    obtain al w3 where a: "bc_io_stream_allocate_with_buffer env ctx n BC_IO_STREAM_SOURCE_FILE w2 = (al, w3)" by fastforce
    have 3: "transfers w3 = transfers w2"
      using a allocate_with_buffer_transfers [of env ctx n BC_IO_STREAM_SOURCE_FILE w2] by simp
    show ?thesis
      using 1 2 3 by (simp add: bc_io_stream_open_file_def o Some p a sys_close_transfers split: option.split)
  qed (simp add: bc_io_stream_open_file_def o 1)
qed

lemma open_file_descriptor_transfers:
  "transfers (snd (bc_io_stream_open_file_descriptor env ctx fd ty mode n w)) = transfers w"
proof -
  obtain sz known w1 where p: "(if ty = BC_IO_STREAM_SOURCE_FILE \<and> mode = BC_IO_STREAM_MODE_READ
      then probe_file env fd w else ((0, False), w)) = ((sz, known), w1)" by (metis surj_pair)
  then have "transfers w1 = transfers w" using probe_file_transfers [of env fd w] by (auto split: if_splits)
  moreover obtain al w2 where a: "bc_io_stream_allocate_with_buffer env ctx n ty w1 = (al, w2)" by fastforce
  then have "transfers w2 = transfers w1" using allocate_with_buffer_transfers [of env ctx n ty w1] by simp
  ultimately show ?thesis
    by (simp only: bc_io_stream_open_file_descriptor_def p a Let_def prod.case) (simp split: option.split)
qed

text \<open>A stream as the opening functions leave it.\<close>

definition freshly_open :: "bc_io_stream \<Rightarrow> bool" where
  "freshly_open s \<longleftrightarrow> stream_ok s \<and> stream_buffer_used s = 0 \<and> \<not> stream_end_of_stream s \<and>
     stream_logical_position s = 0 \<and> stream_memory_position s = 0 \<and> stream_stats s = zero_stats"

lemma open_file_spec:
  assumes "bc_io_stream_open_file env ctx path mode n w = (res, w')"
  shows "case res of
      None \<Rightarrow> \<forall>r. balance (trace w') r = balance (trace w) r
    | Some s \<Rightarrow> freshly_open s \<and> stream_mode s = mode \<and> stream_source_type s = BC_IO_STREAM_SOURCE_FILE \<and>
        stream_owns_file_descriptor s \<and>
        (addresses_ok env \<longrightarrow> (\<forall>r. balance (trace w') r = balance (trace w) r + stream_holds s r))"
proof -
  obtain fd w1 where o: "bc_io_stream_io_open_file env path mode w = (fd, w1)" by fastforce
  then have b1: "balance (trace w1) r = balance (trace w) r + (case fd of None \<Rightarrow> 0 | Some d \<Rightarrow> of_bool (r = Descriptor d))" for r
    by (auto simp: bc_io_stream_io_open_file_def sys_open_def answer_def Let_def split: sum.splits if_splits)
  show ?thesis
  proof (cases fd)
    case None
    then show ?thesis using assms o b1 by (simp add: bc_io_stream_open_file_def)
  next
    case (Some d)
    define p where "p = (if mode = BC_IO_STREAM_MODE_READ then probe_file env d w1 else ((0, False), w1))"
    obtain sz known w2 where p: "p = ((sz, known), w2)" by (metis surj_pair)
    have b2: "balance (trace w2) r = balance (trace w1) r" for r
      using p probe_file_balance [of env d w1 r] by (auto simp: p_def split: if_splits)
    obtain al w3 where a: "bc_io_stream_allocate_with_buffer env ctx n BC_IO_STREAM_SOURCE_FILE w2 = (al, w3)" by fastforce
    note b3 = allocate_with_buffer_balance [OF a]
    show ?thesis
    proof (cases al)
      case None
      then have "res = None" "w' = sys_close env d w3"
        using assms o Some p a by (simp_all add: bc_io_stream_open_file_def p_def)
      then show ?thesis using b1 b2 b3 Some None by (simp add: io_balance)
    next
      case al: (Some l)
      obtain st arena buf cont asz where l: "l = (st, arena, buf, cont, asz)" by (metis surj_pair)
      note sizes = allocate_with_buffer_sizes [OF a [unfolded al l]]
      show ?thesis
        using assms o Some p a al l sizes b1 b2 b3
        by (auto simp: bc_io_stream_open_file_def p_def bc_io_stream_init_common_fields_def freshly_open_def
            stream_ok_def stream_holds_def)
    qed
  qed
qed

lemma open_file_descriptor_spec:
  assumes "bc_io_stream_open_file_descriptor env ctx fd ty mode n w = (res, w')"
  shows "case res of
      None \<Rightarrow> \<forall>r. balance (trace w') r = balance (trace w) r
    | Some s \<Rightarrow> freshly_open s \<and> stream_mode s = mode \<and> stream_source_type s = ty \<and>
        stream_file_descriptor s = fd \<and> \<not> stream_owns_file_descriptor s \<and>
        (addresses_ok env \<longrightarrow> (\<forall>r. balance (trace w') r = balance (trace w) r + stream_holds s r))"
proof -
  define p where "p = (if ty = BC_IO_STREAM_SOURCE_FILE \<and> mode = BC_IO_STREAM_MODE_READ
    then probe_file env fd w else ((0, False), w))"
  obtain sz known w2 where p: "p = ((sz, known), w2)" by (metis surj_pair)
  have b2: "balance (trace w2) r = balance (trace w) r" for r
    using p probe_file_balance [of env fd w r] by (auto simp: p_def split: if_splits)
  obtain al w3 where a: "bc_io_stream_allocate_with_buffer env ctx n ty w2 = (al, w3)" by fastforce
  note b3 = allocate_with_buffer_balance [OF a]
  have whole: "(case al of None \<Rightarrow> (None, w3)
      | Some (stream, arena, buffer, contents, aligned_size) \<Rightarrow>
             (Some ((bc_io_stream_init_common_fields stream ctx arena buffer contents aligned_size ty mode fd False)
                      \<lparr>stream_total_size := sz, stream_total_size_known := known\<rparr>), w3)) = (res, w')"
    using assms p a by (simp add: bc_io_stream_open_file_descriptor_def p_def [symmetric] split: option.splits prod.splits)
  show ?thesis
  proof (cases al)
    case None
    then show ?thesis using whole b2 b3 by auto
  next
    case al: (Some l)
    obtain st arena buf cont asz where l: "l = (st, arena, buf, cont, asz)" by (metis surj_pair)
    note sizes = allocate_with_buffer_sizes [OF a [unfolded al l]]
    show ?thesis
      using whole al l sizes b2 b3
      by (auto simp: bc_io_stream_init_common_fields_def freshly_open_def stream_ok_def stream_holds_def)
  qed
qed

lemma open_memory_spec:
  assumes "bc_io_stream_open_memory env ctx data sz w = (res, w')"
  shows "case res of
      None \<Rightarrow> \<forall>r. balance (trace w') r = balance (trace w) r
    | Some s \<Rightarrow> freshly_open s \<and> stream_mode s = BC_IO_STREAM_MODE_READ \<and>
        stream_source_type s = BC_IO_STREAM_SOURCE_MEMORY \<and> stream_memory_data s = data \<and>
        stream_memory_size s = sz \<and> stream_buffer_size s = 131072 \<and> \<not> stream_owns_file_descriptor s \<and>
        (\<forall>r. balance (trace w') r = balance (trace w) r + stream_holds s r)"
  using assms
  by (auto simp: bc_io_stream_open_memory_def Let_def pool_allocate_def answer_def
      bc_io_stream_init_common_fields_def freshly_open_def stream_ok_def stream_holds_def
      bc_io_stream_io_default_buffer_size_def BC_IO_STREAM_DEFAULT_MEMORY_CHUNK_SIZE_def split: sum.splits)

section \<open>Flushing\<close>

text \<open>
  A flush hands the first \<open>n\<close> pending bytes to the kernel and keeps the rest at the front of the
  buffer, whatever happens; it succeeds exactly when nothing is left.
\<close>

lemma flush_spec:
  assumes core: "bc_core_ok env" and bounded: "writes_bounded env" and ok: "stream_ok s"
    and run: "bc_io_stream_flush env s w = Some (res, s', w')"
  obtains h where "trace w' = trace w @ h" and "only_writes env (stream_file_descriptor s) h"
    and "os_written h (stream_file_descriptor s) @ pending s' = pending s"
    and "stream_ok s'" and "stream_frame s' = stream_frame s" and "res \<longleftrightarrow> pending s' = []"
    and "stream_end_of_stream s' = stream_end_of_stream s"
    and "stream_logical_position s' = stream_logical_position s"
    and "stream_memory_position s' = stream_memory_position s"
    and "bytes_written (stream_stats s') = bytes_written (stream_stats s)"
    and "res \<or> (\<exists>h' bs e. h = h' @ [Ev_write (stream_file_descriptor s) bs (Inl e)] \<and> e \<noteq> EINTR)"
proof (cases "stream_buffer_used s = 0")
  case True
  then show ?thesis using that [of "[]"] run ok by (simp add: bc_io_stream_flush_def pending_def)
next
  case False
  let ?fd = "stream_file_descriptor s" and ?used = "stream_buffer_used s" and ?buf = "stream_contents s"
  obtain wok n w1 where wf: "bc_io_stream_io_write_full env ?fd ?buf ?used w = Some ((wok, n), w1)"
    using run False by (auto simp: bc_io_stream_flush_def Let_def bind_eq_Some_conv)
  have len: "unat ?used \<le> length ?buf"
    using ok False by (auto simp: stream_ok_def word_le_nat_alt split: if_splits)
  from write_full_spec [OF bounded len wf] obtain h where h: "trace w1 = trace w @ h" "only_writes env ?fd h"
    "os_written h ?fd = take (unat n) ?buf" "n \<le> ?used" "write_end ?fd ?used h wok n" by metis
  let ?rest = "take (unat (?used - n)) (drop (unat n) ?buf)"
  define t where "t = s\<lparr>stream_contents := overwrite 0 ?rest ?buf, stream_buffer_used := ?used - n\<rparr>"
  have rem: "unat (?used - n) = unat ?used - unat n" "unat n \<le> unat ?used"
    using h(4) by (simp_all add: unat_minus_le word_le_nat_alt)
  have pend: "take (unat (?used - n)) (overwrite 0 ?rest ?buf) = ?rest"
    using len rem by (simp add: overwrite_def)
  have parts: "os_written h ?fd @ ?rest = pending s"
    using rem h(3) by (simp add: pending_def flip: take_add)
  have out: "w' = w1" "res = (\<not> n < ?used \<and> wok)" "s' = (if n < ?used then t\<lparr>stream_stats := (stream_stats t)
      \<lparr>short_write_count := short_write_count (stream_stats t) + 1\<rparr>\<rparr> else t)"
    using run False wf by (simp_all add: bc_io_stream_flush_def Let_def t_def bc_core_okD(2) [OF core] split: if_splits)
  have "wok" if "n = ?used" using h(5) that by (simp add: write_end_def split: if_splits)
  then have res: "res \<longleftrightarrow> n = ?used" using out(2) h(4) by auto
  have s': "pending s' = ?rest" "stream_frame s' = stream_frame s"
    "stream_end_of_stream s' = stream_end_of_stream s" "stream_logical_position s' = stream_logical_position s"
    "stream_memory_position s' = stream_memory_position s" "bytes_written (stream_stats s') = bytes_written (stream_stats s)"
    "stream_buffer_used s' = ?used - n" "length (stream_contents s') = length ?buf"
    using len rem pend by (simp_all add: out(3) t_def pending_def stream_frame_def overwrite_def)
  have "stream_ok s'"
    using ok False s'(7,8)
    by (auto simp: stream_ok_def stream_frameD [OF s'(2)] word_le_nat_alt rem split: if_splits)
  moreover have "res \<longleftrightarrow> pending s' = []"
    using res s'(1) rem len by (simp add: word_unat_eq_iff) linarith
  moreover have "res \<or> (\<exists>h' bs e. h = h' @ [Ev_write ?fd bs (Inl e)] \<and> e \<noteq> EINTR)"
    using h(5) res by (cases wok) (auto simp: write_end_def errno_defs)
  ultimately show ?thesis
    using that [of h] h(1,2) s'(2-6) parts out(1) unfolding s'(1) by blast
qed

lemma flush_returns:
  assumes "writes_bounded env" and "stream_ok s" and "stalls_bounded N env"
  shows "\<exists>r. bc_io_stream_flush env s w = Some r"
proof (cases "stream_buffer_used s = 0")
  case False
  then have "unat (stream_buffer_used s) \<le> length (stream_contents s)"
    using assms(2) by (auto simp: stream_ok_def word_le_nat_alt split: if_splits)
  from write_full_returns [OF assms(1) this assms(3)] obtain ok n w1 where
    "bc_io_stream_io_write_full env (stream_file_descriptor s) (stream_contents s) (stream_buffer_used s) w
      = Some ((ok, n), w1)" by (metis surj_pair)
  then show ?thesis using False by (simp add: bc_io_stream_flush_def Let_def split: if_splits) blast
qed (auto simp: bc_io_stream_flush_def)

text \<open>
  Closing flushes what is pending, then releases what the stream holds and nothing else.
\<close>

lemma close_spec:
  assumes core: "bc_core_ok env" and bounded: "writes_bounded env" and ok: "stream_ok s"
    and run: "bc_io_stream_close env s w = Some w'"
  obtains rest where "os_written (trace w') (stream_file_descriptor s) @ rest =
      os_written (trace w) (stream_file_descriptor s) @ pending s"
    and "\<And>r. balance (trace w') r = balance (trace w) r - stream_holds s r"
    and "rest = [] \<or> (\<exists>h h' bs e. only_writes env (stream_file_descriptor s) h \<and>
      h = h' @ [Ev_write (stream_file_descriptor s) bs (Inl e)] \<and> e \<noteq> EINTR)"
proof -
  obtain f t w1 where fl: "bc_io_stream_flush env s w = Some (f, t, w1)"
    using run by (auto simp: bc_io_stream_close_def bind_eq_Some_conv)
  from flush_spec [OF core bounded ok fl] obtain h where h: "trace w1 = trace w @ h"
    "only_writes env (stream_file_descriptor s) h"
    "os_written h (stream_file_descriptor s) @ pending t = pending s" "stream_frame t = stream_frame s"
    "f \<longleftrightarrow> pending t = []" "f \<or> (\<exists>h' bs e. h = h' @ [Ev_write (stream_file_descriptor s) bs (Inl e)] \<and> e \<noteq> EINTR)"
    by metis
  note fr = stream_frameD [OF h(4)]
  define k where "k = (if stream_buffer_arena s \<noteq> NULL then [Ev_arena_destroy (stream_buffer_arena s)] else [])"
  define c where "c = (if stream_owns_file_descriptor s
    then [Ev_close (stream_file_descriptor s) (env_close env (trace w1 @ k) (stream_file_descriptor s))] else [])"
  have tr: "trace w' = trace w @ h @ k @ c @ [Ev_pool_free (stream_memory_context s) (stream_self s)]"
    using run fl h(1) fr
    by (auto simp: bc_io_stream_close_def k_def c_def arena_destroy_def sys_close_def pool_free_def Let_def)
  show ?thesis
  proof
    show "os_written (trace w') (stream_file_descriptor s) @ pending t =
        os_written (trace w) (stream_file_descriptor s) @ pending s"
      using h(3) by (simp add: tr k_def c_def)
    show "balance (trace w') r = balance (trace w) r - stream_holds s r" for r
      using only_writes_no_effect(1) [OF h(2)] by (simp add: tr k_def c_def stream_holds_def)
    show "pending t = [] \<or> (\<exists>h h' bs e. only_writes env (stream_file_descriptor s) h \<and>
      h = h' @ [Ev_write (stream_file_descriptor s) bs (Inl e)] \<and> e \<noteq> EINTR)"
      using h(2,5,6) by blast
  qed
qed

lemma close_returns:
  assumes "writes_bounded env" and "stream_ok s" and "stalls_bounded N env"
  shows "\<exists>w'. bc_io_stream_close env s w = Some w'"
  using flush_returns [OF assms, of w] by (auto simp: bc_io_stream_close_def Let_def)

section \<open>Properties\<close>

text \<open>
  C18 Life cycle of the resources of a stream opened on a path. A failing \<^verbatim>\<open>bc_io_stream_open_file\<close>,
  whichever of \<^verbatim>\<open>open\<close>, the pool, the arena or the buffer allocation failed, leaves every descriptor,
  pool block and arena as it found it. A succeeding one returns a stream that satisfies the
  invariant, and closing it at once, or any stream with the same frame later, gives back exactly
  what was acquired: the descriptor, the arena and the stream object, each once.
\<close>

theorem open_close_balanced:
  fixes w w1 :: "'w io_world_scheme"
  assumes "bc_core_ok env" and "writes_bounded env" and "stalls_bounded N env" and "addresses_ok env"
    and "bc_io_stream_open_file env ctx path mode n w = (res, w1)"
  shows "case res of
      None \<Rightarrow> \<forall>r. balance (trace w1) r = balance (trace w) r
    | Some s \<Rightarrow> stream_ok s \<and>
        (\<forall>s' w2. stream_ok s' \<longrightarrow> stream_frame s' = stream_frame s \<longrightarrow>
           balance (trace w2) = balance (trace w1) \<longrightarrow>
           (\<exists>w3. bc_io_stream_close env s' (w2 :: 'w io_world_scheme) = Some w3 \<and>
              (\<forall>r. balance (trace w3) r = balance (trace w) r)))"
proof (cases res)
  case None
  then show ?thesis using open_file_spec [OF assms(5)] by simp
next
  case (Some s)
  note o = open_file_spec [OF assms(5), unfolded Some, simplified]
  have "\<exists>w3. bc_io_stream_close env s' w2 = Some w3 \<and> (\<forall>r. balance (trace w3) r = balance (trace w) r)"
    if s': "stream_ok s'" "stream_frame s' = stream_frame s" "balance (trace w2) = balance (trace w1)"
    for s' and w2 :: "'w io_world_scheme"
  proof -
    obtain w3 where run: "bc_io_stream_close env s' w2 = Some w3"
      using close_returns [OF assms(2) s'(1) assms(3)] by blast
    show ?thesis
      by (rule close_spec [OF assms(1,2) s'(1) run]) (use run o assms(4) s' stream_holds_cong [OF s'(2)] in simp)
  qed
  then show ?thesis using o Some by (simp add: freshly_open_def)
qed

theorem open_close_balanced_witness:
  "case bc_io_stream_open_file calm_env 1 [97] BC_IO_STREAM_MODE_WRITE 64 initial_world of (res, w1) \<Rightarrow>
    (case res of None \<Rightarrow> False
    | Some s \<Rightarrow> stream_ok s \<and>
        (\<forall>s' w2. stream_ok s' \<longrightarrow> stream_frame s' = stream_frame s \<longrightarrow>
           balance (trace w2) = balance (trace w1) \<longrightarrow>
           (\<exists>w3. bc_io_stream_close calm_env s' (w2 :: io_world) = Some w3 \<and>
              (\<forall>r. balance (trace w3) r = balance (trace initial_world) r))))"
proof -
  obtain res w1 where run: "bc_io_stream_open_file calm_env 1 [97] BC_IO_STREAM_MODE_WRITE 64 initial_world = (res, w1)"
    by fastforce
  moreover have "res \<noteq> None"
    using run by (auto simp: bc_io_stream_open_file_def bc_io_stream_io_open_file_def
        bc_io_stream_allocate_with_buffer_def sys_defs answer_def Let_def)
  ultimately show ?thesis
    using open_close_balanced [OF calm_env_ok(1,3,6,5) run] by auto
qed

end
