(* ===== verification/IO_Stream_Write.thy ===== *)
theory IO_Stream_Write
  imports IO_Stream
begin

text \<open>
  The write side of the streams: no byte accepted by \<^verbatim>\<open>bc_io_stream_write_chunk\<close> is lost, duplicated or
  reordered, in any branch of the code and for any behaviour of the kernel. The contract is the
  locale \<open>byte_sink\<close>; its client is a session of calls followed by \<^verbatim>\<open>bc_io_stream_close\<close>.
\<close>

section \<open>One call\<close>

definition writable :: "bc_io_stream \<Rightarrow> bool" where
  "writable s \<longleftrightarrow> stream_mode s = BC_IO_STREAM_MODE_WRITE \<and> stream_source_type s \<noteq> BC_IO_STREAM_SOURCE_MEMORY"

text \<open>The last call of the history was a \<^verbatim>\<open>write\<close> that failed for good.\<close>

definition write_refused :: "int \<Rightarrow> history \<Rightarrow> bool" where
  "write_refused fd h \<longleftrightarrow> (\<exists>h' bs e. h = h' @ [Ev_write fd bs (Inl e)] \<and> e \<noteq> EINTR)"

lemma write_end_refused: "write_end fd sz h ok n \<Longrightarrow> n = sz \<and> ok \<or> write_refused fd h"
  by (auto simp: write_end_def write_refused_def errno_defs split: if_splits)

lemma count_written_simps [simp]:
  "stream_frame (count_written n s) = stream_frame s"
  "pending (count_written n s) = pending s"
  "stream_ok (count_written n s) = stream_ok s"
  "stream_logical_position (count_written n s) = stream_logical_position s + n"
  "bytes_written (stream_stats (count_written n s)) = bytes_written (stream_stats s) + n"
  "stream_end_of_stream (count_written n s) = stream_end_of_stream s"
  by (simp_all add: count_written_def stream_frame_def pending_def stream_ok_def)

text \<open>Copying \<open>n\<close> bytes to the end of the used part appends them to what is pending.\<close>

lemma append_to_buffer:
  assumes "stream_ok s" and "writable s" and "unat n \<le> length data"
    and "n \<le> stream_buffer_size s - stream_buffer_used s"
    and "t = s\<lparr>stream_contents := overwrite (unat (stream_buffer_used s)) (take (unat n) data) (stream_contents s),
              stream_buffer_used := stream_buffer_used s + n\<rparr>"
  shows "pending t = pending s @ take (unat n) data" and "stream_ok t" and "stream_frame t = stream_frame s"
proof -
  have len: "length (stream_contents s) = unat (stream_buffer_size s)"
    and le: "unat (stream_buffer_used s) \<le> unat (stream_buffer_size s)"
    using assms(1,2) by (simp_all add: stream_ok_def writable_def word_le_nat_alt)
  then have "unat n \<le> unat (stream_buffer_size s) - unat (stream_buffer_used s)"
    using assms(4) by (simp add: word_le_nat_alt unat_minus_le)
  then have room: "unat (stream_buffer_used s) + unat n \<le> unat (stream_buffer_size s)" using le by linarith
  then have adv: "unat (stream_buffer_used s + n) = unat (stream_buffer_used s) + unat n"
    using unat_advance [of "stream_buffer_used s" "unat n" "stream_buffer_size s"] by simp
  show "stream_frame t = stream_frame s" by (simp add: assms(5) stream_frame_def)
  show "pending t = pending s @ take (unat n) data"
    using take_overwrite_end [of "unat (stream_buffer_used s)" "stream_contents s" "take (unat n) data"] assms(3) len le
    by (simp add: assms(5) pending_def adv min.absorb2)
  show "stream_ok t"
    using assms(1-3) room len by (simp add: assms(5) stream_ok_def writable_def word_le_nat_alt adv min.absorb2)
qed

text \<open>The test \<^verbatim>\<open>buffer_used > 0\<close> before a flush only saves the call.\<close>

lemma flush_if_used:
  "(if stream_buffer_used s > 0 then bc_io_stream_flush env s w else Some (True, s, w)) = bc_io_stream_flush env s w"
  by (auto simp: bc_io_stream_flush_def word_gt_0)

lemma write_through_spec:
  assumes bounded: "writes_bounded env" and len: "unat sz \<le> length data"
    and run: "bc_io_stream_io_write_full env fd data sz w = Some ((res, n), w')"
    and s': "s' = (if n < sz then (count_written n t)\<lparr>stream_stats := (stream_stats (count_written n t))
        \<lparr>short_write_count := short_write_count (stream_stats (count_written n t)) + 1\<rparr>\<rparr> else count_written n t)"
  obtains k where "trace w' = trace w @ k" and "only_writes env fd k" and "os_written k fd = take (unat n) data" and "n \<le> sz"
    and "res \<and> n = sz \<or> write_refused fd k"
    and "pending s' = pending t" and "stream_ok s' = stream_ok t" and "stream_frame s' = stream_frame t"
    and "stream_logical_position s' = stream_logical_position t + n"
    and "bytes_written (stream_stats s') = bytes_written (stream_stats t) + n"
proof -
  from write_full_spec [OF bounded len run] obtain k where k: "trace w' = trace w @ k" "only_writes env fd k"
    "os_written k fd = take (unat n) data" "n \<le> sz" "write_end fd sz k res n" by metis
  moreover have "res \<and> n = sz \<or> write_refused fd k"
    using write_end_refused [OF k(5)] by (auto simp: write_refused_def)
  moreover have "pending s' = pending t" "stream_ok s' = stream_ok t" "stream_frame s' = stream_frame t"
    "stream_logical_position s' = stream_logical_position t + n"
    "bytes_written (stream_stats s') = bytes_written (stream_stats t) + n"
    by (simp_all add: s' pending_def stream_ok_def stream_frame_def count_written_def)
  ultimately show ?thesis using that by blast
qed

lemma write_chunk_large_spec:
  assumes core: "bc_core_ok env" and bounded: "writes_bounded env" and ok: "stream_ok s"
    and len: "unat sz \<le> length data"
    and large: "writable s" "sz \<noteq> 0" "\<not> sz \<le> stream_buffer_size s - stream_buffer_used s"
    and run: "bc_io_stream_write_chunk env s data sz w = Some ((res, n), s', w')"
  obtains h where "trace w' = trace w @ h" and "only_writes env (stream_file_descriptor s) h"
    and "os_written h (stream_file_descriptor s) @ pending s' = pending s @ take (unat n) data"
    and "n \<le> sz" and "stream_ok s'" and "stream_frame s' = stream_frame s"
    and "stream_logical_position s' = stream_logical_position s + n"
    and "bytes_written (stream_stats s') = bytes_written (stream_stats s) + n"
    and "res \<and> n = sz \<or> write_refused (stream_file_descriptor s) h"
proof -
  let ?fd = "stream_file_descriptor s"
  note same = flush_if_used [of s env w]
  obtain f t w1 where fl: "bc_io_stream_flush env s w = Some (f, t, w1)"
    using run large unfolding bc_io_stream_write_chunk_def same by (auto simp: writable_def bind_eq_Some_conv)
  from flush_spec [OF core bounded ok fl] obtain h where h: "trace w1 = trace w @ h" "only_writes env ?fd h"
    "os_written h ?fd @ pending t = pending s" "stream_ok t" "stream_frame t = stream_frame s"
    "f \<longleftrightarrow> pending t = []" "stream_logical_position t = stream_logical_position s"
    "bytes_written (stream_stats t) = bytes_written (stream_stats s)" "f \<or> write_refused ?fd h"
    unfolding write_refused_def by metis
  note fr = stream_frameD [OF h(5)]
  have empty: "pending t = []" "stream_buffer_used t = 0" if f
    using that h(6) length_pending [OF h(4)] by (simp_all add: unat_eq_0)
  consider "\<not> f" | f "sz \<ge> stream_buffer_size t" | f "\<not> sz \<ge> stream_buffer_size t" by blast
  then show ?thesis
  proof cases
    case 1
    then have "res = False" "n = 0" "s' = t" "w' = w1"
      using run large fl unfolding bc_io_stream_write_chunk_def same by (simp_all add: writable_def)
    then show ?thesis using that [of h] h 1 by simp
  next
    case 2
    obtain wf: "bc_io_stream_io_write_full env ?fd data sz w1 = Some ((res, n), w')"
      and s': "s' = (if n < sz then (count_written n t)\<lparr>stream_stats := (stream_stats (count_written n t))
        \<lparr>short_write_count := short_write_count (stream_stats (count_written n t)) + 1\<rparr>\<rparr> else count_written n t)"
      using run large fl 2 fr unfolding bc_io_stream_write_chunk_def same
      by (auto simp: writable_def bind_eq_Some_conv Let_def)
    from write_through_spec [OF bounded len wf s'] obtain k where k: "trace w' = trace w1 @ k" "only_writes env ?fd k"
      "os_written k ?fd = take (unat n) data" "n \<le> sz" "res \<and> n = sz \<or> write_refused ?fd k"
      "pending s' = pending t" "stream_ok s' = stream_ok t" "stream_frame s' = stream_frame t"
      "stream_logical_position s' = stream_logical_position t + n"
      "bytes_written (stream_stats s') = bytes_written (stream_stats t) + n" .
    have "res \<and> n = sz \<or> write_refused ?fd (h @ k)" using k(5) by (auto simp: write_refused_def)
    then show ?thesis using that [of "h @ k"] h k empty [OF 2(1)] by simp
  next
    case 3
    then have room: "sz \<le> stream_buffer_size t - stream_buffer_used t" using empty by simp
    have wt: "writable t" using large fr by (simp add: writable_def)
    note app = append_to_buffer [OF h(4) wt len room refl]
    have "res \<and> n = sz" "w' = w1" "s' = count_written sz (t\<lparr>stream_contents :=
        overwrite (unat (stream_buffer_used t)) (take (unat sz) data) (stream_contents t),
        stream_buffer_used := stream_buffer_used t + sz\<rparr>)"
      using run large fl 3 empty fr unfolding bc_io_stream_write_chunk_def same
      by (auto simp: writable_def bc_core_okD(1) [OF core])
    then show ?thesis using that [of h] h app by simp
  qed
qed

lemma write_chunk_spec:
  assumes core: "bc_core_ok env" and bounded: "writes_bounded env" and ok: "stream_ok s"
    and len: "unat sz \<le> length data"
    and run: "bc_io_stream_write_chunk env s data sz w = Some ((res, n), s', w')"
  obtains h where "trace w' = trace w @ h" and "only_writes env (stream_file_descriptor s) h"
    and "os_written h (stream_file_descriptor s) @ pending s' = pending s @ take (unat n) data"
    and "n \<le> sz" and "stream_ok s'" and "stream_frame s' = stream_frame s"
    and "stream_logical_position s' = stream_logical_position s + n"
    and "bytes_written (stream_stats s') = bytes_written (stream_stats s) + n"
    and "writable s \<Longrightarrow> res \<and> n = sz \<or> write_refused (stream_file_descriptor s) h"
    and "\<not> writable s \<Longrightarrow> \<not> res"
proof -
  note copy = bc_core_okD(1) [OF core]
  consider "\<not> writable s" | "writable s" "sz = 0"
    | "writable s" "sz \<noteq> 0" "sz \<le> stream_buffer_size s - stream_buffer_used s"
    | "writable s" "sz \<noteq> 0" "\<not> sz \<le> stream_buffer_size s - stream_buffer_used s" by blast
  then show ?thesis
  proof cases
    case 1
    then have "res = False" "n = 0" "s' = s" "w' = w"
      using run by (auto simp: bc_io_stream_write_chunk_def writable_def split: if_splits)
    then show ?thesis using that [of "[]"] ok 1 by simp
  next
    case 2
    then show ?thesis using that [of "[]"] ok run by (simp add: bc_io_stream_write_chunk_def writable_def)
  next
    case 3
    note app = append_to_buffer [OF ok 3(1) len 3(3) refl]
    show ?thesis
      using that [of "[]"] run 3 app by (auto simp: bc_io_stream_write_chunk_def writable_def copy)
  next
    case 4
    from write_chunk_large_spec [OF core bounded ok len 4 run] show ?thesis using that 4(1) by metis
  qed
qed

lemma write_chunk_returns:
  assumes "bc_core_ok env" and "writes_bounded env" and "stream_ok s" and "stalls_bounded N env" and "unat sz \<le> length data"
  shows "\<exists>r. bc_io_stream_write_chunk env s data sz w = Some r"
proof -
  obtain f t w1 where fl: "bc_io_stream_flush env s w = Some (f, t, w1)"
    using flush_returns [OF assms(2-4), of w] by (metis surj_pair)
  have wf: "\<exists>ok n w2. bc_io_stream_io_write_full env fd data sz y = Some ((ok, n), w2)" for fd y
    using write_full_returns [OF assms(2,5,4), of fd y] by (metis surj_pair)
  obtain ok n w2 where "bc_io_stream_io_write_full env (stream_file_descriptor t) data sz w1 = Some ((ok, n), w2)"
    using wf by blast
  then have "bc_io_stream_write_chunk env s data sz w \<noteq> None"
    unfolding bc_io_stream_write_chunk_def flush_if_used by (simp add: fl Let_def del: not_None_eq)
  then show ?thesis by blast
qed

section \<open>Sessions of calls\<close>

text \<open>
  The contract of the write side: an operation keeps the invariant and the frame, always returns,
  and appends to the accepted contents exactly the bytes it reports.
\<close>

locale byte_sink =
  fixes good :: "'e \<Rightarrow> bool" and invar :: "'s \<Rightarrow> bool" and accepted :: "'s \<Rightarrow> 'w \<Rightarrow> bytes" and frame :: "'s \<Rightarrow> 'w \<Rightarrow> 'f"
    and put :: "'e \<Rightarrow> 's \<Rightarrow> bytes \<Rightarrow> 'w \<Rightarrow> ((bool \<times> nat) \<times> 's \<times> 'w) option"
    and flush :: "'e \<Rightarrow> 's \<Rightarrow> 'w \<Rightarrow> (bool \<times> 's \<times> 'w) option"
  assumes put_law: "good e \<Longrightarrow> invar s \<Longrightarrow> length data < 2 ^ 64 \<Longrightarrow> \<exists>ok n s' w'. put e s data w = Some ((ok, n), s', w') \<and>
      invar s' \<and> frame s' w' = frame s w \<and> accepted s' w' = accepted s w @ take n data"
    and flush_law: "good e \<Longrightarrow> invar s \<Longrightarrow> \<exists>ok s' w'. flush e s w = Some (ok, s', w') \<and>
      invar s' \<and> frame s' w' = frame s w \<and> accepted s' w' = accepted s w"

text \<open>A sink over an environment that never refuses bytes accepts everything.\<close>

locale reliable_sink = byte_sink +
  fixes reliable :: "'a \<Rightarrow> bool" and can_put :: "'b \<Rightarrow> bool"
  assumes put_all: "good e \<Longrightarrow> reliable e \<Longrightarrow> invar s \<Longrightarrow> can_put s \<Longrightarrow> length data < 2 ^ 64 \<Longrightarrow>
      put e s data w = Some ((ok, n), s', w') \<Longrightarrow> ok \<and> n = length data"
    and can_put_frame: "frame s' w' = frame s w \<Longrightarrow> can_put s' = can_put s"

datatype write_call = Put bytes | Flush

fun put_data :: "write_call \<Rightarrow> bytes" where
  "put_data (Put data) = data"
| "put_data Flush = []"

text \<open>A client: a list of calls; the first component collects the bytes that were reported as written.\<close>

fun run_calls :: "('s \<Rightarrow> bytes \<Rightarrow> 'w \<Rightarrow> ((bool \<times> nat) \<times> 's \<times> 'w) option) \<Rightarrow> ('s \<Rightarrow> 'w \<Rightarrow> (bool \<times> 's \<times> 'w) option) \<Rightarrow>
    's \<Rightarrow> write_call list \<Rightarrow> 'w \<Rightarrow> (bytes \<times> 's \<times> 'w) option" where
  "run_calls p f s [] w = Some ([], s, w)"
| "run_calls p f s (Put data # cs) w =
     do { ((ok, n), s, w) \<leftarrow> p s data w; (acc, s, w) \<leftarrow> run_calls p f s cs w; Some (take n data @ acc, s, w) }"
| "run_calls p f s (Flush # cs) w = do { (ok, s, w) \<leftarrow> f s w; run_calls p f s cs w }"

context byte_sink
begin

lemma session_accepts:
  assumes "good e" and "invar s" and "\<And>c. c \<in> set cs \<Longrightarrow> length (put_data c) < 2 ^ 64"
  shows "\<exists>acc s' w'. run_calls (put e) (flush e) s cs w = Some (acc, s', w') \<and> invar s' \<and>
    frame s' w' = frame s w \<and> accepted s' w' = accepted s w @ acc"
  using assms(2,3)
proof (induction cs arbitrary: s w)
  case (Cons c cs)
  show ?case
  proof (cases c)
    case (Put data)
    then have "length data < 2 ^ 64" using Cons.prems(2) [of c] by simp
    from put_law [OF assms(1) Cons.prems(1) this, of w] obtain ok n s1 w1 where
      1: "put e s data w = Some ((ok, n), s1, w1)" "invar s1" "frame s1 w1 = frame s w"
        "accepted s1 w1 = accepted s w @ take n data" by blast
    from Cons.IH [OF 1(2), of w1] Cons.prems(2) show ?thesis using 1 Put by fastforce
  next
    case Flush
    from flush_law [OF assms(1) Cons.prems(1), of w] obtain ok s1 w1 where
      1: "flush e s w = Some (ok, s1, w1)" "invar s1" "frame s1 w1 = frame s w" "accepted s1 w1 = accepted s w"
      by blast
    from Cons.IH [OF 1(2), of w1] Cons.prems(2) show ?thesis using 1 Flush by fastforce
  qed
qed simp

end

context reliable_sink
begin

lemma session_complete:
  assumes "good e" and "reliable e" and "invar s" and "can_put s"
    and "\<And>c. c \<in> set cs \<Longrightarrow> length (put_data c) < 2 ^ 64" and "run_calls (put e) (flush e) s cs w = Some (acc, s', w')"
  shows "acc = concat (map put_data cs)"
  using assms(3-6)
proof (induction cs arbitrary: s w acc)
  case (Cons c cs)
  show ?case
  proof (cases c)
    case (Put data)
    then have len: "length data < 2 ^ 64" using Cons.prems(3) [of c] by simp
    from put_law [OF assms(1) Cons.prems(1) len, of w] obtain ok n s1 w1 where
      1: "put e s data w = Some ((ok, n), s1, w1)" "invar s1" "frame s1 w1 = frame s w" by blast
    have "n = length data" using put_all [OF assms(1,2) Cons.prems(1,2) len 1(1)] by simp
    then obtain acc1 where "acc = data @ acc1" "run_calls (put e) (flush e) s1 cs w1 = Some (acc1, s', w')"
      using Cons.prems(4) 1(1) Put by (auto simp: bind_eq_Some_conv)
    with Cons.IH [of s1 w1 acc1] Cons.prems(2,3) 1 show ?thesis by (simp add: Put can_put_frame [OF 1(3)])
  next
    case Flush
    from flush_law [OF assms(1) Cons.prems(1), of w] obtain ok s1 w1 where
      1: "flush e s w = Some (ok, s1, w1)" "invar s1" "frame s1 w1 = frame s w" by blast
    with Cons.IH [of s1 w1 acc] Cons.prems(2-4) show ?thesis by (simp add: Flush can_put_frame [OF 1(3)])
  qed
qed simp

end

text \<open>The streams implement the contract.\<close>

definition put_bytes :: "io_env \<Rightarrow> bc_io_stream \<Rightarrow> bytes \<Rightarrow> 'w io_world_scheme \<Rightarrow>
    ((bool \<times> nat) \<times> bc_io_stream \<times> 'w io_world_scheme) option" where
  "put_bytes env s data w = map_option (\<lambda>((ok, n), s, w). ((ok, unat n), s, w))
     (bc_io_stream_write_chunk env s data (of_nat (length data)) w)"

definition write_env_ok :: "io_env \<Rightarrow> bool" where
  "write_env_ok env \<longleftrightarrow> bc_core_ok env \<and> writes_bounded env \<and> (\<exists>N. stalls_bounded N env)"

text \<open>The kernel never refuses bytes: a \<^verbatim>\<open>write\<close> fails only by being interrupted.\<close>

definition writes_reliable :: "io_env \<Rightarrow> bool" where
  "writes_reliable env \<longleftrightarrow> (\<forall>h fd bs e. env_write env h fd bs = Inl e \<longrightarrow> e = EINTR)"

definition accepted_bytes :: "bc_io_stream \<Rightarrow> 'w io_world_scheme \<Rightarrow> bytes" where
  "accepted_bytes s w = os_written (trace w) (stream_file_descriptor s) @ pending s"

definition session_frame :: "bc_io_stream \<Rightarrow> 'w io_world_scheme \<Rightarrow> _" where
  "session_frame s w = (stream_frame s, balance (trace w))"

lemma reliable_not_refused:
  assumes "writes_reliable env" and "only_writes env fd h"
  shows "\<not> write_refused fd h"
  using assms by (fastforce simp: write_refused_def only_writes_def writes_reliable_def)

lemma put_bytes_spec:
  assumes "write_env_ok env" and "stream_ok s" and "length data < 2 ^ 64"
  obtains ok n s' w' where "put_bytes env s data w = Some ((ok, n), s', w')" and "stream_ok s'"
    and "session_frame s' w' = session_frame s w" and "accepted_bytes s' w' = accepted_bytes s w @ take n data"
    and "writes_reliable env \<Longrightarrow> writable s \<Longrightarrow> ok \<and> n = length data"
proof -
  obtain N where env: "bc_core_ok env" "writes_bounded env" "stalls_bounded N env"
    using assms(1) by (auto simp: write_env_ok_def)
  let ?sz = "of_nat (length data) :: size_t"
  have sz: "unat ?sz = length data" using assms(3) by (rule unat_of_nat64)
  obtain ok n s' w' where run: "bc_io_stream_write_chunk env s data ?sz w = Some ((ok, n), s', w')"
    using write_chunk_returns [OF env(1,2) assms(2) env(3), of ?sz data w] sz by (metis order_refl surj_pair)
  from write_chunk_spec [OF env(1,2) assms(2) _ run] sz obtain h where
    h: "trace w' = trace w @ h" "only_writes env (stream_file_descriptor s) h"
      "os_written h (stream_file_descriptor s) @ pending s' = pending s @ take (unat n) data" "stream_ok s'"
      "stream_frame s' = stream_frame s" "writable s \<Longrightarrow> ok \<and> n = ?sz \<or> write_refused (stream_file_descriptor s) h"
    by (metis order_refl)
  show ?thesis
  proof
    show "put_bytes env s data w = Some ((ok, unat n), s', w')" using run by (simp add: put_bytes_def)
    show "session_frame s' w' = session_frame s w"
      using h(1,5) only_writes_no_effect(1) [OF h(2)] by (simp add: session_frame_def fun_eq_iff)
    show "accepted_bytes s' w' = accepted_bytes s w @ take (unat n) data"
      using h(1,3) stream_frameD(8) [OF h(5)] by (simp add: accepted_bytes_def)
    show "ok \<and> unat n = length data" if "writes_reliable env" "writable s"
      using h(6) [OF that(2)] reliable_not_refused [OF that(1) h(2)] sz by auto
  qed (rule h(4))
qed

interpretation stream_sink: reliable_sink write_env_ok stream_ok accepted_bytes session_frame put_bytes
  bc_io_stream_flush writes_reliable writable
proof unfold_locales
  fix env s data and w :: "'a io_world_scheme"
  assume "write_env_ok env" "stream_ok s" "length (data :: bytes) < 2 ^ 64"
  then show "\<exists>ok n s' w'. put_bytes env s data w = Some ((ok, n), s', w') \<and> stream_ok s' \<and>
      session_frame s' w' = session_frame s w \<and> accepted_bytes s' w' = accepted_bytes s w @ take n data"
    by (rule put_bytes_spec [of env s data w]) blast
next
  fix env s and w :: "'a io_world_scheme"
  assume env: "write_env_ok env" and ok: "stream_ok s"
  then obtain N where e: "bc_core_ok env" "writes_bounded env" "stalls_bounded N env"
    by (auto simp: write_env_ok_def)
  obtain res s' w' where run: "bc_io_stream_flush env s w = Some (res, s', w')"
    using flush_returns [OF e(2) ok e(3), of w] by (metis surj_pair)
  from flush_spec [OF e(1,2) ok run] obtain h where h: "trace w' = trace w @ h"
    "only_writes env (stream_file_descriptor s) h" "os_written h (stream_file_descriptor s) @ pending s' = pending s"
    "stream_ok s'" "stream_frame s' = stream_frame s" by metis
  then show "\<exists>ok s' w'. bc_io_stream_flush env s w = Some (ok, s', w') \<and> stream_ok s' \<and>
      session_frame s' w' = session_frame s w \<and> accepted_bytes s' w' = accepted_bytes s w"
    using run only_writes_no_effect(1) [OF h(2)] stream_frameD(8) [OF h(5)]
    by (simp add: session_frame_def accepted_bytes_def fun_eq_iff)
next
  fix env s data ok n s' and w w' :: "'a io_world_scheme"
  assume 1: "write_env_ok env" "stream_ok s" "length (data :: bytes) < 2 ^ 64"
    and 2: "writes_reliable env" "writable s" "put_bytes env s data w = Some ((ok, n), s', w')"
  show "ok \<and> n = length data"
    using put_bytes_spec [OF 1, of w] 2 by (metis option.inject prod.inject)
next
  fix s s' and w w' :: "'a io_world_scheme"
  assume "session_frame s' w' = session_frame s w"
  then show "writable s' = writable s" by (simp add: session_frame_def writable_def stream_frame_def)
qed

text \<open>With a kernel that never refuses, closing hands over everything that was pending.\<close>

lemma close_complete:
  assumes "bc_core_ok env" and "writes_bounded env" and "writes_reliable env" and "stream_ok s"
    and run: "bc_io_stream_close env s w = Some w'"
  shows "os_written (trace w') (stream_file_descriptor s) = os_written (trace w) (stream_file_descriptor s) @ pending s"
    and "\<And>r. balance (trace w') r = balance (trace w) r - stream_holds s r"
proof -
  obtain rest where rest: "os_written (trace w') (stream_file_descriptor s) @ rest =
      os_written (trace w) (stream_file_descriptor s) @ pending s"
    "\<And>r. balance (trace w') r = balance (trace w) r - stream_holds s r"
    "rest = [] \<or> (\<exists>h. only_writes env (stream_file_descriptor s) h \<and> write_refused (stream_file_descriptor s) h)"
    by (rule close_spec [OF assms(1,2,4) run]) (auto simp: write_refused_def)
  show "\<And>r. balance (trace w') r = balance (trace w) r - stream_holds s r" by (rule rest(2))
  show "os_written (trace w') (stream_file_descriptor s) = os_written (trace w) (stream_file_descriptor s) @ pending s"
    using rest(1,3) reliable_not_refused [OF assms(3)] by auto
qed

section \<open>Properties\<close>

text \<open>
  C8 One \<^verbatim>\<open>bc_io_stream_write_chunk\<close>, for every state of the buffer, every size and every behaviour of
  the kernel: it returns; with \<open>n\<close> the reported count, what the kernel took during the call followed by
  what is now in the buffer equals what was in the buffer before followed by the first \<open>n\<close> bytes of
  the data, so no accepted byte is lost, duplicated or reordered even when a flush fails half-way;
  the position and the \<^verbatim>\<open>bytes_written\<close> statistic advance by \<open>n\<close> (modulo \<open>2\<^sup>6\<^sup>4\<close>); on a writable stream
  anything but full success is due to a \<^verbatim>\<open>write\<close> the kernel refused as the last call; on a read or
  memory stream the call fails. The invariant and everything else about the stream is kept.
\<close>

theorem write_chunk_no_loss:
  assumes "bc_core_ok env" and "writes_bounded env" and "stalls_bounded N env" and "stream_ok s"
    and "unat sz \<le> length data"
  shows "\<exists>ok n s' w' h. bc_io_stream_write_chunk env s data sz w = Some ((ok, n), s', w') \<and>
    trace w' = trace w @ h \<and> only_writes env (stream_file_descriptor s) h \<and>
    os_written h (stream_file_descriptor s) @ pending s' = pending s @ take (unat n) data \<and> n \<le> sz \<and>
    stream_ok s' \<and> stream_frame s' = stream_frame s \<and>
    bc_io_stream_current_position s' = bc_io_stream_current_position s + n \<and>
    bytes_written (bc_io_stream_get_stats s') = bytes_written (bc_io_stream_get_stats s) + n \<and>
    (if writable s then ok \<and> n = sz \<or> write_refused (stream_file_descriptor s) h else \<not> ok)"
proof -
  obtain ok n s' w' where run: "bc_io_stream_write_chunk env s data sz w = Some ((ok, n), s', w')"
    using write_chunk_returns [OF assms(1,2,4,3,5), of w] by (metis surj_pair)
  from write_chunk_spec [OF assms(1,2,4,5) run] obtain h where
    "trace w' = trace w @ h" "only_writes env (stream_file_descriptor s) h"
    "os_written h (stream_file_descriptor s) @ pending s' = pending s @ take (unat n) data" "n \<le> sz"
    "stream_ok s'" "stream_frame s' = stream_frame s" "stream_logical_position s' = stream_logical_position s + n"
    "bytes_written (stream_stats s') = bytes_written (stream_stats s) + n"
    "writable s \<Longrightarrow> ok \<and> n = sz \<or> write_refused (stream_file_descriptor s) h" "\<not> writable s \<Longrightarrow> \<not> ok" by metis
  with run show ?thesis
    unfolding bc_io_stream_current_position_def bc_io_stream_get_stats_def by (intro exI conjI) auto
qed

text \<open>A stream with a four-byte buffer that holds two bytes, over a kernel that soon would block.\<close>

definition half_full :: bc_io_stream where
  "half_full = (bc_io_stream_init_common_fields 64 1 128 192 [7, 8, 0, 0] 4 BC_IO_STREAM_SOURCE_PIPE
     BC_IO_STREAM_MODE_WRITE 3 False)\<lparr>stream_buffer_used := 2\<rparr>"

lemma half_full_ok: "stream_ok half_full" "writable half_full"
  by (simp_all add: half_full_def bc_io_stream_init_common_fields_def stream_ok_def writable_def)

theorem write_chunk_no_loss_witness:
  "\<exists>ok n s' w' h. bc_io_stream_write_chunk dripping_env half_full [1, 2, 3, 4] 4 initial_world = Some ((ok, n), s', w') \<and>
    trace w' = trace initial_world @ h \<and> only_writes dripping_env (stream_file_descriptor half_full) h \<and>
    os_written h (stream_file_descriptor half_full) @ pending s' = pending half_full @ take (unat n) [1, 2, 3, 4] \<and> n \<le> 4 \<and>
    stream_ok s' \<and> stream_frame s' = stream_frame half_full \<and>
    bc_io_stream_current_position s' = bc_io_stream_current_position half_full + n \<and>
    bytes_written (bc_io_stream_get_stats s') = bytes_written (bc_io_stream_get_stats half_full) + n \<and>
    (if writable half_full then ok \<and> n = 4 \<or> write_refused (stream_file_descriptor half_full) h else \<not> ok)"
  by (rule write_chunk_no_loss [OF dripping_env_ok(4,1,3) half_full_ok(1)]) simp

text \<open>
  C3 A whole session: open a file for writing, make any sequence of \<^verbatim>\<open>bc_io_stream_write_chunk\<close> and
  \<^verbatim>\<open>bc_io_stream_flush\<close> calls with data of any sizes, close. If the kernel never refuses bytes (it may
  interrupt and split them as it likes, finitely often), everything returns, every byte of every
  call is accepted, the file's descriptor has received exactly the concatenation of the data
  between opening and closing, whatever the buffer size, and no resource is left over.
\<close>

theorem write_session_complete:
  fixes w w1 :: "'w io_world_scheme"
  assumes "bc_core_ok env" and "writes_bounded env" and "stalls_bounded N env" and "addresses_ok env"
    and "writes_reliable env" and "\<forall>c \<in> set calls. length (put_data c) < 2 ^ 64"
    and "bc_io_stream_open_file env ctx path BC_IO_STREAM_MODE_WRITE n w = (Some s, w1)"
  shows "\<exists>s' w2 w3. run_calls (put_bytes env) (bc_io_stream_flush env) s calls w1 =
      Some (concat (map put_data calls), s', w2) \<and> bc_io_stream_close env s' w2 = Some w3 \<and>
    os_written (trace w3) (stream_file_descriptor s) =
      os_written (trace w) (stream_file_descriptor s) @ concat (map put_data calls) \<and>
    (\<forall>r. balance (trace w3) r = balance (trace w) r)"
proof -
  have env: "write_env_ok env" using assms(1-3) by (auto simp: write_env_ok_def)
  have o: "stream_ok s" "writable s" "pending s = []" "\<And>r. balance (trace w1) r = balance (trace w) r + stream_holds s r"
    using open_file_spec [OF assms(7)] assms(4) by (auto simp: freshly_open_def writable_def pending_def)
  have tr: "os_written (trace w1) = os_written (trace w)"
    using open_file_transfers [of env ctx path BC_IO_STREAM_MODE_WRITE n w] assms(7) by (simp add: transfers_def)
  obtain acc s' w2 where run: "run_calls (put_bytes env) (bc_io_stream_flush env) s calls w1 = Some (acc, s', w2)"
    "stream_ok s'" "session_frame s' w2 = session_frame s w1" "accepted_bytes s' w2 = accepted_bytes s w1 @ acc"
    using stream_sink.session_accepts [OF env o(1), of calls w1] assms(6) by blast
  have acc: "acc = concat (map put_data calls)"
    using stream_sink.session_complete [OF env assms(5) o(1,2) _ run(1)] assms(6) by blast
  have frame: "stream_frame s' = stream_frame s" "\<And>r. balance (trace w2) r = balance (trace w1) r"
    using run(3) by (simp_all add: session_frame_def)
  note fd = stream_frameD(8) [OF frame(1)]
  obtain w3 where cl: "bc_io_stream_close env s' w2 = Some w3"
    using close_returns [OF assms(2) run(2) assms(3)] by blast
  have rest: "os_written (trace w3) (stream_file_descriptor s) = accepted_bytes s' w2"
    "\<And>r. balance (trace w3) r = balance (trace w2) r - stream_holds s' r"
    using close_complete [OF assms(1,2,5) run(2) cl] fd by (auto simp: accepted_bytes_def)
  show ?thesis
    using run(1,4) acc cl rest tr o(3,4) frame(2) stream_holds_cong [OF frame(1)]
    by (intro exI [of _ s'] exI [of _ w2] exI [of _ w3]) (simp add: accepted_bytes_def)
qed

theorem write_session_complete_witness:
  "\<exists>s w1 s' w2 w3. bc_io_stream_open_file calm_env 1 [97] BC_IO_STREAM_MODE_WRITE 64 initial_world = (Some s, w1) \<and>
    run_calls (put_bytes calm_env) (bc_io_stream_flush calm_env) s [Put [1, 2, 3], Flush, Put [4]] w1 =
      Some (concat (map put_data [Put [1, 2, 3], Flush, Put [4]]), s', w2) \<and> bc_io_stream_close calm_env s' w2 = Some w3 \<and>
    os_written (trace w3) (stream_file_descriptor s) =
      os_written (trace initial_world) (stream_file_descriptor s) @ concat (map put_data [Put [1, 2, 3], Flush, Put [4]]) \<and>
    (\<forall>r. balance (trace w3) r = balance (trace initial_world) r)"
proof -
  obtain res w1 where run: "bc_io_stream_open_file calm_env 1 [97] BC_IO_STREAM_MODE_WRITE 64 initial_world = (res, w1)"
    by fastforce
  moreover have "res \<noteq> None"
    using run by (auto simp: bc_io_stream_open_file_def bc_io_stream_io_open_file_def
        bc_io_stream_allocate_with_buffer_def sys_defs answer_def Let_def)
  ultimately obtain s where "bc_io_stream_open_file calm_env 1 [97] BC_IO_STREAM_MODE_WRITE 64 initial_world = (Some s, w1)"
    by auto
  moreover have "writes_reliable calm_env" by (simp add: writes_reliable_def)
  ultimately show ?thesis
    using write_session_complete [OF calm_env_ok(1,3,6,5), of "[Put [1, 2, 3], Flush, Put [4]]" 1 "[97]" 64
        initial_world s w1] by auto
qed

end
