(* ===== verification/IO_Stream_Read.thy ===== *)
theory IO_Stream_Read
  imports IO_Stream "HOL-Library.Sublist"
begin

text \<open>
  The read side of the streams: the chunks of \<^verbatim>\<open>bc_io_stream_read_chunk\<close> are, in order, the bytes the
  kernel delivered, or the bytes of the memory region. The contract is the locale \<open>chunk_source\<close>,
  whose client takes chunks until the stream has no more.
\<close>

section \<open>One call\<close>

text \<open>The last call was a \<^verbatim>\<open>read\<close> that failed for good; the last call found the end of the file.\<close>

definition read_failed :: "int \<Rightarrow> history \<Rightarrow> bool" where
  "read_failed fd h \<longleftrightarrow> (\<exists>h' m e. h = h' @ [Ev_read fd m (Inl e)] \<and> e \<noteq> EINTR \<and> e \<noteq> EAGAIN)"

definition would_block :: "int \<Rightarrow> history \<Rightarrow> bool" where
  "would_block fd h \<longleftrightarrow> (\<exists>h' m. h = h' @ [Ev_read fd m (Inl EAGAIN)])"

definition at_eof :: "int \<Rightarrow> history \<Rightarrow> bool" where
  "at_eof fd h \<longleftrightarrow> (\<exists>h' m. h = h' @ [Ev_read fd m (Inr [])])"

definition readable :: "bc_io_stream \<Rightarrow> bool" where
  "readable s \<longleftrightarrow> stream_mode s = BC_IO_STREAM_MODE_READ"

text \<open>The bytes a chunk refers to: the start of the stream's buffer, or a part of the memory region.\<close>

definition chunk_bytes :: "bytes \<Rightarrow> bc_io_stream \<Rightarrow> bc_io_stream_chunk \<Rightarrow> bytes" where
  "chunk_bytes mem s c =
     (if chunk_owned c then take (unat (chunk_size c)) (stream_contents s)
      else take (unat (chunk_size c)) (drop (unat (chunk_data c - stream_memory_data s)) mem))"

text \<open>What a call on a descriptor stream does, by its outcome.\<close>

definition file_chunk_outcome :: "bc_io_stream \<Rightarrow> history \<Rightarrow> bc_io_stream_chunk option \<Rightarrow> bc_io_stream \<Rightarrow> bool" where
  "file_chunk_outcome s h res s' \<longleftrightarrow>
     (let fd = stream_file_descriptor s; d = os_delivered h fd in
      case res of
        Some c \<Rightarrow>
          chunk_owned c \<and> chunk_data c = stream_buffer s \<and> chunk_bytes [] s' c = d \<and> unat (chunk_size c) = length d \<and>
          chunk_size c \<le> stream_buffer_size s \<and>
          stream_logical_position s' = stream_logical_position s + chunk_size c \<and>
          stream_stats s' = (stream_stats s)\<lparr>bytes_read := bytes_read (stream_stats s) + chunk_size c,
            read_count := read_count (stream_stats s) + 1,
            short_read_count := short_read_count (stream_stats s) + of_bool (chunk_size c < stream_buffer_size s)\<rparr> \<and>
          (if stream_end_of_stream s' then at_eof fd h \<and> d \<noteq> [] \<and> chunk_size c < stream_buffer_size s
           else chunk_size c = stream_buffer_size s \<or> would_block fd h)
      | None \<Rightarrow>
          stream_logical_position s' = stream_logical_position s \<and> stream_stats s' = stream_stats s \<and>
          (if stream_end_of_stream s' then at_eof fd h \<and> d = [] else read_failed fd h))"

lemma read_chunk_file_spec:
  assumes bounded: "reads_bounded env" and ok: "stream_ok s" and src: "stream_source_type s \<noteq> BC_IO_STREAM_SOURCE_MEMORY"
    and run: "bc_io_stream_read_chunk_file env s w = Some (res, s', w')" and eos: "\<not> stream_end_of_stream s"
  obtains h where "trace w' = trace w @ h" and "only_reads env (stream_file_descriptor s) (trace w) h"
    and "stream_ok s'" and "stream_frame s' = stream_frame s" and "file_chunk_outcome s h res s'"
proof -
  let ?fd = "stream_file_descriptor s" and ?n = "stream_buffer_size s" and ?buf = "stream_contents s"
  obtain ok n eof buf w1 where rf: "bc_io_stream_io_read_full env ?fd ?buf ?n w = Some ((ok, n, eof, buf), w1)"
    using run by (auto simp: bc_io_stream_read_chunk_file_def bind_eq_Some_conv)
  have len: "length ?buf = unat ?n" using assms(2,3) by (simp add: stream_ok_def)
  from read_full_spec [OF bounded _ rf] len obtain h where h: "trace w1 = trace w @ h"
    "only_reads env ?fd (trace w) h" "buf = overwrite 0 (os_delivered h ?fd) ?buf"
    "unat n = length (os_delivered h ?fd)" "n \<le> ?n" "read_end ?fd ?n h ok n eof" by (metis order_refl)
  have fits: "length (os_delivered h ?fd) \<le> length ?buf" using h(4,5) len by (simp add: word_le_nat_alt)
  have buf: "length buf = unat ?n" "take (unat n) buf = os_delivered h ?fd"
    using h(3,4) fits len by (simp_all add: overwrite_def)
  have zero: "n = 0 \<longleftrightarrow> os_delivered h ?fd = []" using h(4) by (metis length_0_conv unat_eq_0)
  have "stream_frame s' = stream_frame s" "stream_ok s'" "w' = w1"
    using run rf eos ok src buf(1) len by (auto simp: bc_io_stream_read_chunk_file_def Let_def stream_frame_def stream_ok_def split: if_splits)
  moreover have "file_chunk_outcome s h res s'"
    using run rf h(4-6) buf zero eos
    by (auto simp: bc_io_stream_read_chunk_file_def file_chunk_outcome_def Let_def chunk_bytes_def read_end_def at_eof_def would_block_def read_failed_def
        split: if_splits)
  ultimately show ?thesis using that [of h] h(1,2) by simp
qed

lemma read_chunk_file_returns:
  assumes "reads_bounded env" and "stream_ok s" and "stalls_bounded N env"
    and "stream_source_type s \<noteq> BC_IO_STREAM_SOURCE_MEMORY"
  shows "\<exists>r. bc_io_stream_read_chunk_file env s w = Some r"
proof -
  have "unat (stream_buffer_size s) \<le> length (stream_contents s)" using assms(2,4) by (simp add: stream_ok_def)
  from read_full_returns [OF assms(1) this assms(3)] obtain ok n eof b w1 where
    "bc_io_stream_io_read_full env (stream_file_descriptor s) (stream_contents s) (stream_buffer_size s) w
      = Some ((ok, n, eof, b), w1)" by (metis surj_pair)
  then show ?thesis by (simp add: bc_io_stream_read_chunk_file_def Let_def)
qed

text \<open>A call on a memory stream: it takes the next part of the region, or finds its end.\<close>

lemma read_chunk_memory_spec:
  assumes ok: "stream_ok s" and src: "stream_source_type s = BC_IO_STREAM_SOURCE_MEMORY"
    and run: "bc_io_stream_read_chunk_memory s = (res, s')" and eos: "\<not> stream_end_of_stream s"
    and mem: "length mem = unat (stream_memory_size s)"
  shows "stream_ok s'" and "stream_frame s' = stream_frame s" and "stream_contents s' = stream_contents s"
    and "case res of
      Some c \<Rightarrow> \<not> chunk_owned c \<and>
        take (unat (stream_memory_position s')) mem = take (unat (stream_memory_position s)) mem @ chunk_bytes mem s' c \<and>
        stream_memory_position s < stream_memory_size s \<and>
        unat (stream_memory_position s') = unat (stream_memory_position s) +
          min (unat (stream_buffer_size s)) (unat (stream_memory_size s) - unat (stream_memory_position s)) \<and>
        length (chunk_bytes mem s' c) =
          min (unat (stream_buffer_size s)) (unat (stream_memory_size s) - unat (stream_memory_position s)) \<and>
        \<not> stream_end_of_stream s'
    | None \<Rightarrow> stream_memory_position s = stream_memory_size s \<and> s' = s\<lparr>stream_end_of_stream := True\<rparr>"
proof -
  let ?p = "stream_memory_position s" and ?n = "stream_memory_size s" and ?b = "stream_buffer_size s"
  define k where "k = (if ?n - ?p < ?b then ?n - ?p else ?b)"
  have le: "?p \<le> ?n" using ok src by (simp add: stream_ok_def)
  then have k: "unat k = min (unat ?b) (unat ?n - unat ?p)"
    by (simp add: k_def word_less_nat_alt unat_minus_le min_def)
  then have "unat ?p + unat k \<le> unat ?n" using le by (simp add: word_le_nat_alt)
  then have adv: "unat (?p + k) = unat ?p + unat k" using unat_advance [of ?p "unat k" ?n] by simp
  have t: "take (unat (?p + k)) mem = take (unat ?p) mem @ take (unat k) (drop (unat ?p) mem)"
    by (simp add: adv take_add)
  show "stream_ok s'" "stream_frame s' = stream_frame s" "stream_contents s' = stream_contents s"
    using run ok src le adv k
    by (auto simp: bc_io_stream_read_chunk_memory_def Let_def stream_ok_def stream_frame_def word_le_nat_alt
        k_def [symmetric] split: if_splits)
  show "case res of
      Some c \<Rightarrow> \<not> chunk_owned c \<and>
        take (unat (stream_memory_position s')) mem = take (unat (stream_memory_position s)) mem @ chunk_bytes mem s' c \<and>
        stream_memory_position s < stream_memory_size s \<and>
        unat (stream_memory_position s') = unat (stream_memory_position s) +
          min (unat (stream_buffer_size s)) (unat (stream_memory_size s) - unat (stream_memory_position s)) \<and>
        length (chunk_bytes mem s' c) =
          min (unat (stream_buffer_size s)) (unat (stream_memory_size s) - unat (stream_memory_position s)) \<and>
        \<not> stream_end_of_stream s'
    | None \<Rightarrow> stream_memory_position s = stream_memory_size s \<and> s' = s\<lparr>stream_end_of_stream := True\<rparr>"
  proof (cases "?p \<ge> ?n")
    case True
    then show ?thesis using run le by (auto simp: bc_io_stream_read_chunk_memory_def)
  next
    case False
    have c: "res = Some \<lparr>chunk_data = stream_memory_data s + ?p, chunk_size = k, chunk_owned = False\<rparr>"
      and s': "stream_memory_position s' = ?p + k" "stream_memory_data s' = stream_memory_data s"
        "stream_end_of_stream s' = stream_end_of_stream s"
      using run False by (auto simp: bc_io_stream_read_chunk_memory_def Let_def k_def)
    have "chunk_bytes mem s' \<lparr>chunk_data = stream_memory_data s + ?p, chunk_size = k, chunk_owned = False\<rparr> =
        take (unat k) (drop (unat ?p) mem)"
      by (simp add: chunk_bytes_def s')
    then show ?thesis using False t mem eos adv k by (simp add: c s' min_def)
  qed
qed

lemma read_chunk_returns:
  assumes "reads_bounded env" and "stream_ok s" and "stalls_bounded N env"
  shows "\<exists>r. bc_io_stream_read_chunk env s w = Some r"
  using read_chunk_file_returns [OF assms, of w]
  by (cases "stream_source_type s = BC_IO_STREAM_SOURCE_MEMORY")
    (auto simp: bc_io_stream_read_chunk_def split: prod.split)

section \<open>Taking chunks\<close>

text \<open>
  The contract of the read side: \<open>given\<close> is what the source has handed out so far; a call either
  hands out the next bytes or has none left, for good.
\<close>

locale chunk_source =
  fixes invar :: "'e \<Rightarrow> 's \<Rightarrow> 'w \<Rightarrow> bool" and given :: "'s \<Rightarrow> 'w \<Rightarrow> bytes" and ended :: "'s \<Rightarrow> bool"
    and next_chunk :: "'e \<Rightarrow> 's \<Rightarrow> 'w \<Rightarrow> (bytes option \<times> 's \<times> 'w) option"
  assumes next_law: "invar e s w \<Longrightarrow> \<exists>c s' w'. next_chunk e s w = Some (c, s', w') \<and> invar e s' w' \<and>
      (case c of Some bs \<Rightarrow> given s' w' = given s w @ bs | None \<Rightarrow> given s' w' = given s w \<and> ended s')"
    and ended_law: "ended s \<Longrightarrow> next_chunk e s w = Some (None, s, w)"

text \<open>A source with a finite contents that never hands out an empty chunk.\<close>

locale finite_source = chunk_source +
  fixes whole :: "'a \<Rightarrow> 'b \<Rightarrow> bytes"
  assumes given_whole: "invar e s w \<Longrightarrow> prefix (given s w) (whole e s)"
    and ended_whole: "invar e s w \<Longrightarrow> ended s \<Longrightarrow> given s w = whole e s"
    and next_whole: "invar e s w \<Longrightarrow> next_chunk e s w = Some (c, s', w') \<Longrightarrow> whole e s' = whole e s"
    and next_nonempty: "invar e s w \<Longrightarrow> next_chunk e s w = Some (Some bs, s', w') \<Longrightarrow> bs \<noteq> []"

text \<open>A client that takes up to \<open>k\<close> chunks; the flag tells that the source said it has no more.\<close>

fun take_chunks :: "('s \<Rightarrow> 'w \<Rightarrow> (bytes option \<times> 's \<times> 'w) option) \<Rightarrow> nat \<Rightarrow> 's \<Rightarrow> 'w \<Rightarrow>
    (bytes list \<times> bool \<times> 's \<times> 'w) option" where
  "take_chunks f 0 s w = Some ([], False, s, w)"
| "take_chunks f (Suc k) s w =
     do {
       (c, s, w) \<leftarrow> f s w;
       case c of
         None \<Rightarrow> Some ([], True, s, w)
       | Some bs \<Rightarrow> do { (bss, fin, s, w) \<leftarrow> take_chunks f k s w; Some (bs # bss, fin, s, w) }
     }"

context chunk_source
begin

lemma take_chunks_given:
  assumes "invar e s w"
  shows "\<exists>bss fin s' w'. take_chunks (next_chunk e) k s w = Some (bss, fin, s', w') \<and> invar e s' w' \<and>
    given s' w' = given s w @ concat bss \<and> (fin \<longrightarrow> ended s') \<and> (\<not> fin \<longrightarrow> length bss = k)"
  using assms
proof (induction k arbitrary: s w)
  case (Suc k)
  from next_law [OF Suc.prems] obtain c s1 w1 where 1: "next_chunk e s w = Some (c, s1, w1)" "invar e s1 w1"
    "case c of Some bs \<Rightarrow> given s1 w1 = given s w @ bs | None \<Rightarrow> given s1 w1 = given s w \<and> ended s1" by blast
  show ?case
  proof (cases c)
    case (Some bs)
    with Suc.IH [OF 1(2)] 1 show ?thesis by fastforce
  qed (use 1 in auto)
qed auto

end

context finite_source
begin

lemma take_chunks_progress:
  assumes "invar e s w" and "take_chunks (next_chunk e) k s w = Some (bss, fin, s', w')"
  shows "whole e s' = whole e s" and "[] \<notin> set bss"
proof -
  have "whole e s' = whole e s \<and> [] \<notin> set bss"
    using assms
  proof (induction k arbitrary: s w bss)
    case (Suc k)
    from next_law [OF Suc.prems(1)] obtain c s1 w1 where 1: "next_chunk e s w = Some (c, s1, w1)" "invar e s1 w1" by blast
    note 2 = next_whole [OF Suc.prems(1) 1(1)]
    show ?case
    proof (cases c)
      case None
      then show ?thesis using Suc.prems(2) 1 2 by simp
    next
      case (Some bs)
      then obtain bss1 where "bss = bs # bss1" "take_chunks (next_chunk e) k s1 w1 = Some (bss1, fin, s', w')"
        using Suc.prems(2) 1(1) by (auto simp: bind_eq_Some_conv)
      then show ?thesis using Suc.IH [OF 1(2)] 2 next_nonempty [OF Suc.prems(1)] 1(1) Some by auto
    qed
  qed simp
  then show "whole e s' = whole e s" and "[] \<notin> set bss" by simp_all
qed

text \<open>More calls than there are bytes reach the end, and the chunks are the whole contents.\<close>

lemma take_chunks_whole:
  assumes "invar e s w" and "k > length (whole e s)"
  shows "\<exists>bss s' w'. take_chunks (next_chunk e) k s w = Some (bss, True, s', w') \<and> invar e s' w' \<and> ended s' \<and>
    given s w @ concat bss = whole e s \<and> [] \<notin> set bss"
proof -
  from take_chunks_given [OF assms(1), of k] obtain bss fin s' w' where
    t: "take_chunks (next_chunk e) k s w = Some (bss, fin, s', w')" "invar e s' w'" "given s' w' = given s w @ concat bss"
      "fin \<longrightarrow> ended s'" "\<not> fin \<longrightarrow> length bss = k" by blast
  note p = take_chunks_progress [OF assms(1) t(1)]
  have "length bss \<le> length (concat bss)"
    using p(2)
  proof (induction bss)
    case (Cons b bss)
    then have "length b > 0" "length bss \<le> length (concat bss)" by auto
    then show ?case by (simp del: length_greater_0_conv)
  qed simp
  also have "\<dots> \<le> length (whole e s)"
    using prefix_length_le [OF given_whole [OF t(2)]] t(3) p(1) by simp
  finally have "fin" using t(5) assms(2) by auto
  then show ?thesis using t p ended_whole [OF t(2)] by auto
qed

end

text \<open>The streams implement the contract; a state is a stream with the contents of its memory region.\<close>

definition next_bytes :: "io_env \<Rightarrow> bytes \<times> bc_io_stream \<Rightarrow> 'w io_world_scheme \<Rightarrow>
    (bytes option \<times> (bytes \<times> bc_io_stream) \<times> 'w io_world_scheme) option" where
  "next_bytes env = (\<lambda>(mem, s) w. map_option (\<lambda>(c, s, w). (map_option (chunk_bytes mem s) c, (mem, s), w))
     (bc_io_stream_read_chunk env s w))"

definition reads_reliable :: "io_env \<Rightarrow> bool" where
  "reads_reliable env \<longleftrightarrow> (\<forall>h fd n e. env_read env h fd n = Inl e \<longrightarrow> e = EINTR \<or> e = EAGAIN)"

definition read_env_ok :: "io_env \<Rightarrow> bool" where
  "read_env_ok env \<longleftrightarrow> reads_bounded env \<and> reads_reliable env \<and> (\<exists>N. stalls_bounded N env)"

definition source_ok :: "bytes \<times> bc_io_stream \<Rightarrow> 'w io_world_scheme \<Rightarrow> bool" where
  "source_ok = (\<lambda>(mem, s) w. stream_ok s \<and> readable s \<and>
     (stream_source_type s = BC_IO_STREAM_SOURCE_MEMORY \<longrightarrow> length mem = unat (stream_memory_size s)))"

definition given_bytes :: "bytes \<times> bc_io_stream \<Rightarrow> 'w io_world_scheme \<Rightarrow> bytes" where
  "given_bytes = (\<lambda>(mem, s) w. if stream_source_type s = BC_IO_STREAM_SOURCE_MEMORY
     then take (unat (stream_memory_position s)) mem else os_delivered (trace w) (stream_file_descriptor s))"

definition source_ended :: "bytes \<times> bc_io_stream \<Rightarrow> bool" where
  "source_ended = (\<lambda>(mem, s). stream_end_of_stream s)"

lemma reliable_not_failed:
  assumes "reads_reliable env" and "only_reads env fd past h"
  shows "\<not> read_failed fd h"
  using assms by (force simp: read_failed_def only_reads.simps(2) reads_reliable_def)

lemma next_bytes_file:
  assumes "source_ok (mem, s) w" and "stream_source_type s \<noteq> BC_IO_STREAM_SOURCE_MEMORY" and "reads_bounded env"
    and "stalls_bounded N env" and "\<not> stream_end_of_stream s"
  obtains c s' w' h where "bc_io_stream_read_chunk env s w = Some (c, s', w')"
    and "next_bytes env (mem, s) w = Some (map_option (chunk_bytes mem s') c, (mem, s'), w')"
    and "stream_ok s'" and "stream_frame s' = stream_frame s" and "trace w' = trace w @ h"
    and "only_reads env (stream_file_descriptor s) (trace w) h" and "file_chunk_outcome s h c s'"
proof -
  have s: "stream_ok s" "readable s" using assms(1) by (simp_all add: source_ok_def)
  obtain c s' w' where f: "bc_io_stream_read_chunk_file env s w = Some (c, s', w')"
    using read_chunk_file_returns [OF assms(3) s(1) assms(4,2), of w] by (metis surj_pair)
  then have run: "bc_io_stream_read_chunk env s w = Some (c, s', w')"
    using assms(2,5) s(2) by (simp add: bc_io_stream_read_chunk_def readable_def)
  show ?thesis
    by (rule read_chunk_file_spec [OF assms(3) s(1) assms(2) f assms(5)])
      (use that run in \<open>auto simp: next_bytes_def\<close>)
qed

definition source_invar :: "io_env \<Rightarrow> bytes \<times> bc_io_stream \<Rightarrow> 'w io_world_scheme \<Rightarrow> bool" where
  "source_invar env st w \<longleftrightarrow> read_env_ok env \<and> source_ok st w"

interpretation stream_source: chunk_source source_invar given_bytes source_ended next_bytes
proof unfold_locales
  fix env and st :: "bytes \<times> bc_io_stream" and w :: "'a io_world_scheme"
  assume "source_invar env st w"
  then have env: "read_env_ok env" and inv: "source_ok st w" by (simp_all add: source_invar_def)
  obtain mem s where st: "st = (mem, s)" by fastforce
  obtain N where e: "reads_bounded env" "reads_reliable env" "stalls_bounded N env"
    using env by (auto simp: read_env_ok_def)
  have s: "stream_ok s" "readable s" using inv by (simp_all add: source_ok_def st)
  have "\<exists>c st' w'. next_bytes env st w = Some (c, st', w') \<and> source_ok st' w' \<and>
      (case c of Some bs \<Rightarrow> given_bytes st' w' = given_bytes st w @ bs
       | None \<Rightarrow> given_bytes st' w' = given_bytes st w \<and> source_ended st')"
  proof (cases "stream_end_of_stream s")
    case True
    then have "next_bytes env st w = Some (None, st, w)" by (simp add: next_bytes_def st bc_io_stream_read_chunk_def)
    then show ?thesis using inv True by (simp add: st source_ended_def)
  next
    case eos: False
    show ?thesis
    proof (cases "stream_source_type s = BC_IO_STREAM_SOURCE_MEMORY")
      case True
      obtain c s' where r: "bc_io_stream_read_chunk_memory s = (c, s')" by fastforce
      have mem: "length mem = unat (stream_memory_size s)" using inv True by (simp add: source_ok_def st)
      note m = read_chunk_memory_spec [OF s(1) True r eos mem]
      have "next_bytes env st w = Some (map_option (chunk_bytes mem s') c, (mem, s'), w)"
        using r True eos s(2) by (simp add: next_bytes_def st bc_io_stream_read_chunk_def readable_def)
      then show ?thesis
        using m inv True s by (cases c) (auto simp: source_ok_def st given_bytes_def source_ended_def readable_def
            dest: stream_frameD)
    next
      case False
      from next_bytes_file [OF inv [unfolded st] False e(1,3) eos] obtain c s' w' h where
        n: "next_bytes env (mem, s) w = Some (map_option (chunk_bytes mem s') c, (mem, s'), w')" "stream_ok s'"
        "stream_frame s' = stream_frame s" "trace w' = trace w @ h" "only_reads env (stream_file_descriptor s) (trace w) h"
        "file_chunk_outcome s h c s'" by metis
      show ?thesis
        using n(1,2,4,6) stream_frameD [OF n(3)] reliable_not_failed [OF e(2) n(5)] inv False s
        by (cases c) (auto simp: source_ok_def st given_bytes_def source_ended_def readable_def file_chunk_outcome_def
            Let_def chunk_bytes_def split: if_splits)
    qed
  qed
  then show "\<exists>c st' w'. next_bytes env st w = Some (c, st', w') \<and> source_invar env st' w' \<and>
      (case c of Some bs \<Rightarrow> given_bytes st' w' = given_bytes st w @ bs
       | None \<Rightarrow> given_bytes st' w' = given_bytes st w \<and> source_ended st')"
    using env by (simp add: source_invar_def)
next
  fix env and st :: "bytes \<times> bc_io_stream" and w :: "'a io_world_scheme"
  assume "source_ended st"
  then show "next_bytes env st w = Some (None, st, w)"
    by (cases st) (simp add: source_ended_def next_bytes_def bc_io_stream_read_chunk_def)
qed

section \<open>Files and memory regions as finite sources\<close>

text \<open>
  A descriptor that serves a given contents: after any history, \<^verbatim>\<open>read\<close> gives the next bytes, as many
  as it likes but at least one, and no byte exactly at the end; it may be interrupted. This is how
  \<^verbatim>\<open>read(2)\<close> behaves on a regular file nobody changes.
\<close>

definition serves :: "io_env \<Rightarrow> int \<Rightarrow> bytes \<Rightarrow> bool" where
  "serves env fd content \<longleftrightarrow> (\<forall>h n. n \<noteq> 0 \<longrightarrow>
     (case env_read env h fd n of
        Inl e \<Rightarrow> e = EINTR
      | Inr bs \<Rightarrow> prefix bs (drop (length (os_delivered h fd)) content) \<and>
          (bs = [] \<longrightarrow> length content \<le> length (os_delivered h fd))))"

lemma serves_prefix:
  assumes "serves env fd content" and "prefix (os_delivered past fd) content" and "only_reads env fd past h"
  shows "prefix (os_delivered (past @ h) fd) content"
  using assms(2,3)
proof (induction h arbitrary: past)
  case (Cons ev h)
  then obtain n where ev: "n \<noteq> 0" "ev = Ev_read fd n (env_read env past fd n)" by (auto simp: only_reads.simps(2))
  have "prefix (os_delivered past fd @ delivered_by fd ev) content"
  proof (cases "env_read env past fd n")
    case (Inr bs)
    then have "prefix bs (drop (length (os_delivered past fd)) content)"
      using assms(1) ev(1) by (fastforce simp: serves_def split: sum.splits)
    then show ?thesis
      using Cons.prems(1) by (auto simp: prefix_def ev(2) Inr)
  qed (use Cons.prems(1) ev in simp)
  then show ?case using Cons.IH [of "past @ [ev]"] Cons.prems(2) by (simp add: only_reads.simps(2))
qed simp

lemma serves_eof:
  assumes "serves env fd content" and "prefix (os_delivered past fd) content" and "only_reads env fd past h" and "at_eof fd h"
  shows "os_delivered (past @ h) fd = content"
proof -
  obtain h' m where h: "h = h' @ [Ev_read fd m (Inr [])]" using assms(4) by (auto simp: at_eof_def)
  then have "m \<noteq> 0" "env_read env (past @ h') fd m = Inr []" using assms(3) by (auto simp: only_reads.simps(2))
  then have "length content \<le> length (os_delivered (past @ h') fd)"
    using assms(1) by (fastforce simp: serves_def split: sum.splits)
  moreover have "prefix (os_delivered (past @ h') fd) content"
    using serves_prefix [OF assms(1,2), of h'] assms(3) h by simp
  ultimately show ?thesis by (auto simp: h prefix_def)
qed

lemma serves_error: "serves env fd content \<Longrightarrow> n \<noteq> 0 \<Longrightarrow> env_read env h fd n = Inl e \<Longrightarrow> e = EINTR"
  by (auto simp: serves_def dest: spec [of _ h] split: sum.splits)

lemma serves_not_blocked:
  assumes "serves env fd content" and "only_reads env fd past h"
  shows "\<not> would_block fd h" and "\<not> read_failed fd h"
  using assms
  by (auto simp: would_block_def read_failed_def only_reads.simps(2) errno_defs
      dest!: sym [of "Inl _"] dest: serves_error)

text \<open>The environment of the finite source is paired with the contents of the file the stream is open on.\<close>

definition finite_invar :: "io_env \<times> bytes \<Rightarrow> bytes \<times> bc_io_stream \<Rightarrow> 'w io_world_scheme \<Rightarrow> bool" where
  "finite_invar = (\<lambda>(env, content) (mem, s) w. source_invar env (mem, s) w \<and> stream_buffer_size s \<noteq> 0 \<and>
     (if stream_source_type s = BC_IO_STREAM_SOURCE_MEMORY
      then stream_end_of_stream s \<longrightarrow> stream_memory_position s = stream_memory_size s
      else serves env (stream_file_descriptor s) content \<and>
           prefix (os_delivered (trace w) (stream_file_descriptor s)) content \<and>
           (stream_end_of_stream s \<longrightarrow> os_delivered (trace w) (stream_file_descriptor s) = content)))"

definition finite_next :: "io_env \<times> bytes \<Rightarrow> bytes \<times> bc_io_stream \<Rightarrow> 'w io_world_scheme \<Rightarrow>
    (bytes option \<times> (bytes \<times> bc_io_stream) \<times> 'w io_world_scheme) option" where
  "finite_next = (\<lambda>(env, content). next_bytes env)"

definition source_whole :: "io_env \<times> bytes \<Rightarrow> bytes \<times> bc_io_stream \<Rightarrow> bytes" where
  "source_whole = (\<lambda>(env, content) (mem, s). if stream_source_type s = BC_IO_STREAM_SOURCE_MEMORY then mem else content)"

lemma finite_next_spec:
  assumes inv: "finite_invar (env, content) (mem, s) w"
  shows "\<exists>c s' w'. next_bytes env (mem, s) w = Some (c, (mem, s'), w') \<and> finite_invar (env, content) (mem, s') w' \<and>
    stream_source_type s' = stream_source_type s \<and> c \<noteq> Some []"
proof (cases "stream_end_of_stream s")
  case True
  then have "next_bytes env (mem, s) w = Some (None, (mem, s), w)"
    by (simp add: next_bytes_def bc_io_stream_read_chunk_def)
  then show ?thesis using inv by simp
next
  case eos: False
  have src: "source_invar env (mem, s) w" "stream_buffer_size s \<noteq> 0" using inv by (simp_all add: finite_invar_def)
  obtain N where e: "reads_bounded env" "stalls_bounded N env"
    using src(1) by (auto simp: source_invar_def read_env_ok_def)
  have s: "stream_ok s" "readable s" "source_ok (mem, s) w" using src(1) by (simp_all add: source_invar_def source_ok_def)
  have law: "source_invar env (mem', s') w'" if "next_bytes env (mem, s) w = Some (c, (mem', s'), w')" for c mem' s' w'
    using stream_source.next_law [OF src(1)] that by auto
  show ?thesis
  proof (cases "stream_source_type s = BC_IO_STREAM_SOURCE_MEMORY")
    case True
    obtain c s' where r: "bc_io_stream_read_chunk_memory s = (c, s')" by fastforce
    have mem: "length mem = unat (stream_memory_size s)" using s(3) True by (simp add: source_ok_def)
    note m = read_chunk_memory_spec [OF s(1) True r eos mem]
    have nb: "next_bytes env (mem, s) w = Some (map_option (chunk_bytes mem s') c, (mem, s'), w)"
      using r True eos s(2) by (simp add: next_bytes_def bc_io_stream_read_chunk_def readable_def)
    have "map_option (chunk_bytes mem s') c \<noteq> Some []"
      using m(4) src(2) by (cases c) (auto simp: word_less_nat_alt unat_gt_0 simp flip: length_0_conv)
    then show ?thesis
      using nb law [OF nb] m(4) src(2) stream_frameD [OF m(2)] True
      by (cases c) (auto simp: finite_invar_def)
  next
    case False
    from next_bytes_file [OF s(3) False e eos] obtain c s' w' h where
      nb: "next_bytes env (mem, s) w = Some (map_option (chunk_bytes mem s') c, (mem, s'), w')"
      and n: "stream_frame s' = stream_frame s" "trace w' = trace w @ h"
      "only_reads env (stream_file_descriptor s) (trace w) h" "file_chunk_outcome s h c s'" by metis
    have f: "serves env (stream_file_descriptor s) content"
      "prefix (os_delivered (trace w) (stream_file_descriptor s)) content" using inv False by (simp_all add: finite_invar_def)
    note p = serves_prefix [OF f n(3)] and q = serves_eof [OF f n(3)] and b = serves_not_blocked [OF f(1) n(3)]
    have "map_option (chunk_bytes mem s') c \<noteq> Some []"
      using n(4) b src(2)
      by (cases c) (auto simp: file_chunk_outcome_def Let_def chunk_bytes_def unat_eq_0 split: if_splits)
    moreover have "at_eof (stream_file_descriptor s) h" if "stream_end_of_stream s'"
      using n(4) that by (auto simp: file_chunk_outcome_def Let_def split: option.splits)
    ultimately show ?thesis
      using nb law [OF nb] src(2) stream_frameD [OF n(1)] False f(1) p q by (simp add: finite_invar_def n(2))
  qed
qed

interpretation file_source: finite_source finite_invar given_bytes source_ended finite_next source_whole
proof unfold_locales
  fix e :: "io_env \<times> bytes" and st :: "bytes \<times> bc_io_stream" and w :: "'a io_world_scheme"
  obtain env content mem s where [simp]: "e = (env, content)" "st = (mem, s)" by (metis surj_pair)
  show "finite_next e st w = Some (None, st, w)" if "source_ended st"
    using that stream_source.ended_law by (simp add: finite_next_def)
  assume inv: "finite_invar e st w"
  then have src: "source_invar env (mem, s) w" by (simp add: finite_invar_def)
  from finite_next_spec [of env content mem s w] inv obtain c s' w' where
    n: "next_bytes env (mem, s) w = Some (c, (mem, s'), w')" "finite_invar (env, content) (mem, s') w'"
      "stream_source_type s' = stream_source_type s" "c \<noteq> Some []" by auto
  show "\<exists>c st' w'. finite_next e st w = Some (c, st', w') \<and> finite_invar e st' w' \<and>
      (case c of Some bs \<Rightarrow> given_bytes st' w' = given_bytes st w @ bs
       | None \<Rightarrow> given_bytes st' w' = given_bytes st w \<and> source_ended st')"
    using n stream_source.next_law [OF src] by (simp add: finite_next_def split: option.splits)
  show "prefix (given_bytes st w) (source_whole e st)"
    using inv by (simp add: finite_invar_def given_bytes_def source_whole_def take_is_prefix)
  show "given_bytes st w = source_whole e st" if "source_ended st"
    using inv that src
    by (auto simp: finite_invar_def given_bytes_def source_whole_def source_ended_def source_invar_def source_ok_def split: if_splits)
  show "source_whole e st' = source_whole e st" if "finite_next e st w = Some (c, st', w')" for c st' w'
    using that n by (auto simp: finite_next_def source_whole_def)
  show "bs \<noteq> []" if "finite_next e st w = Some (Some bs, st', w')" for bs st' w'
    using that n by (auto simp: finite_next_def)
qed

lemma read_chunk_frame:
  assumes "source_invar env (mem, s) w" and "bc_io_stream_read_chunk env s w = Some (c, s', w')"
  shows "stream_frame s' = stream_frame s" and "balance (trace w') = balance (trace w)"
proof -
  have s: "source_ok (mem, s) w" "readable s" "stream_ok s" using assms(1) by (simp_all add: source_invar_def source_ok_def)
  obtain N where e: "reads_bounded env" "stalls_bounded N env"
    using assms(1) by (auto simp: source_invar_def read_env_ok_def)
  have "stream_frame s' = stream_frame s \<and> balance (trace w') = balance (trace w)"
  proof (cases "stream_end_of_stream s \<or> stream_source_type s = BC_IO_STREAM_SOURCE_MEMORY")
    case True
    then show ?thesis
      using assms(2) s(2) by (auto simp: bc_io_stream_read_chunk_def bc_io_stream_read_chunk_memory_def Let_def
          stream_frame_def readable_def split: if_splits)
  next
    case False
    then obtain c1 s1 w1 h where "bc_io_stream_read_chunk env s w = Some (c1, s1, w1)" "stream_frame s1 = stream_frame s"
      "trace w1 = trace w @ h" "only_reads env (stream_file_descriptor s) (trace w) h"
      using next_bytes_file [OF s(1) _ e] by metis
    then show ?thesis using assms(2) by (auto simp: fun_eq_iff only_reads_no_effect(1))
  qed
  then show "stream_frame s' = stream_frame s" and "balance (trace w') = balance (trace w)" by simp_all
qed

lemma take_chunks_frame:
  assumes "take_chunks (next_bytes env) k (mem, s) w = Some (bss, fin, st', w')" and "source_invar env (mem, s) w"
  shows "\<exists>s'. st' = (mem, s') \<and> stream_frame s' = stream_frame s \<and> balance (trace w') = balance (trace w)"
  using assms
proof (induction k arbitrary: s w bss)
  case (Suc k)
  obtain c s1 w1 where r: "bc_io_stream_read_chunk env s w = Some (c, s1, w1)"
    using Suc.prems(1) by (auto simp: next_bytes_def bind_eq_Some_conv)
  then have nb: "next_bytes env (mem, s) w = Some (map_option (chunk_bytes mem s1) c, (mem, s1), w1)"
    by (simp add: next_bytes_def)
  note fr = read_chunk_frame [OF Suc.prems(2) r]
  show ?case
  proof (cases c)
    case None
    then show ?thesis using Suc.prems(1) nb fr by auto
  next
    case (Some ch)
    then obtain bss1 where "take_chunks (next_bytes env) k (mem, s1) w1 = Some (bss1, fin, st', w')"
      using Suc.prems(1) nb by (auto simp: bind_eq_Some_conv)
    moreover have "source_invar env (mem, s1) w1" using stream_source.next_law [OF Suc.prems(2)] nb by auto
    ultimately show ?thesis using Suc.IH fr by metis
  qed
qed auto

text \<open>A memory stream over \<open>sz\<close> bytes: its counters agree and no call touches the world.\<close>

definition memory_sized :: "size_t \<Rightarrow> bc_io_stream \<Rightarrow> bool" where
  "memory_sized sz s \<longleftrightarrow> stream_source_type s = BC_IO_STREAM_SOURCE_MEMORY \<and> stream_memory_size s = sz \<and>
     stream_total_size s = sz \<and> stream_total_size_known s \<and> stream_logical_position s = stream_memory_position s"

lemma open_memory_sized:
  "bc_io_stream_open_memory env ctx data sz w = (Some s, w1) \<Longrightarrow> memory_sized sz s"
  by (auto simp: bc_io_stream_open_memory_def Let_def bc_io_stream_init_common_fields_def memory_sized_def
      split: sum.splits prod.splits)

lemma read_chunk_memory_sized:
  "memory_sized sz s \<Longrightarrow> bc_io_stream_read_chunk env s w = Some (c, s', w') \<Longrightarrow> w' = w \<and> memory_sized sz s'"
  by (auto simp: bc_io_stream_read_chunk_def bc_io_stream_read_chunk_memory_def Let_def memory_sized_def split: if_splits)

lemma take_chunks_memory:
  assumes "take_chunks (next_bytes env) k (mem, s) w = Some (bss, fin, st', w')" and "memory_sized sz s"
  shows "\<exists>s'. st' = (mem, s') \<and> w' = w \<and> memory_sized sz s'"
  using assms
proof (induction k arbitrary: s w bss)
  case (Suc k)
  obtain c s1 w1 where r: "bc_io_stream_read_chunk env s w = Some (c, s1, w1)"
    using Suc.prems(1) by (auto simp: next_bytes_def bind_eq_Some_conv)
  note m = read_chunk_memory_sized [OF Suc.prems(2) r]
  show ?case
  proof (cases c)
    case None
    then show ?thesis using Suc.prems(1) r m by (auto simp: next_bytes_def)
  next
    case (Some ch)
    then obtain bss1 where "take_chunks (next_bytes env) k (mem, s1) w1 = Some (bss1, fin, st', w')"
      using Suc.prems(1) r by (auto simp: next_bytes_def bind_eq_Some_conv)
    then show ?thesis using Suc.IH m by auto
  qed
qed auto

section \<open>Properties\<close>

text \<open>
  C21 One \<^verbatim>\<open>bc_io_stream_read_chunk\<close> on a descriptor stream that has not ended: it returns; a chunk is the
  start of the stream's buffer and holds exactly the bytes the kernel delivered during the call, at
  most a buffer full. The position advances by its size, and so does \<^verbatim>\<open>bytes_read\<close>; \<^verbatim>\<open>read_count\<close> is incremented,
  \<^verbatim>\<open>short_read_count\<close> is incremented exactly when the chunk is smaller than the buffer, and the other statistics are
  unchanged. The stream is marked ended exactly when the chunk is short because the call met the end of the
  file; a chunk that is short without that means that the descriptor would block. Without a chunk, either the end of the file was met with no byte
  delivered, or a \<^verbatim>\<open>read\<close> failed, and then position and statistics are unchanged.
\<close>

theorem read_chunk_exact:
  assumes "reads_bounded env" and "stalls_bounded N env" and "stream_ok s" and "readable s"
    and "stream_source_type s \<noteq> BC_IO_STREAM_SOURCE_MEMORY" and "\<not> stream_end_of_stream s"
  shows "\<exists>c s' w' h. bc_io_stream_read_chunk env s w = Some (c, s', w') \<and> trace w' = trace w @ h \<and>
    only_reads env (stream_file_descriptor s) (trace w) h \<and> stream_ok s' \<and> stream_frame s' = stream_frame s \<and>
    file_chunk_outcome s h c s'"
proof -
  have "source_ok ([], s) w" using assms(3-5) by (simp add: source_ok_def)
  from next_bytes_file [OF this assms(5,1,2,6)] show ?thesis by metis
qed

text \<open>A pipe with a five-byte buffer.\<close>

definition small_pipe :: bc_io_stream where
  "small_pipe = bc_io_stream_init_common_fields 64 1 128 192 [0, 0, 0, 0, 0] 5 BC_IO_STREAM_SOURCE_PIPE
     BC_IO_STREAM_MODE_READ 3 False"

theorem read_chunk_exact_witness:
  "\<exists>c s' w' h. bc_io_stream_read_chunk choppy_env small_pipe initial_world = Some (c, s', w') \<and>
    trace w' = trace initial_world @ h \<and>
    only_reads choppy_env (stream_file_descriptor small_pipe) (trace initial_world) h \<and> stream_ok s' \<and>
    stream_frame s' = stream_frame small_pipe \<and> file_chunk_outcome small_pipe h c s'"
  by (rule read_chunk_exact [OF choppy_env_ok(1,3)])
    (simp_all add: small_pipe_def bc_io_stream_init_common_fields_def stream_ok_def readable_def)

text \<open>
  C4 Reading a file through a stream. If the kernel serves the contents of a file on the descriptor
  (splitting and interrupting as it likes) and the requested buffer size can be rounded up, then
  opening the path for reading and calling \<^verbatim>\<open>bc_io_stream_read_chunk\<close> until it returns false gives chunks,
  none of them empty, whose concatenation is exactly the contents; more calls than the file has
  bytes are enough to get there, the stream then reports its end, and closing it releases
  everything that was acquired.
\<close>

theorem file_stream_reads_file:
  fixes w w1 :: "'w io_world_scheme"
  assumes "bc_core_ok env" and "reads_bounded env" and "writes_bounded env" and "stalls_bounded N env" and "reads_reliable env"
    and "addresses_ok env" and "unat n + 63 < 2 ^ 64"
    and "bc_io_stream_open_file env ctx path BC_IO_STREAM_MODE_READ n w = (Some s, w1)"
    and "serves env (stream_file_descriptor s) content" and "os_delivered (trace w) (stream_file_descriptor s) = []"
    and "k > length content"
  shows "\<exists>bss s' w2 w3. take_chunks (next_bytes env) k ([], s) w1 = Some (bss, True, ([], s'), w2) \<and>
    concat bss = content \<and> [] \<notin> set bss \<and> bc_io_stream_is_end_of_stream s' \<and>
    bc_io_stream_close env s' w2 = Some w3 \<and> (\<forall>r. balance (trace w3) r = balance (trace w) r)"
proof -
  have s: "freshly_open s" "stream_mode s = BC_IO_STREAM_MODE_READ" "stream_source_type s = BC_IO_STREAM_SOURCE_FILE"
    "\<And>r. balance (trace w1) r = balance (trace w) r + stream_holds s r"
    using open_file_spec [OF assms(8)] assms(6) by auto
  have d: "os_delivered (trace w1) (stream_file_descriptor s) = []"
    using open_file_transfers [of env ctx path BC_IO_STREAM_MODE_READ n w] assms(8,10) by (simp add: transfers_def)
  have inv: "finite_invar (env, content) ([], s) w1"
    using s open_file_buffer_nonzero [OF assms(1,7,8)] assms(2,4,5,9) d
    by (auto simp: finite_invar_def source_invar_def source_ok_def read_env_ok_def readable_def freshly_open_def)
  from file_source.take_chunks_whole [OF inv, of k] assms(11) s(3) obtain bss st' w2 where
    t: "take_chunks (next_bytes env) k ([], s) w1 = Some (bss, True, st', w2)" "finite_invar (env, content) st' w2"
      "source_ended st'" "concat bss = content" "[] \<notin> set bss"
    using d by (auto simp: finite_next_def source_whole_def given_bytes_def)
  obtain s' where st': "st' = ([], s')" and fr: "stream_frame s' = stream_frame s" "balance (trace w2) = balance (trace w1)"
    using take_chunks_frame [OF t(1)] inv by (auto simp: finite_invar_def)
  have ok: "stream_ok s'" using t(2) by (simp add: st' finite_invar_def source_invar_def source_ok_def)
  obtain w3 where cl: "bc_io_stream_close env s' w2 = Some w3"
    using close_returns [OF assms(3) ok assms(4)] by blast
  then have "balance (trace w3) r = balance (trace w) r" for r
    using close_spec [OF assms(1,3) ok cl] s(4) fr(2) stream_holds_cong [OF fr(1)] by (metis add_diff_cancel_right')
  then show ?thesis
    using t cl by (auto simp: st' source_ended_def bc_io_stream_is_end_of_stream_def)
qed

text \<open>A kernel that serves a three-byte file, at most two bytes at a time.\<close>

definition three_bytes_env :: io_env where
  "three_bytes_env = calm_env\<lparr>env_read := \<lambda>h fd n. Inr (take (min 2 (unat n)) (drop (length (os_delivered h fd)) [10, 20, 30]))\<rparr>"

lemma three_bytes_env_ok:
  "bc_core_ok three_bytes_env" "reads_bounded three_bytes_env" "writes_bounded three_bytes_env"
  "stalls_bounded 0 three_bytes_env" "reads_reliable three_bytes_env" "addresses_ok three_bytes_env"
  "serves three_bytes_env fd [10, 20, 30]"
  using calm_env_ok
  by (auto simp: three_bytes_env_def reads_bounded_def writes_bounded_def stalls_bounded_def reads_reliable_def
      addresses_ok_def serves_def take_is_prefix unat_eq_0 unat_gt_0 min_def split: if_splits)

theorem file_stream_reads_file_witness:
  "\<exists>s w1 bss s' w2 w3. bc_io_stream_open_file three_bytes_env 1 [97] BC_IO_STREAM_MODE_READ 64 initial_world = (Some s, w1) \<and>
    take_chunks (next_bytes three_bytes_env) 4 ([], s) w1 = Some (bss, True, ([], s'), w2) \<and>
    concat bss = [10, 20, 30] \<and> [] \<notin> set bss \<and> bc_io_stream_is_end_of_stream s' \<and>
    bc_io_stream_close three_bytes_env s' w2 = Some w3 \<and> (\<forall>r. balance (trace w3) r = balance (trace initial_world) r)"
proof -
  obtain res w1 where run: "bc_io_stream_open_file three_bytes_env 1 [97] BC_IO_STREAM_MODE_READ 64 initial_world = (res, w1)"
    by fastforce
  moreover have "res \<noteq> None"
    using run by (auto simp: bc_io_stream_open_file_def bc_io_stream_io_open_file_def three_bytes_env_def probe_file_def
        bc_io_stream_io_get_file_size_def bc_io_stream_io_advise_sequential_def
        bc_io_stream_allocate_with_buffer_def sys_defs answer_def Let_def split: if_splits)
  ultimately obtain s where s: "bc_io_stream_open_file three_bytes_env 1 [97] BC_IO_STREAM_MODE_READ 64 initial_world = (Some s, w1)"
    by auto
  then show ?thesis
    using file_stream_reads_file [OF three_bytes_env_ok(1-6) _ s three_bytes_env_ok(7), of 4]
    by (simp add: initial_world_def)
qed

text \<open>
  C22 Reading a memory region through a stream: for any region, opening it and calling
  \<^verbatim>\<open>bc_io_stream_read_chunk\<close> until it returns false gives the region's bytes, in order and without gaps or
  overlaps, in non-empty chunks; no system call is made, and the position ends at the size, so that
  nothing remains.
\<close>

theorem memory_stream_reads_region:
  assumes "read_env_ok env" and "bc_io_stream_open_memory env ctx data sz w = (Some s, w1)"
    and "length mem = unat sz" and "k > unat sz"
  shows "\<exists>bss s'. take_chunks (next_bytes env) k (mem, s) w1 = Some (bss, True, (mem, s'), w1) \<and>
    concat bss = mem \<and> [] \<notin> set bss \<and> bc_io_stream_is_end_of_stream s' \<and>
    bc_io_stream_current_position s' = sz \<and> bc_io_stream_remaining_bytes s' = Some 0"
proof -
  have s: "freshly_open s" "stream_mode s = BC_IO_STREAM_MODE_READ" "stream_source_type s = BC_IO_STREAM_SOURCE_MEMORY"
    "stream_memory_size s = sz" "stream_buffer_size s = 131072" and m0: "memory_sized sz s"
    using open_memory_spec [OF assms(2)] open_memory_sized [OF assms(2)] by auto
  have inv: "finite_invar (env, []) (mem, s) w1"
    using s assms(1,3) by (auto simp: finite_invar_def source_invar_def source_ok_def readable_def freshly_open_def)
  from file_source.take_chunks_whole [OF inv, of k] assms(3,4) s obtain bss st' w2 where
    t: "take_chunks (next_bytes env) k (mem, s) w1 = Some (bss, True, st', w2)" "finite_invar (env, []) st' w2"
      "source_ended st'" "concat bss = mem" "[] \<notin> set bss"
    by (auto simp: finite_next_def source_whole_def given_bytes_def freshly_open_def)
  obtain s' where st': "st' = (mem, s')" "w2 = w1" "memory_sized sz s'"
    using take_chunks_memory [OF t(1) m0] by blast
  show ?thesis
    using t st'(3) by (auto simp: st'(1,2) source_ended_def bc_io_stream_is_end_of_stream_def memory_sized_def
        bc_io_stream_current_position_def bc_io_stream_remaining_bytes_def finite_invar_def)
qed

theorem memory_stream_reads_region_witness:
  "\<exists>s w1 bss s'. bc_io_stream_open_memory three_bytes_env 1 4096 2 initial_world = (Some s, w1) \<and>
    take_chunks (next_bytes three_bytes_env) 3 ([8, 9], s) w1 = Some (bss, True, ([8, 9], s'), w1) \<and>
    concat bss = [8, 9] \<and> [] \<notin> set bss \<and> bc_io_stream_is_end_of_stream s' \<and>
    bc_io_stream_current_position s' = 2 \<and> bc_io_stream_remaining_bytes s' = Some 0"
proof -
  obtain s w1 where s: "bc_io_stream_open_memory three_bytes_env 1 4096 2 initial_world = (Some s, w1)"
    by (simp add: bc_io_stream_open_memory_def pool_allocate_def answer_def three_bytes_env_def)
  have "read_env_ok three_bytes_env" using three_bytes_env_ok by (auto simp: read_env_ok_def)
  then show ?thesis using memory_stream_reads_region [OF _ s, of "[8, 9]" 3] s by simp
qed

end
