(* ===== verification/IO_Path.thy ===== *)
theory IO_Path
  imports IO_Stream_Io
begin

text \<open>
  \<^verbatim>\<open>src/file/bc_io_file_path.c\<close> and \<^verbatim>\<open>src/path/bc_io_path.c\<close>: opening a path for reading with the \<^verbatim>\<open>O_NOATIME\<close>
  fallback, joining path components into a caller's buffer, classifying directory entries, and
  advice on a descriptor. A store outside the caller's buffer is undefined in C; \<^verbatim>\<open>path_join\<close> is \<open>None\<close> there.
\<close>

section \<open>Model\<close>

text \<open>The hint of \<^verbatim>\<open>bc_io_mmap.h\<close>; a C enumeration may hold a value outside its enumerators.\<close>

datatype bc_io_mmap_madvise_hint =
    BC_IO_MADVISE_NORMAL
  | BC_IO_MADVISE_SEQUENTIAL
  | BC_IO_MADVISE_RANDOM
  | BC_IO_MADVISE_WILLNEED
  | BC_IO_MADVISE_DONTNEED
  | BC_IO_MADVISE_unlisted int

datatype bc_io_file_entry_type =
    BC_IO_ENTRY_TYPE_FILE
  | BC_IO_ENTRY_TYPE_DIRECTORY
  | BC_IO_ENTRY_TYPE_SYMLINK
  | BC_IO_ENTRY_TYPE_OTHER

definition DT_UNKNOWN :: u8 where "DT_UNKNOWN = 0"
definition DT_DIR :: u8 where "DT_DIR = 4"
definition DT_REG :: u8 where "DT_REG = 8"
definition DT_LNK :: u8 where "DT_LNK = 10"
definition AT_SYMLINK_NOFOLLOW :: u32 where "AT_SYMLINK_NOFOLLOW = 0x100"

lemmas dt_defs = DT_UNKNOWN_def DT_DIR_def DT_REG_def DT_LNK_def

definition bc_io_file_open_for_read :: "io_env \<Rightarrow> bytes \<Rightarrow> u32 \<Rightarrow> 'w io_world_scheme \<Rightarrow> int option \<times> 'w io_world_scheme" where
  "bc_io_file_open_for_read env path additional_flags w =
     (let flags_with_noatime = O_RDONLY OR O_CLOEXEC OR O_NOFOLLOW OR O_NOATIME OR additional_flags;
          (file_descriptor, w) = sys_open env path flags_with_noatime 0 w;
          (file_descriptor, w) =
            (if file_descriptor < 0 \<and> errno w = EPERM then
               let flags_without_noatime = O_RDONLY OR O_CLOEXEC OR O_NOFOLLOW OR additional_flags
               in sys_open env path flags_without_noatime 0 w
             else (file_descriptor, w))
      in if file_descriptor < 0 then (None, w) else (Some file_descriptor, w))"

text \<open>A store of \<open>xs\<close> at offset \<open>i\<close> of a caller's buffer; \<open>None\<close> when it leaves the buffer.\<close>

definition store :: "nat \<Rightarrow> bytes \<Rightarrow> bytes \<Rightarrow> bytes option" where
  "store i xs buf = (if i + length xs \<le> length buf then Some (overwrite i xs buf) else None)"

text \<open>The result is \<^verbatim>\<open>*out_length\<close> (none where the C function returns false) and the buffer.\<close>

definition bc_io_file_path_join :: "io_env \<Rightarrow> bytes \<Rightarrow> size_t \<Rightarrow> bytes \<Rightarrow> size_t \<Rightarrow> bytes \<Rightarrow> size_t \<Rightarrow>
    (size_t option \<times> bytes) option" where
  "bc_io_file_path_join env buffer buffer_capacity base base_length name name_length =
     (if base_length = 0 then
        if name_length + 1 > buffer_capacity then Some (None, buffer)
        else do {
          buffer \<leftarrow> (if name_length > 0 then store 0 (core_copy env (take (unat name_length) name)) buffer else Some buffer);
          buffer \<leftarrow> store (unat name_length) [0] buffer;
          Some (Some name_length, buffer)
        }
      else
        let total_length = base_length + 1 + name_length
        in if total_length + 1 > buffer_capacity then Some (None, buffer)
           else do {
             buffer \<leftarrow> store 0 (core_copy env (take (unat base_length) base)) buffer;
             buffer \<leftarrow> store (unat base_length) [0x2F] buffer;
             buffer \<leftarrow> (if name_length > 0
                        then store (unat (base_length + 1)) (core_copy env (take (unat name_length) name)) buffer
                        else Some buffer);
             buffer \<leftarrow> store (unat total_length) [0] buffer;
             Some (Some total_length, buffer)
           })"

definition bc_io_file_dtype_to_entry_type :: "u8 \<Rightarrow> bc_io_file_entry_type" where
  "bc_io_file_dtype_to_entry_type d_type =
     (if d_type = DT_REG then BC_IO_ENTRY_TYPE_FILE
      else if d_type = DT_DIR then BC_IO_ENTRY_TYPE_DIRECTORY
      else if d_type = DT_LNK then BC_IO_ENTRY_TYPE_SYMLINK
      else BC_IO_ENTRY_TYPE_OTHER)"

text \<open>The \<^verbatim>\<open>S_ISxxx\<close> chain of \<^verbatim>\<open>bc_io_file_stat_if_unknown\<close>.\<close>

definition entry_type_of_mode :: "u32 \<Rightarrow> bc_io_file_entry_type" where
  "entry_type_of_mode mode =
     (if S_ISREG mode then BC_IO_ENTRY_TYPE_FILE
      else if S_ISDIR mode then BC_IO_ENTRY_TYPE_DIRECTORY
      else if S_ISLNK mode then BC_IO_ENTRY_TYPE_SYMLINK
      else BC_IO_ENTRY_TYPE_OTHER)"

definition bc_io_file_stat_if_unknown :: "io_env \<Rightarrow> int \<Rightarrow> bytes \<Rightarrow> 'w io_world_scheme \<Rightarrow>
    (bc_io_file_entry_type \<times> u64 \<times> u64 \<times> size_t \<times> u64) option \<times> 'w io_world_scheme" where
  "bc_io_file_stat_if_unknown env directory_file_descriptor name w =
     (case sys_fstatat env directory_file_descriptor name AT_SYMLINK_NOFOLLOW w of
        (Inl _, w) \<Rightarrow> (None, w)
      | (Inr st, w) \<Rightarrow>
          (Some (entry_type_of_mode (st_mode st), st_dev st, st_ino st, st_size st, st_mtim_sec st), w))"

definition fadvise_of_hint :: "bc_io_mmap_madvise_hint \<Rightarrow> u32 option" where
  "fadvise_of_hint hint =
     (case hint of
        BC_IO_MADVISE_NORMAL \<Rightarrow> Some POSIX_FADV_NORMAL
      | BC_IO_MADVISE_SEQUENTIAL \<Rightarrow> Some POSIX_FADV_SEQUENTIAL
      | BC_IO_MADVISE_RANDOM \<Rightarrow> Some POSIX_FADV_RANDOM
      | BC_IO_MADVISE_WILLNEED \<Rightarrow> Some POSIX_FADV_WILLNEED
      | BC_IO_MADVISE_DONTNEED \<Rightarrow> Some POSIX_FADV_DONTNEED
      | BC_IO_MADVISE_unlisted _ \<Rightarrow> None)"

definition bc_io_file_advise :: "io_env \<Rightarrow> int \<Rightarrow> size_t \<Rightarrow> size_t \<Rightarrow> bc_io_mmap_madvise_hint \<Rightarrow> 'w io_world_scheme \<Rightarrow>
    bool \<times> 'w io_world_scheme" where
  "bc_io_file_advise env file_descriptor off len hint w =
     (case fadvise_of_hint hint of
        None \<Rightarrow> (False, w)
      | Some posix_advice \<Rightarrow>
          (case sys_fadvise env file_descriptor off len posix_advice w of
             (result, w) \<Rightarrow> if result \<noteq> 0 then (False, set_errno result w) else (True, w)))"

text \<open>\<open>env_getcwd\<close> answers with the bytes it stored at the start of the buffer.\<close>

definition bc_io_path_current_directory :: "io_env \<Rightarrow> bytes \<Rightarrow> size_t \<Rightarrow> 'w io_world_scheme \<Rightarrow>
    (size_t option \<times> bytes) \<times> 'w io_world_scheme" where
  "bc_io_path_current_directory env output_buffer output_capacity w =
     (case sys_getcwd env output_capacity w of
        (Inl _, w) \<Rightarrow> ((None, output_buffer), w)
      | (Inr bs, w) \<Rightarrow>
          let output_buffer = overwrite 0 bs output_buffer
          in ((core_length env output_buffer 0, output_buffer), w))"

section \<open>Joining\<close>

text \<open>What joining means: a slash between the components unless the base is empty.\<close>

definition joined :: "bytes \<Rightarrow> bytes \<Rightarrow> bytes" where
  "joined base name = (if base = [] then name else base @ [0x2F] @ name)"

lemma joined_assoc: "b \<noteq> [] \<Longrightarrow> joined (joined a b) c = joined a (joined b c)"
  by (simp add: joined_def)

lemma joined_nonempty: "name \<noteq> [] \<Longrightarrow> joined base name \<noteq> []"
  by (simp add: joined_def)

lemma store_adjacent:
  "i + length xs + length ys \<le> length buf \<Longrightarrow>
   store (i + length xs) ys (overwrite i xs buf) = Some (overwrite i (xs @ ys) buf)"
  by (simp add: store_def overwrite_overwrite_adjacent)

lemma unat_plus1: "unat x + 1 < 2 ^ 64 \<Longrightarrow> unat (x + 1) = unat x + 1" for x :: u64
  by (simp add: unat_word_ariths)

lemma path_join_no_base:
  assumes core: "bc_core_ok env" and buf: "unat capacity \<le> length buffer" and name: "unat name_length \<le> length name"
    and small: "unat name_length + 2 < 2 ^ 64"
  shows "bc_io_file_path_join env buffer capacity base 0 name name_length =
    Some (if unat name_length < unat capacity
      then (Some name_length, overwrite 0 (take (unat name_length) name @ [0]) buffer) else (None, buffer))"
proof -
  let ?n = "take (unat name_length) name"
  have cap: "name_length + 1 > capacity \<longleftrightarrow> \<not> unat name_length < unat capacity"
    using unat_plus1 [of name_length] small by (simp add: word_less_nat_alt) linarith
  have len: "length ?n = unat name_length" using name by simp
  have "name_length > 0 \<longleftrightarrow> ?n \<noteq> []"
    unfolding word_gt_0 length_0_conv [symmetric] len by (auto simp: unat_eq_0)
  then have 1: "(if name_length > 0 then store 0 ?n buffer else Some buffer) = Some (overwrite 0 ?n buffer)"
    if "unat name_length < unat capacity"
    using that buf len by (simp add: store_def)
  have 2: "store (unat name_length) [0] (overwrite 0 ?n buffer) = Some (overwrite 0 (?n @ [0]) buffer)"
    if "unat name_length < unat capacity"
    using store_adjacent [of 0 ?n "[0]" buffer] that buf len by simp
  show ?thesis
    unfolding bc_io_file_path_join_def bc_core_okD(1) [OF core] cap using 1 2 by simp
qed

lemma path_join_base:
  assumes core: "bc_core_ok env" and buf: "unat capacity \<le> length buffer"
    and base: "unat base_length \<le> length base" "base_length \<noteq> 0" and name: "unat name_length \<le> length name"
    and small: "unat base_length + unat name_length + 2 < 2 ^ 64"
  shows "bc_io_file_path_join env buffer capacity base base_length name name_length =
    Some (if unat base_length + 1 + unat name_length < unat capacity
      then (Some (base_length + 1 + name_length),
        overwrite 0 (take (unat base_length) base @ [0x2F] @ take (unat name_length) name @ [0]) buffer)
      else (None, buffer))"
proof -
  let ?b = "take (unat base_length) base" and ?n = "take (unat name_length) name" and ?t = "base_length + 1 + name_length"
  have b1: "unat (base_length + 1) = unat base_length + 1" using unat_plus1 small by simp
  have t: "unat ?t = unat base_length + 1 + unat name_length"
    using unat_plus_if_small [of "base_length + 1" name_length] b1 small by simp
  have cap: "?t + 1 > capacity \<longleftrightarrow> \<not> unat base_length + 1 + unat name_length < unat capacity"
    using unat_plus1 [of ?t] t small by (simp add: word_less_nat_alt) linarith
  have len: "length ?b = unat base_length" "length ?n = unat name_length" using base name by simp_all
  have ne: "name_length > 0 \<longleftrightarrow> ?n \<noteq> []"
    unfolding word_gt_0 length_0_conv [symmetric] len by (auto simp: unat_eq_0)
  show ?thesis
  proof (cases "unat base_length + 1 + unat name_length < unat capacity")
    case fits: True
    then have room: "length ?b + 1 + length ?n + 1 \<le> length buffer" using buf len by simp
    have 1: "store 0 ?b buffer = Some (overwrite 0 ?b buffer)" using room by (simp add: store_def)
    have 2: "store (unat base_length) [0x2F] (overwrite 0 ?b buffer) = Some (overwrite 0 (?b @ [0x2F]) buffer)"
      using store_adjacent [of 0 ?b "[0x2F]" buffer] room len by simp
    have 3: "(if name_length > 0 then store (unat (base_length + 1)) ?n (overwrite 0 (?b @ [0x2F]) buffer)
        else Some (overwrite 0 (?b @ [0x2F]) buffer)) = Some (overwrite 0 (?b @ [0x2F] @ ?n) buffer)"
      using store_adjacent [of 0 "?b @ [0x2F]" ?n buffer] room b1 len ne by auto
    have 4: "store (unat ?t) [0] (overwrite 0 (?b @ [0x2F] @ ?n) buffer) =
        Some (overwrite 0 (?b @ [0x2F] @ ?n @ [0]) buffer)"
      using store_adjacent [of 0 "?b @ [0x2F] @ ?n" "[0]" buffer] room t len by simp
    show ?thesis
      unfolding bc_io_file_path_join_def bc_core_okD(1) [OF core] Let_def cap using base(2) fits 1 2 3 4 by simp
  next
    case False
    then show ?thesis unfolding bc_io_file_path_join_def Let_def cap using base(2) by simp
  qed
qed

lemma path_join_spec:
  assumes "bc_core_ok env" and "unat capacity \<le> length buffer" and "unat base_length \<le> length base"
    and "unat name_length \<le> length name" and "unat base_length + unat name_length + 2 < 2 ^ 64"
    and "path = joined (take (unat base_length) base) (take (unat name_length) name)"
  shows "bc_io_file_path_join env buffer capacity base base_length name name_length =
    Some (if length path < unat capacity then (Some (of_nat (length path)), overwrite 0 (path @ [0]) buffer)
      else (None, buffer))"
proof (cases "base_length = 0")
  case True
  then show ?thesis
    using path_join_no_base [OF assms(1,2,4)] assms(4-6) by (simp add: joined_def)
next
  case False
  then have "unat base_length \<noteq> 0" by (simp add: unat_eq_0)
  then have "path = take (unat base_length) base @ [0x2F] @ take (unat name_length) name"
    using assms(3,6) by (auto simp: joined_def)
  then show ?thesis
    using path_join_base [OF assms(1,2,3) False assms(4,5)] assms(3,4) by simp
qed

section \<open>The file-type field\<close>

lemma type_field_cases:
  obtains n where "n < 16" and "(mode :: u32) AND S_IFMT = push_bit 12 (of_nat n)"
proof
  let ?t = "take_bit 4 (drop_bit 12 mode)"
  show "unat ?t < 16" by (simp only: unsigned_take_bit_eq) (simp add: take_bit_eq_mod)
  have m: "S_IFMT = push_bit 12 (mask 4)" by (simp add: S_IFMT_def mask_eq_exp_minus_1 push_bit_eq_mult)
  have "mode AND S_IFMT = push_bit 12 ?t"
    unfolding m by (rule bit_word_eqI) (auto simp: bit_simps)
  then show "mode AND S_IFMT = push_bit 12 (of_nat (unat ?t))" by simp
qed

lemma entry_type_of_dtype:
  "entry_type_of_mode mode = bc_io_file_dtype_to_entry_type (ucast (drop_bit 12 (mode AND S_IFMT)))"
proof -
  obtain n where n: "n < 16" "mode AND S_IFMT = push_bit 12 (of_nat n)" by (rule type_field_cases)
  have "n \<in> set [0..<16]" using n(1) by simp
  then show ?thesis
    unfolding entry_type_of_mode_def bc_io_file_dtype_to_entry_type_def S_ISREG_def S_ISDIR_def S_ISLNK_def n(2)
    by (auto simp: upt_conv_Cons S_IFREG_def S_IFDIR_def S_IFLNK_def dt_defs)
qed

section \<open>Properties\<close>

text \<open>
  C33 \<^verbatim>\<open>bc_io_file_path_join\<close>: for components whose lengths do not overflow together, it stores the
  joined path and its terminator at the start of the buffer, touches nothing after it, and returns
  the length, exactly when path and terminator fit the capacity; otherwise it fails and the buffer
  is as before. No store leaves the buffer.
\<close>

theorem path_join_correct:
  assumes "bc_core_ok env" and "unat capacity \<le> length buffer" and "unat base_length \<le> length base"
    and "unat name_length \<le> length name" and "unat base_length + unat name_length + 2 < 2 ^ 64"
    and "path = joined (take (unat base_length) base) (take (unat name_length) name)"
  shows "bc_io_file_path_join env buffer capacity base base_length name name_length =
    Some (if length path < unat capacity then (Some (of_nat (length path)), overwrite 0 (path @ [0]) buffer)
      else (None, buffer))"
  by (rule path_join_spec [OF assms])

theorem path_join_correct_witness:
  "bc_io_file_path_join calm_env [9, 9, 9, 9, 9, 9] 6 [97] 1 [98, 99] 2 = Some (Some 4, [97, 0x2F, 98, 99, 0, 9]) \<and>
   bc_io_file_path_join calm_env [9, 9, 9, 9] 4 [97] 1 [98, 99] 2 = Some (None, [9, 9, 9, 9])"
  using path_join_correct [OF calm_env_ok(1), of 6 "[9, 9, 9, 9, 9, 9]" 1 "[97]" 2 "[98, 99]"]
    path_join_correct [OF calm_env_ok(1), of 4 "[9, 9, 9, 9]" 1 "[97]" 2 "[98, 99]"]
  by (simp add: joined_def overwrite_def)

text \<open>
  C34 \<^verbatim>\<open>bc_io_file_open_for_read\<close>: a descriptor it returns was opened for this path, close-on-exec and without
  following a symbolic link at the end, and is the only thing it acquires; it retries without
  \<^verbatim>\<open>O_NOATIME\<close> exactly when the first \<^verbatim>\<open>open\<close> failed with \<^verbatim>\<open>EPERM\<close>, and on failure it holds nothing and \<^verbatim>\<open>errno\<close>
  is the one of the last \<^verbatim>\<open>open\<close>.
\<close>

theorem open_for_read_correct:
  "\<exists>h res w'. bc_io_file_open_for_read env path extra w = (res, w') \<and> trace w' = trace w @ h \<and>
    (\<forall>r. balance (trace w') r = balance (trace w) r + (case res of Some fd \<Rightarrow> of_bool (r = Descriptor fd) | None \<Rightarrow> 0)) \<and>
    (let with = O_RDONLY OR O_CLOEXEC OR O_NOFOLLOW OR O_NOATIME OR extra;
         without = O_RDONLY OR O_CLOEXEC OR O_NOFOLLOW OR extra;
         first = env_open env (trace w) path with 0
     in case first of
          Inr fd \<Rightarrow> res = Some (int fd) \<and> h = [Ev_open path with 0 first]
        | Inl e \<Rightarrow>
            if e \<noteq> EPERM then res = None \<and> h = [Ev_open path with 0 first] \<and> errno w' = e
            else (case env_open env (trace w @ [Ev_open path with 0 first]) path without 0 of
                Inr fd \<Rightarrow> res = Some (int fd) \<and> h = [Ev_open path with 0 first, Ev_open path without 0 (Inr fd)]
              | Inl e' \<Rightarrow> res = None \<and> h = [Ev_open path with 0 first, Ev_open path without 0 (Inl e')] \<and> errno w' = e'))"
  by (auto simp: bc_io_file_open_for_read_def sys_open_def answer_def Let_def split: sum.splits)

text \<open>
  The guard of \<^verbatim>\<open>path_join\<close> adds one to a length that may be the largest: then it wraps to 0, the capacity
  check passes, and the terminator is stored far outside the buffer.
\<close>

lemma path_join_wraps:
  assumes "unat capacity \<le> length buffer" and "length buffer < 2 ^ 64 - 1"
  shows "bc_io_file_path_join env buffer capacity [] 0 name (- 1) = None"
proof -
  have "unat (- 1 :: u64) = 2 ^ 64 - 1" by (simp only: unsigned_minus_1_eq_mask) (simp add: mask_eq_exp_minus_1)
  then show ?thesis
    using assms by (simp add: bc_io_file_path_join_def store_def word_gt_0)
qed

end
