(* ===== verification/IO_File_Stat.thy ===== *)
theory IO_File_Stat
  imports IO_Path
begin

text \<open>
  \<^verbatim>\<open>src/file/bc_io_file_stat.c\<close>: the portable file status. The output object is cleared first
  (\<^verbatim>\<open>bc_core_zero\<close>), which may fail; every field of the result is then assigned.
\<close>

section \<open>Model\<close>

record bc_io_file_stat_t =
  is_regular :: bool
  is_directory :: bool
  is_symlink :: bool
  is_character_device :: bool
  is_block_device :: bool
  is_fifo :: bool
  is_socket :: bool
  size_bytes :: u64
  file_mode :: u32
  modification_time_seconds :: u64
  modification_time_nanoseconds :: u32
  hardlink_count :: u64
  owner_user_id :: u32
  group_id :: u32
  device_id :: u64
  inode_number :: u64

definition BC_IO_FILE_STAT_PERMISSION_BITS_MASK :: u32 where
  "BC_IO_FILE_STAT_PERMISSION_BITS_MASK = 0xFFF"

definition sizeof_bc_io_file_stat :: size_t where
  "sizeof_bc_io_file_stat = 72"

definition bc_io_file_stat_fill_from_struct_stat :: "io_env \<Rightarrow> c_stat \<Rightarrow> bc_io_file_stat_t option" where
  "bc_io_file_stat_fill_from_struct_stat env source =
     (if \<not> fst (core_zero env sizeof_bc_io_file_stat) then None
      else
        let mode = st_mode source
        in Some \<lparr>is_regular = S_ISREG mode, is_directory = S_ISDIR mode, is_symlink = S_ISLNK mode,
             is_character_device = S_ISCHR mode, is_block_device = S_ISBLK mode, is_fifo = S_ISFIFO mode,
             is_socket = S_ISSOCK mode, size_bytes = st_size source,
             file_mode = mode AND BC_IO_FILE_STAT_PERMISSION_BITS_MASK,
             modification_time_seconds = st_mtim_sec source,
             modification_time_nanoseconds = ucast (st_mtim_nsec source),
             hardlink_count = st_nlink source, owner_user_id = st_uid source, group_id = st_gid source,
             device_id = st_dev source, inode_number = st_ino source\<rparr>)"

definition bc_io_file_stat :: "io_env \<Rightarrow> bytes \<Rightarrow> 'w io_world_scheme \<Rightarrow> bc_io_file_stat_t option \<times> 'w io_world_scheme" where
  "bc_io_file_stat env path w =
     (case sys_stat env path w of
        (Inl _, w) \<Rightarrow> (None, w)
      | (Inr stat_buffer, w) \<Rightarrow> (bc_io_file_stat_fill_from_struct_stat env stat_buffer, w))"

definition bc_io_file_stat_lstat :: "io_env \<Rightarrow> bytes \<Rightarrow> 'w io_world_scheme \<Rightarrow> bc_io_file_stat_t option \<times> 'w io_world_scheme" where
  "bc_io_file_stat_lstat env path w =
     (case sys_lstat env path w of
        (Inl _, w) \<Rightarrow> (None, w)
      | (Inr stat_buffer, w) \<Rightarrow> (bc_io_file_stat_fill_from_struct_stat env stat_buffer, w))"

section \<open>The mode, taken apart and put together\<close>

text \<open>The file-type field that a set of flags stands for.\<close>

definition type_field :: "bc_io_file_stat_t \<Rightarrow> u32" where
  "type_field s =
     (if is_regular s then S_IFREG else if is_directory s then S_IFDIR else if is_symlink s then S_IFLNK
      else if is_character_device s then S_IFCHR else if is_block_device s then S_IFBLK
      else if is_fifo s then S_IFIFO else if is_socket s then S_IFSOCK else 0)"

definition flag_count :: "bc_io_file_stat_t \<Rightarrow> nat" where
  "flag_count s = of_bool (is_regular s) + of_bool (is_directory s) + of_bool (is_symlink s) +
     of_bool (is_character_device s) + of_bool (is_block_device s) + of_bool (is_fifo s) + of_bool (is_socket s)"

lemma mode_split: "(m AND 0xFFF) OR (m AND S_IFMT) = (m :: u32) AND 0xFFFF"
proof -
  have "S_IFMT OR 0xFFF = 0xFFFF" by (simp add: S_IFMT_def)
  then show ?thesis by (metis word_ao_dist2 or.commute)
qed

text \<open>What a status says about the kernel's.\<close>

definition stat_faithful :: "c_stat \<Rightarrow> bc_io_file_stat_t \<Rightarrow> bool" where
  "stat_faithful st s \<longleftrightarrow>
     flag_count s = of_bool (st_mode st AND S_IFMT \<in>
       {S_IFREG, S_IFDIR, S_IFLNK, S_IFCHR, S_IFBLK, S_IFIFO, S_IFSOCK}) \<and>
     (flag_count s = 1 \<longrightarrow> file_mode s OR type_field s = st_mode st AND 0xFFFF) \<and>
     file_mode s = st_mode st AND 0xFFF \<and> size_bytes s = st_size st \<and> owner_user_id s = st_uid st \<and>
     group_id s = st_gid st \<and> hardlink_count s = st_nlink st \<and> device_id s = st_dev st \<and> inode_number s = st_ino st \<and>
     modification_time_seconds s = st_mtim_sec st \<and>
     (unat (st_mtim_nsec st) < 1000000000 \<longrightarrow> unat (modification_time_nanoseconds s) = unat (st_mtim_nsec st))"

lemma nanoseconds_fit: "unat (n :: u64) < 1000000000 \<Longrightarrow> unat (ucast n :: u32) = unat n"
  by (simp only: unsigned_ucast_eq) (simp add: take_bit_nat_eq_self)

text \<open>The status as a function of the file-type field.\<close>

lemma fill_eq:
  assumes "bc_core_ok env"
  shows "bc_io_file_stat_fill_from_struct_stat env st = (let f = st_mode st AND S_IFMT in
    Some \<lparr>is_regular = f = S_IFREG, is_directory = f = S_IFDIR, is_symlink = f = S_IFLNK,
      is_character_device = f = S_IFCHR, is_block_device = f = S_IFBLK, is_fifo = f = S_IFIFO,
      is_socket = f = S_IFSOCK, size_bytes = st_size st, file_mode = st_mode st AND 0xFFF,
      modification_time_seconds = st_mtim_sec st, modification_time_nanoseconds = ucast (st_mtim_nsec st),
      hardlink_count = st_nlink st, owner_user_id = st_uid st, group_id = st_gid st,
      device_id = st_dev st, inode_number = st_ino st\<rparr>)"
  unfolding bc_io_file_stat_fill_from_struct_stat_def bc_core_okD(3) [OF assms] file_test_defs Let_def
    BC_IO_FILE_STAT_PERMISSION_BITS_MASK_def by simp

lemma flags_of_field:
  assumes "is_regular s = (f = S_IFREG)" "is_directory s = (f = S_IFDIR)" "is_symlink s = (f = S_IFLNK)"
    "is_character_device s = (f = S_IFCHR)" "is_block_device s = (f = S_IFBLK)" "is_fifo s = (f = S_IFIFO)"
    "is_socket s = (f = S_IFSOCK)"
  shows "flag_count s = of_bool (f \<in> {S_IFREG, S_IFDIR, S_IFLNK, S_IFCHR, S_IFBLK, S_IFIFO, S_IFSOCK})"
    and "flag_count s = 1 \<Longrightarrow> type_field s = f"
proof -
  consider "f = S_IFREG" | "f = S_IFDIR" | "f = S_IFLNK" | "f = S_IFCHR" | "f = S_IFBLK" | "f = S_IFIFO" | "f = S_IFSOCK"
    | "f \<notin> {S_IFREG, S_IFDIR, S_IFLNK, S_IFCHR, S_IFBLK, S_IFIFO, S_IFSOCK}" by blast
  then have "flag_count s = of_bool (f \<in> {S_IFREG, S_IFDIR, S_IFLNK, S_IFCHR, S_IFBLK, S_IFIFO, S_IFSOCK}) \<and>
      (flag_count s = 1 \<longrightarrow> type_field s = f)"
    by cases (simp_all add: flag_count_def type_field_def assms file_type_defs)
  then show "flag_count s = of_bool (f \<in> {S_IFREG, S_IFDIR, S_IFLNK, S_IFCHR, S_IFBLK, S_IFIFO, S_IFSOCK})"
    and "flag_count s = 1 \<Longrightarrow> type_field s = f" by blast+
qed

lemma fill_faithful:
  assumes "bc_core_ok env"
  shows "\<exists>s. bc_io_file_stat_fill_from_struct_stat env st = Some s \<and> stat_faithful st s"
proof -
  obtain s where s: "bc_io_file_stat_fill_from_struct_stat env st = Some s"
    by (simp add: fill_eq [OF assms] Let_def)
  note eq = s [unfolded fill_eq [OF assms] Let_def, THEN option.inject [THEN iffD1], symmetric]
  have m: "file_mode s = st_mode st AND 0xFFF" unfolding eq by simp
  have "flag_count s = of_bool (st_mode st AND S_IFMT \<in> {S_IFREG, S_IFDIR, S_IFLNK, S_IFCHR, S_IFBLK, S_IFIFO, S_IFSOCK})"
    and field: "flag_count s = 1 \<Longrightarrow> type_field s = st_mode st AND S_IFMT"
    by (rule flags_of_field; simp only: eq bc_io_file_stat_t.select_convs)+
  moreover have "file_mode s OR type_field s = st_mode st AND 0xFFFF" if "flag_count s = 1"
    unfolding field [OF that] m by (rule mode_split)
  moreover have "size_bytes s = st_size st" "owner_user_id s = st_uid st" "group_id s = st_gid st"
    "hardlink_count s = st_nlink st" "device_id s = st_dev st" "inode_number s = st_ino st"
    "modification_time_seconds s = st_mtim_sec st" "modification_time_nanoseconds s = ucast (st_mtim_nsec st)"
    by (simp_all only: eq bc_io_file_stat_t.select_convs)
  ultimately show ?thesis using s m nanoseconds_fit unfolding stat_faithful_def by metis
qed

section \<open>Properties\<close>

text \<open>
  C35 \<^verbatim>\<open>bc_io_file_stat\<close> and \<^verbatim>\<open>bc_io_file_stat_lstat\<close> make exactly one call each (\<^verbatim>\<open>stat\<close> and \<^verbatim>\<open>lstat\<close>), fail exactly
  when it fails, with its \<^verbatim>\<open>errno\<close>, and otherwise report the status faithfully: exactly one of the seven
  type flags is set when the mode has a defined file type and none otherwise; flags and \<^verbatim>\<open>mode\<close>
  together determine the sixteen bits of \<^verbatim>\<open>st_mode\<close>; size, owner, group, link count, device, inode and
  the seconds of the modification time are the kernel's, and so are nanoseconds below one billion.
\<close>

theorem file_stat_faithful:
  assumes "bc_core_ok env"
  shows "(case env_stat env (trace w) path of
      Inl e \<Rightarrow> fst (bc_io_file_stat env path w) = None \<and> errno (snd (bc_io_file_stat env path w)) = e
    | Inr st \<Rightarrow> (\<exists>s. fst (bc_io_file_stat env path w) = Some s \<and> stat_faithful st s)) \<and>
    trace (snd (bc_io_file_stat env path w)) = trace w @ [Ev_stat path (env_stat env (trace w) path)] \<and>
    (case env_lstat env (trace w) path of
      Inl e \<Rightarrow> fst (bc_io_file_stat_lstat env path w) = None \<and> errno (snd (bc_io_file_stat_lstat env path w)) = e
    | Inr st \<Rightarrow> (\<exists>s. fst (bc_io_file_stat_lstat env path w) = Some s \<and> stat_faithful st s)) \<and>
    trace (snd (bc_io_file_stat_lstat env path w)) = trace w @ [Ev_lstat path (env_lstat env (trace w) path)]"
  using fill_faithful [OF assms]
  by (simp add: bc_io_file_stat_def bc_io_file_stat_lstat_def sys_stat_def sys_lstat_def answer_def split: sum.split)

theorem file_stat_faithful_witness:
  "(\<exists>s. fst (bc_io_file_stat calm_env [97] initial_world) = Some s \<and> stat_faithful plain_stat s) \<and>
    trace (snd (bc_io_file_stat calm_env [97] initial_world)) =
      trace initial_world @ [Ev_stat [97] (Inr plain_stat)]"
  using file_stat_faithful [OF calm_env_ok(1), of "[97]" initial_world] by (simp add: calm_env_def)

end
