(* ===== verification/IO_Random.thy ===== *)
theory IO_Random
  imports IO_Env
begin

text \<open>
  \<^verbatim>\<open>src/random/bc_io_random.c\<close>: random bytes from \<^verbatim>\<open>getrandom\<close>, with a fallback to \<^verbatim>\<open>/dev/urandom\<close> whose
  descriptor is opened once per thread and kept. The thread-local variable is a field of the world.
  The pointer \<^verbatim>\<open>output\<close> is the object it points to with the offset the code has advanced it by; the
  null pointer is \<open>None\<close>.
\<close>

section \<open>Model\<close>

record random_world = io_world +
  urandom_descriptor :: int

definition dev_urandom :: bytes where
  "dev_urandom = [47, 100, 101, 118, 47, 117, 114, 97, 110, 100, 111, 109]"

definition bc_io_random_open_urandom :: "io_env \<Rightarrow> 'w random_world_scheme \<Rightarrow> bool \<times> 'w random_world_scheme" where
  "bc_io_random_open_urandom env w =
     (if urandom_descriptor w \<ge> 0 then (True, w)
      else case sys_open env dev_urandom (O_RDONLY OR O_CLOEXEC) 0 w of
        (descriptor, w) \<Rightarrow> if descriptor < 0 then (False, w) else (True, w\<lparr>urandom_descriptor := descriptor\<rparr>))"

definition read_urandom_body :: "io_env \<Rightarrow> bytes \<times> nat \<times> size_t \<times> 'w random_world_scheme \<Rightarrow>
    bytes \<times> nat \<times> size_t \<times> 'w random_world_scheme + (bool \<times> bytes) \<times> 'w random_world_scheme" where
  "read_urandom_body env = (\<lambda>(output, off, remaining, w).
     if remaining > 0 then
       (case sys_read env (urandom_descriptor w) remaining w of
          (Inl _, w) \<Rightarrow> if errno w = EINTR then Inl (output, off, remaining, w) else Inr ((False, output), w)
        | (Inr bs, w) \<Rightarrow>
            if bs = [] then Inr ((False, output), w)
            else Inl (overwrite off bs output, off + length bs, remaining - of_nat (length bs), w))
     else Inr ((True, output), w))"

definition bc_io_random_read_urandom :: "io_env \<Rightarrow> bytes \<Rightarrow> nat \<Rightarrow> size_t \<Rightarrow> 'w random_world_scheme \<Rightarrow>
    ((bool \<times> bytes) \<times> 'w random_world_scheme) option" where
  "bc_io_random_read_urandom env output off len w =
     (case bc_io_random_open_urandom env w of
        (opened, w) \<Rightarrow> if \<not> opened then Some ((False, output), w)
          else iterate (read_urandom_body env) (output, off, len, w))"

text \<open>The loop of \<^verbatim>\<open>bc_io_random_bytes\<close> leaves with \<open>Inl\<close> to the fallback and with \<open>Inr\<close> when it is done.\<close>

definition getrandom_body :: "io_env \<Rightarrow> bytes \<times> nat \<times> size_t \<times> 'w random_world_scheme \<Rightarrow>
    bytes \<times> nat \<times> size_t \<times> 'w random_world_scheme +
    (bytes \<times> nat \<times> size_t \<times> 'w random_world_scheme + bytes \<times> 'w random_world_scheme)" where
  "getrandom_body env = (\<lambda>(buffer, off, remaining, w).
     if remaining > 0 then
       (case sys_getrandom env remaining 0 w of
          (Inl _, w) \<Rightarrow> if errno w = EINTR then Inl (buffer, off, remaining, w) else Inr (Inl (buffer, off, remaining, w))
        | (Inr bs, w) \<Rightarrow> Inl (overwrite off bs buffer, off + length bs, remaining - of_nat (length bs), w))
     else Inr (Inr (buffer, w)))"

definition bc_io_random_bytes :: "io_env \<Rightarrow> bytes option \<Rightarrow> size_t \<Rightarrow> 'w random_world_scheme \<Rightarrow>
    ((bool \<times> bytes option) \<times> 'w random_world_scheme) option" where
  "bc_io_random_bytes env output len w =
     (if len = 0 then Some ((True, output), w)
      else case output of
        None \<Rightarrow> Some ((False, None), w)
      | Some buffer \<Rightarrow> do {
          leave \<leftarrow> iterate (getrandom_body env) (buffer, 0, len, w);
          case leave of
            Inl (buffer, off, remaining, w) \<Rightarrow>
              map_option (\<lambda>((ok, buffer), w). ((ok, Some buffer), w)) (bc_io_random_read_urandom env buffer off remaining w)
          | Inr (buffer, w) \<Rightarrow> Some ((True, Some buffer), w)
        })"

text \<open>The object \<^verbatim>\<open>*out_value\<close> is its eight bytes.\<close>

definition bc_io_random_unsigned_integer_64 :: "io_env \<Rightarrow> bytes option \<Rightarrow> 'w random_world_scheme \<Rightarrow>
    ((bool \<times> bytes option) \<times> 'w random_world_scheme) option" where
  "bc_io_random_unsigned_integer_64 env out_value w =
     (case out_value of None \<Rightarrow> Some ((False, None), w) | Some _ \<Rightarrow> bc_io_random_bytes env out_value 8 w)"

section \<open>The loops\<close>

text \<open>The bytes the kernel supplied, from either source, in order.\<close>

fun supplied_by :: "event \<Rightarrow> bytes" where
  "supplied_by (Ev_getrandom _ _ (Inr bs)) = bs"
| "supplied_by (Ev_read _ _ (Inr bs)) = bs"
| "supplied_by _ = []"

definition supplied :: "history \<Rightarrow> bytes" where
  "supplied h = concat (map supplied_by h)"

lemma supplied_simps [simp]:
  "supplied [] = []" "supplied (ev # h) = supplied_by ev @ supplied h" "supplied (h @ k) = supplied h @ supplied k"
  by (simp_all add: supplied_def)

text \<open>
  The invariant of both loops: since the call began, the supplied bytes were stored at the start of
  the output and the rest of it is untouched; offset and remaining count are consistent.
\<close>

definition filling :: "bytes \<Rightarrow> size_t \<Rightarrow> 'w random_world_scheme \<Rightarrow> bytes \<times> nat \<times> size_t \<times> 'w random_world_scheme \<Rightarrow> bool" where
  "filling out0 len w0 = (\<lambda>(output, off, remaining, w). \<exists>h. trace w = trace w0 @ h \<and>
     output = overwrite 0 (supplied h) out0 \<and> off = length (supplied h) \<and> off + unat remaining = unat len)"

lemma filling_store:
  assumes inv: "filling out0 len w0 (output, off, remaining, w)" and "length bs \<le> unat remaining" and "unat len \<le> length out0"
    and "trace w' = trace w @ [ev]" and "supplied_by ev = bs"
  shows "filling out0 len w0 (overwrite off bs output, off + length bs, remaining - of_nat (length bs), w')"
    and "unat (remaining - of_nat (length bs)) = unat remaining - length bs"
proof -
  have "length bs < 2 ^ 64" using assms(2) unat_less64 [of remaining] by simp
  then have u: "unat (of_nat (length bs) :: u64) = length bs" by (rule unat_of_nat64)
  have "of_nat (length bs) \<le> remaining" using assms(2) u by (simp add: word_le_nat_alt)
  then show r: "unat (remaining - of_nat (length bs)) = unat remaining - length bs" by (simp add: unat_minus_le u)
  obtain h where h: "trace w = trace w0 @ h" "output = overwrite 0 (supplied h) out0" "off = length (supplied h)"
    "off + unat remaining = unat len" using inv by (auto simp: filling_def)
  have "overwrite off bs output = overwrite 0 (supplied h @ bs) out0"
    using overwrite_overwrite_adjacent [of 0 out0 "supplied h" bs] h(2,3) by simp
  then show "filling out0 len w0 (overwrite off bs output, off + length bs, remaining - of_nat (length bs), w')"
    unfolding filling_def using h assms(2,4,5) r by (auto intro!: exI [of _ "h @ [ev]"])
qed

lemma filling_wait:
  assumes "filling out0 len w0 (output, off, remaining, w)" and "trace w' = trace w @ [ev]" and "supplied_by ev = []"
  shows "filling out0 len w0 (output, off, remaining, w')"
proof -
  obtain h where "trace w = trace w0 @ h" "output = overwrite 0 (supplied h) out0" "off = length (supplied h)"
    "off + unat remaining = unat len" using assms(1) by (auto simp: filling_def)
  then show ?thesis using assms(2,3) unfolding filling_def by (auto intro!: exI [of _ "h @ [ev]"])
qed

lemma urandom_descriptor_answer [simp]: "urandom_descriptor (snd (answer ev r w)) = urandom_descriptor w"
  by (simp add: answer_def log_event_def set_errno_def split: sum.split)

lemma errno_answer_error: "errno (snd (answer ev (Inl e) w)) = e"
  by (simp add: answer_def)

definition left :: "nat \<Rightarrow> bytes \<times> nat \<times> size_t \<times> 'w random_world_scheme \<Rightarrow> nat" where
  "left N = (\<lambda>(output, off, remaining, w). (N - stalls (trace w)) + unat remaining)"

definition descriptor_is :: "int \<Rightarrow> bytes \<times> nat \<times> size_t \<times> 'w random_world_scheme \<Rightarrow> bool" where
  "descriptor_is fd = (\<lambda>(output, off, remaining, w). urandom_descriptor w = fd)"

text \<open>A round that goes on keeps the invariant and uses up a stall or some of what remains.\<close>

lemma getrandom_step:
  assumes env: "getrandom_bounded env" "stalls_bounded N env" and len: "unat len \<le> length out0"
    and inv: "filling out0 len w0 st \<and> descriptor_is fd st" and step: "getrandom_body env st = Inl st'"
  shows "(filling out0 len w0 st' \<and> descriptor_is fd st') \<and> left N st' < left N st"
proof -
  obtain out off remaining w where st: "st = (out, off, remaining, w)" by (metis surj_pair)
  let ?r = "env_getrandom env (trace w) remaining 0"
  let ?w = "snd (answer (Ev_getrandom remaining 0) ?r w)"
  have call: "sys_getrandom env remaining 0 w = (?r, ?w)" by (simp add: sys_getrandom_def prod_eq_iff)
  have pos: "remaining > 0" using step by (auto simp: getrandom_body_def st split: if_splits)
  have stall: "stalled (Ev_getrandom remaining 0 ?r) \<Longrightarrow> stalls (trace w) < N" using stalls_boundedD(3) [OF env(2)] by blast
  show ?thesis
  proof (cases ?r)
    case (Inl e)
    then have "st' = (out, off, remaining, ?w)" "e = EINTR"
      using step pos call by (auto simp: getrandom_body_def st errno_answer_error split: if_splits)
    then show ?thesis
      using inv filling_wait [of out0 len w0 out off remaining w ?w] stall Inl by (simp add: st left_def descriptor_is_def)
  next
    case (Inr bs)
    have st': "st' = (overwrite off bs out, off + length bs, remaining - of_nat (length bs), ?w)"
      using step pos call Inr by (auto simp: getrandom_body_def st split: if_splits)
    have le: "length bs \<le> unat remaining" using env(1) Inr by (auto simp: getrandom_bounded_def)
    note f = filling_store [of out0 len w0 out off remaining w bs ?w "Ev_getrandom remaining 0 ?r"]
    have "filling out0 len w0 st'" and r: "unat (remaining - of_nat (length bs)) = unat remaining - length bs"
      using f inv le len Inr by (simp_all add: st st')
    moreover have "left N st' < left N st"
    proof (cases "bs = []")
      case True
      moreover have "remaining \<noteq> 0" using pos by auto
      ultimately show ?thesis using stall Inr by (simp add: st st' left_def)
    next
      case False
      then have "length bs > 0" by simp
      then show ?thesis using r le Inr False by (simp add: st st' left_def del: length_greater_0_conv)
    qed
    ultimately show ?thesis using inv by (simp add: st st' descriptor_is_def)
  qed
qed

lemma read_urandom_step:
  assumes env: "reads_bounded env" "stalls_bounded N env" and len: "unat len \<le> length out0"
    and inv: "filling out0 len w0 st \<and> descriptor_is fd st" and step: "read_urandom_body env st = Inl st'"
  shows "(filling out0 len w0 st' \<and> descriptor_is fd st') \<and> left N st' < left N st"
proof -
  obtain out off remaining w where st: "st = (out, off, remaining, w)" by (metis surj_pair)
  let ?r = "env_read env (trace w) (urandom_descriptor w) remaining"
  let ?w = "snd (answer (Ev_read (urandom_descriptor w) remaining) ?r w)"
  have call: "sys_read env (urandom_descriptor w) remaining w = (?r, ?w)" by (simp add: sys_read_def prod_eq_iff)
  have pos: "remaining > 0" using step by (auto simp: read_urandom_body_def st split: if_splits)
  have stall: "stalled (Ev_read (urandom_descriptor w) remaining ?r) \<Longrightarrow> stalls (trace w) < N"
    using stalls_boundedD(1) [OF env(2)] by blast
  show ?thesis
  proof (cases ?r)
    case (Inl e)
    then have "st' = (out, off, remaining, ?w)" "e = EINTR"
      using step pos call by (auto simp: read_urandom_body_def st errno_answer_error split: if_splits)
    then show ?thesis
      using inv filling_wait [of out0 len w0 out off remaining w ?w] stall Inl by (simp add: st left_def descriptor_is_def)
  next
    case (Inr bs)
    have st': "st' = (overwrite off bs out, off + length bs, remaining - of_nat (length bs), ?w)" "length bs > 0"
      using step pos call Inr by (auto simp: read_urandom_body_def st split: if_splits)
    have le: "length bs \<le> unat remaining" using env(1) Inr by (auto simp: reads_bounded_def)
    note f = filling_store [of out0 len w0 out off remaining w bs ?w "Ev_read (urandom_descriptor w) remaining ?r"]
    have "filling out0 len w0 st'" and r: "unat (remaining - of_nat (length bs)) = unat remaining - length bs"
      using f inv le len Inr by (simp_all add: st st'(1))
    then show ?thesis
      using inv st'(2) le Inr by (simp add: st st'(1) descriptor_is_def left_def del: length_greater_0_conv)
  qed
qed

text \<open>How the loops leave.\<close>

definition filled :: "bytes \<Rightarrow> size_t \<Rightarrow> 'w random_world_scheme \<Rightarrow> int \<Rightarrow> (bool \<times> bytes) \<times> 'w random_world_scheme \<Rightarrow> bool" where
  "filled out0 len w0 fd = (\<lambda>((ok, out), w). \<exists>h. trace w = trace w0 @ h \<and>
     out = overwrite 0 (supplied h) out0 \<and> length (supplied h) \<le> unat len \<and> (ok \<longleftrightarrow> length (supplied h) = unat len) \<and>
     urandom_descriptor w = fd)"

lemma read_urandom_leave:
  assumes inv: "filling out0 len w0 st \<and> descriptor_is fd st" and step: "read_urandom_body env st = Inr res"
  shows "filled out0 len w0 fd res"
proof -
  obtain out off remaining w where st: "st = (out, off, remaining, w)" by (metis surj_pair)
  obtain h where h: "trace w = trace w0 @ h" "out = overwrite 0 (supplied h) out0" "off = length (supplied h)"
    "off + unat remaining = unat len" "urandom_descriptor w = fd" using inv by (auto simp: filling_def descriptor_is_def st)
  show ?thesis
  proof (cases "remaining > 0")
    case False
    then have "res = ((True, out), w)" using step by (simp add: read_urandom_body_def st)
    then show ?thesis using h False by (simp add: filled_def word_gt_0)
  next
    case True
    let ?r = "env_read env (trace w) (urandom_descriptor w) remaining"
    let ?w = "snd (answer (Ev_read (urandom_descriptor w) remaining) ?r w)"
    have call: "sys_read env (urandom_descriptor w) remaining w = (?r, ?w)" by (simp add: sys_read_def prod_eq_iff)
    have "res = ((False, out), ?w)" "supplied_by (Ev_read (urandom_descriptor w) remaining ?r) = []"
      using step True call by (auto simp: read_urandom_body_def st split: sum.splits if_splits)
    moreover have "unat remaining > 0" using True by (simp add: word_gt_0 unat_gt_0)
    ultimately show ?thesis
      using h by (auto simp: filled_def intro!: exI [of _ "h @ [Ev_read (urandom_descriptor w) remaining ?r]"])
  qed
qed

lemma getrandom_leave:
  assumes inv: "filling out0 len w0 st \<and> descriptor_is fd st" and step: "getrandom_body env st = Inr res"
  shows "case res of Inl st' \<Rightarrow> filling out0 len w0 st' \<and> descriptor_is fd st'
    | Inr (out, w) \<Rightarrow> filled out0 len w0 fd ((True, out), w)"
proof -
  obtain out off remaining w where st: "st = (out, off, remaining, w)" by (metis surj_pair)
  show ?thesis
  proof (cases "remaining > 0")
    case False
    then have "res = Inr (out, w)" using step by (simp add: getrandom_body_def st)
    then show ?thesis using inv False by (auto simp: filled_def filling_def descriptor_is_def st word_gt_0)
  next
    case True
    let ?r = "env_getrandom env (trace w) remaining 0"
    let ?w = "snd (answer (Ev_getrandom remaining 0) ?r w)"
    have call: "sys_getrandom env remaining 0 w = (?r, ?w)" by (simp add: sys_getrandom_def prod_eq_iff)
    have "res = Inl (out, off, remaining, ?w)" "supplied_by (Ev_getrandom remaining 0 ?r) = []"
      using step True call by (auto simp: getrandom_body_def st split: sum.splits if_splits)
    then show ?thesis
      using inv filling_wait [of out0 len w0 out off remaining w ?w] by (simp add: st descriptor_is_def)
  qed
qed

lemma open_urandom_spec:
  assumes inv: "filling out0 len w0 (out, off, remaining, w)" and run: "bc_io_random_open_urandom env w = (ok, w')"
  shows "filling out0 len w0 (out, off, remaining, w')" and "ok \<longleftrightarrow> urandom_descriptor w' \<ge> 0"
    and "\<not> ok \<Longrightarrow> urandom_descriptor w' = urandom_descriptor w"
proof -
  let ?r = "env_open env (trace w) dev_urandom (O_RDONLY OR O_CLOEXEC) 0"
  have "filling out0 len w0 (out, off, remaining, w') \<and> (ok \<longleftrightarrow> urandom_descriptor w' \<ge> 0) \<and>
    (\<not> ok \<longrightarrow> urandom_descriptor w' = urandom_descriptor w)"
  proof (cases "urandom_descriptor w \<ge> 0")
    case True
    then show ?thesis using run inv by (simp add: bc_io_random_open_urandom_def)
  next
    case False
    then have "trace w' = trace w @ [Ev_open dev_urandom (O_RDONLY OR O_CLOEXEC) 0 ?r]"
      "(ok \<longleftrightarrow> urandom_descriptor w' \<ge> 0) \<and> (\<not> ok \<longrightarrow> urandom_descriptor w' = urandom_descriptor w)"
      using run by (auto simp: bc_io_random_open_urandom_def sys_open_def answer_def log_event_def set_errno_def Let_def
          split: sum.splits if_splits)
    then show ?thesis using filling_wait [OF inv, of w'] by simp
  qed
  then show "filling out0 len w0 (out, off, remaining, w')" and "ok \<longleftrightarrow> urandom_descriptor w' \<ge> 0"
    and "\<not> ok \<Longrightarrow> urandom_descriptor w' = urandom_descriptor w" by blast+
qed

lemma read_urandom_spec:
  assumes env: "reads_bounded env" "stalls_bounded N env" and len: "unat len \<le> length out0"
    and inv: "filling out0 len w0 (out, off, remaining, w)" and pos: "remaining \<noteq> 0"
  shows "\<exists>res fd. bc_io_random_read_urandom env out off remaining w = Some res \<and> filled out0 len w0 fd res \<and>
    (urandom_descriptor w \<ge> 0 \<longrightarrow> fd = urandom_descriptor w)"
proof -
  obtain ok w1 where o: "bc_io_random_open_urandom env w = (ok, w1)" by fastforce
  note op = open_urandom_spec [OF inv o]
  show ?thesis
  proof (cases ok)
    case False
    then have "filled out0 len w0 (urandom_descriptor w) ((False, out), w1)"
      using op pos by (auto simp: filling_def filled_def unat_eq_0)
    then show ?thesis using False o by (simp add: bc_io_random_read_urandom_def) blast
  next
    case True
    have inv1: "filling out0 len w0 (out, off, remaining, w1) \<and> descriptor_is (urandom_descriptor w1) (out, off, remaining, w1)"
      using op(1) by (simp add: descriptor_is_def)
    let ?P = "\<lambda>st. filling out0 len w0 st \<and> descriptor_is (urandom_descriptor w1) st"
    obtain res where it: "iterate (read_urandom_body env) (out, off, remaining, w1) = Some res"
      using iterate_total [where P = ?P and m = "left N", OF inv1 read_urandom_step [OF env len]] by blast
    have "filled out0 len w0 (urandom_descriptor w1) res"
      by (rule iterate_partial [OF it, where P = ?P, OF inv1 _ read_urandom_leave])
        (use read_urandom_step [OF env len] in blast)+
    moreover have "urandom_descriptor w1 = urandom_descriptor w" if "urandom_descriptor w \<ge> 0"
      using o that by (simp add: bc_io_random_open_urandom_def)
    ultimately show ?thesis using it True o by (simp add: bc_io_random_read_urandom_def) blast
  qed
qed

text \<open>The fallback is only taken with something left to fill.\<close>

lemma getrandom_leave_remaining:
  assumes "iterate (getrandom_body env) st = Some (Inl (out, off, remaining, w))"
  shows "remaining \<noteq> 0"
proof -
  let ?Q = "\<lambda>l. case l of Inl (_, _, r, _) \<Rightarrow> r \<noteq> 0 | Inr _ \<Rightarrow> True"
  have "?Q (Inl (out, off, remaining, w) :: _ + bytes \<times> 'a random_world_scheme)"
    by (rule iterate_partial [OF assms, where P = "\<lambda>_. True" and Q = ?Q])
      (auto simp: getrandom_body_def split: if_splits sum.splits prod.splits)
  then show ?thesis by simp
qed

section \<open>Properties\<close>

text \<open>
  C36 \<^verbatim>\<open>bc_io_random_bytes\<close> on a buffer of the given length: it returns; what it stores is exactly what the
  kernel supplied during the call (by \<^verbatim>\<open>getrandom\<close>, then, after a failure, from \<^verbatim>\<open>/dev/urandom\<close>), in order from
  the start of the buffer, never beyond the length; and it reports success exactly when the whole
  buffer was supplied, so a successful call leaves no stale byte. An open fallback descriptor is kept.
\<close>

theorem random_bytes_filled:
  assumes "getrandom_bounded env" and "reads_bounded env" and "stalls_bounded N env" and "length buffer = unat len"
  shows "\<exists>ok out w' h. bc_io_random_bytes env (Some buffer) len w = Some ((ok, Some out), w') \<and> trace w' = trace w @ h \<and>
    out = overwrite 0 (supplied h) buffer \<and> length (supplied h) \<le> unat len \<and>
    (ok \<longleftrightarrow> out = supplied h) \<and> (urandom_descriptor w \<ge> 0 \<longrightarrow> urandom_descriptor w' = urandom_descriptor w)"
proof (cases "len = 0")
  case True
  then show ?thesis using assms(4) by (auto simp: bc_io_random_bytes_def intro!: exI [of _ "[]"])
next
  case False
  let ?P = "\<lambda>st. filling buffer len w st \<and> descriptor_is (urandom_descriptor w) st"
  have len: "unat len \<le> length buffer" using assms(4) by simp
  have inv: "?P (buffer, 0, len, w)" by (simp add: filling_def descriptor_is_def)
  obtain leave where it: "iterate (getrandom_body env) (buffer, 0, len, w) = Some leave"
    using iterate_total [where P = ?P and m = "left N", OF inv getrandom_step [OF assms(1,3) len]] by blast
  have lv: "case leave of Inl st' \<Rightarrow> ?P st' | Inr (out, w') \<Rightarrow> filled buffer len w (urandom_descriptor w) ((True, out), w')"
    by (rule iterate_partial [OF it, where P = ?P, OF inv _ getrandom_leave])
      (use getrandom_step [OF assms(1,3) len] in blast)+
  have finished: "\<exists>ok out w' fd. bc_io_random_bytes env (Some buffer) len w = Some ((ok, Some out), w') \<and>
      filled buffer len w fd ((ok, out), w') \<and> (urandom_descriptor w \<ge> 0 \<longrightarrow> fd = urandom_descriptor w)"
  proof (cases leave)
    case (Inr p)
    obtain out w' where p: "p = (out, w')" by fastforce
    then show ?thesis using lv Inr it False by (auto simp: bc_io_random_bytes_def)
  next
    case (Inl st)
    obtain out off remaining w1 where st: "st = (out, off, remaining, w1)" by (metis surj_pair)
    have f: "filling buffer len w (out, off, remaining, w1)" "urandom_descriptor w1 = urandom_descriptor w"
      using lv Inl st by (simp_all add: descriptor_is_def)
    have "remaining \<noteq> 0" by (rule getrandom_leave_remaining [OF it [unfolded Inl st]])
    from read_urandom_spec [OF assms(2,3) len f(1) this] obtain res fd where
      "bc_io_random_read_urandom env out off remaining w1 = Some res" "filled buffer len w fd res"
      "urandom_descriptor w1 \<ge> 0 \<longrightarrow> fd = urandom_descriptor w1" by blast
    moreover obtain ok out' w' where "res = ((ok, out'), w')" by (metis surj_pair)
    ultimately show ?thesis using it Inl st False f(2) by (auto simp: bc_io_random_bytes_def)
  qed
  from finished obtain ok out w' fd h where "bc_io_random_bytes env (Some buffer) len w = Some ((ok, Some out), w')"
    "trace w' = trace w @ h" "out = overwrite 0 (supplied h) buffer" "length (supplied h) \<le> unat len"
    "ok \<longleftrightarrow> length (supplied h) = unat len" "urandom_descriptor w' = fd"
    "urandom_descriptor w \<ge> 0 \<longrightarrow> fd = urandom_descriptor w"
    by (auto simp: filled_def)
  moreover from this assms(4) have "out = supplied h \<longleftrightarrow> length (supplied h) = unat len"
    by (auto simp: overwrite_def)
  ultimately show ?thesis by blast
qed

text \<open>A kernel without \<^verbatim>\<open>getrandom\<close>: the bytes come from the device, one at a time.\<close>

definition old_kernel :: io_env where
  "old_kernel = calm_env\<lparr>env_getrandom := \<lambda>_ _ _. Inl 38, env_read := \<lambda>h _ n. Inr (take (min 1 (unat n)) [of_nat (length h)])\<rparr>"

lemma old_kernel_ok: "getrandom_bounded old_kernel" "reads_bounded old_kernel" "stalls_bounded 0 old_kernel"
  by (auto simp: old_kernel_def getrandom_bounded_def reads_bounded_def stalls_bounded_def errno_defs)

theorem random_bytes_filled_witness:
  "\<exists>ok out w' h. bc_io_random_bytes old_kernel (Some [0, 0]) 2 \<lparr>trace = [], errno = 0, urandom_descriptor = -1\<rparr> =
      Some ((ok, Some out), w') \<and> trace w' = [] @ h \<and>
    out = overwrite 0 (supplied h) [0, 0] \<and> length (supplied h) \<le> unat (2 :: size_t) \<and> (ok \<longleftrightarrow> out = supplied h)"
  using random_bytes_filled [OF old_kernel_ok, of "[0, 0]" 2 "\<lparr>trace = [], errno = 0, urandom_descriptor = -1\<rparr>"] by simp

end
