(* ===== verification/IO_Mmap.thy ===== *)
theory IO_Mmap
  imports IO_Stream IO_Path
begin

text \<open>
  \<^verbatim>\<open>src/mmap/bc_io_mmap.c\<close>: files mapped into memory and the memory streams over them. Maps and read
  handles hold pointers to streams that their clients hold too, so the stream objects live in the
  world here: \<open>streams\<close> gives the object at an address, and using a pointer to no object is
  undefined (\<open>None\<close>).
\<close>

section \<open>Model\<close>

record heap_world = io_world +
  streams :: "addr \<rightharpoonup> bc_io_stream"

record bc_io_mmap_options =
  read_only :: bool
  populate :: bool
  hugepages_hint :: bool
  madvise_hint :: bc_io_mmap_madvise_hint
  map_offset :: size_t
  map_length :: size_t

record bc_io_mmap =
  map_self :: addr
  map_memory_context :: addr
  map_base_address :: addr
  map_mapped_size :: size_t
  map_stream :: addr
  map_is_mapped :: bool

definition sizeof_bc_io_mmap :: size_t where
  "sizeof_bc_io_mmap = 40"

definition PROT_READ :: u32 where "PROT_READ = 1"
definition MAP_SHARED :: u32 where "MAP_SHARED = 1"
definition MAP_POPULATE :: u32 where "MAP_POPULATE = 0x8000"
definition MAP_HUGETLB :: u32 where "MAP_HUGETLB = 0x40000"
definition MADV_NORMAL :: u32 where "MADV_NORMAL = 0"
definition MADV_RANDOM :: u32 where "MADV_RANDOM = 1"
definition MADV_SEQUENTIAL :: u32 where "MADV_SEQUENTIAL = 2"
definition MADV_WILLNEED :: u32 where "MADV_WILLNEED = 3"
definition MADV_DONTNEED :: u32 where "MADV_DONTNEED = 4"

definition bc_io_mmap_hint_to_madvise :: "bc_io_mmap_madvise_hint \<Rightarrow> u32" where
  "bc_io_mmap_hint_to_madvise hint =
     (case hint of
        BC_IO_MADVISE_NORMAL \<Rightarrow> MADV_NORMAL
      | BC_IO_MADVISE_SEQUENTIAL \<Rightarrow> MADV_SEQUENTIAL
      | BC_IO_MADVISE_RANDOM \<Rightarrow> MADV_RANDOM
      | BC_IO_MADVISE_WILLNEED \<Rightarrow> MADV_WILLNEED
      | BC_IO_MADVISE_DONTNEED \<Rightarrow> MADV_DONTNEED
      | BC_IO_MADVISE_unlisted _ \<Rightarrow> MADV_NORMAL)"

definition bc_io_mmap_create_from_address :: "io_env \<Rightarrow> addr \<Rightarrow> addr \<Rightarrow> size_t \<Rightarrow> 'w io_world_scheme \<Rightarrow>
    bc_io_mmap option \<times> 'w io_world_scheme" where
  "bc_io_mmap_create_from_address env memory_context base_address mapped_size w =
     (case pool_allocate env memory_context sizeof_bc_io_mmap w of
        (Inl _, w) \<Rightarrow> (None, w)
      | (Inr map_memory, w) \<Rightarrow>
          (Some \<lparr>map_self = map_memory, map_memory_context = memory_context, map_base_address = base_address,
                 map_mapped_size = mapped_size, map_stream = NULL, map_is_mapped = True\<rparr>, w))"

text \<open>
  The part of \<^verbatim>\<open>bc_io_mmap_file\<close> that maps the region, with its retry without huge pages: the address, or
  none after \<^verbatim>\<open>MAP_FAILED\<close>. \<open>Inl\<close> is \<^verbatim>\<open>MAP_FAILED\<close>.
\<close>

definition map_region :: "io_env \<Rightarrow> int \<Rightarrow> bc_io_mmap_options \<Rightarrow> size_t \<Rightarrow> 'w io_world_scheme \<Rightarrow>
    addr option \<times> 'w io_world_scheme" where
  "map_region env file_descriptor options mapped_size w =
     (let mmap_flags = MAP_SHARED;
          mmap_flags = (if populate options then mmap_flags OR MAP_POPULATE else mmap_flags);
          mmap_flags = (if hugepages_hint options then mmap_flags OR MAP_HUGETLB else mmap_flags);
          (base_address, w) = sys_mmap env mapped_size PROT_READ mmap_flags file_descriptor (map_offset options) w;
          (base_address, w) = (case base_address of
             Inr p \<Rightarrow> (base_address, w)
           | Inl _ \<Rightarrow>
               if hugepages_hint options then
                 sys_mmap env mapped_size PROT_READ (mmap_flags AND NOT MAP_HUGETLB) file_descriptor (map_offset options) w
               else (base_address, w))
      in case base_address of
           Inl _ \<Rightarrow> (None, w)
         | Inr p \<Rightarrow>
             (Some p,
              if madvise_hint options \<noteq> BC_IO_MADVISE_NORMAL
              then snd (sys_madvise env p mapped_size (bc_io_mmap_hint_to_madvise (madvise_hint options)) w)
              else w))"

definition bc_io_mmap_file :: "io_env \<Rightarrow> addr \<Rightarrow> bytes \<Rightarrow> bc_io_mmap_options \<Rightarrow> 'w io_world_scheme \<Rightarrow>
    bc_io_mmap option \<times> 'w io_world_scheme" where
  "bc_io_mmap_file env memory_context path options w =
     (case env_page_size env memory_context of
        None \<Rightarrow> (None, w)
      | Some page_size \<Rightarrow>
          if map_offset options \<noteq> 0 \<and> map_offset options mod page_size \<noteq> 0 then (None, set_errno EINVAL w)
          else
            (let (file_descriptor, w) = sys_open env path (O_RDONLY OR O_CLOEXEC OR O_NOFOLLOW) 0 w
             in if file_descriptor < 0 then (None, w)
                else
                  (case sys_fstat env file_descriptor w of
                     (Inl _, w) \<Rightarrow> (None, sys_close env file_descriptor w)
                   | (Inr stat_buffer, w) \<Rightarrow>
                       let file_size = st_size stat_buffer
                       in if map_length options = 0 \<and> map_offset options > file_size
                          then (None, set_errno EINVAL (sys_close env file_descriptor w))
                          else
                            let mapped_size = (if map_length options = 0 then file_size - map_offset options
                                               else map_length options)
                            in (case (if mapped_size > 0 then map_region env file_descriptor options mapped_size w
                                      else (Some NULL, w)) of
                                  (None, w) \<Rightarrow> (None, sys_close env file_descriptor w)
                                | (Some base_address, w) \<Rightarrow>
                                    let w = sys_close env file_descriptor w
                                    in (case bc_io_mmap_create_from_address env memory_context base_address mapped_size w of
                                          (Some m, w) \<Rightarrow> (Some m, w)
                                        | (None, w) \<Rightarrow>
                                            (None, if base_address \<noteq> NULL then sys_munmap env base_address mapped_size w
                                                   else w))))))"

definition bc_io_mmap_get_stream :: "io_env \<Rightarrow> bc_io_mmap \<Rightarrow> 'w heap_world_scheme \<Rightarrow>
    (addr option \<times> bc_io_mmap) \<times> 'w heap_world_scheme" where
  "bc_io_mmap_get_stream env m w =
     (if map_stream m \<noteq> NULL then ((Some (map_stream m), m), w)
      else case bc_io_stream_open_memory env (map_memory_context m) (map_base_address m) (map_mapped_size m) w of
        (None, w) \<Rightarrow> ((None, m), w)
      | (Some stream, w) \<Rightarrow>
          ((Some (stream_self stream), m\<lparr>map_stream := stream_self stream\<rparr>),
           w\<lparr>streams := (streams w)(stream_self stream \<mapsto> stream)\<rparr>))"

definition bc_io_mmap_get_data :: "bc_io_mmap \<Rightarrow> addr \<times> size_t" where
  "bc_io_mmap_get_data m = (map_base_address m, map_mapped_size m)"

definition bc_io_mmap_advise :: "io_env \<Rightarrow> bc_io_mmap \<Rightarrow> size_t \<Rightarrow> size_t \<Rightarrow> bc_io_mmap_madvise_hint \<Rightarrow>
    'w io_world_scheme \<Rightarrow> bool \<times> 'w io_world_scheme" where
  "bc_io_mmap_advise env m off len hint w =
     (if \<not> map_is_mapped m \<or> map_base_address m = NULL \<or> len = 0 then (True, w)
      else case sys_madvise env (map_base_address m + off) len (bc_io_mmap_hint_to_madvise hint) w of
        (Inl _, w) \<Rightarrow> (False, w)
      | (Inr _, w) \<Rightarrow> (True, w))"

definition bc_io_mmap_unmap :: "io_env \<Rightarrow> bc_io_mmap \<Rightarrow> 'w io_world_scheme \<Rightarrow> bc_io_mmap \<times> 'w io_world_scheme" where
  "bc_io_mmap_unmap env m w =
     (if \<not> map_is_mapped m then (m, w)
      else (m\<lparr>map_base_address := NULL, map_mapped_size := 0, map_is_mapped := False\<rparr>,
            if map_base_address m \<noteq> NULL \<and> map_mapped_size m > 0
            then sys_munmap env (map_base_address m) (map_mapped_size m) w else w))"

text \<open>Closing the stream object at an address removes it.\<close>

definition close_at :: "io_env \<Rightarrow> addr \<Rightarrow> 'w heap_world_scheme \<Rightarrow> 'w heap_world_scheme option" where
  "close_at env p w =
     do {
       stream \<leftarrow> streams w p;
       w \<leftarrow> bc_io_stream_close env stream w;
       Some (w\<lparr>streams := (streams w)(p := None)\<rparr>)
     }"

definition bc_io_mmap_destroy :: "io_env \<Rightarrow> bc_io_mmap \<Rightarrow> 'w heap_world_scheme \<Rightarrow> 'w heap_world_scheme option" where
  "bc_io_mmap_destroy env m w =
     do {
       w \<leftarrow> (if map_stream m \<noteq> NULL then close_at env (map_stream m) w else Some w);
       let w = (if map_is_mapped m \<and> map_base_address m \<noteq> NULL \<and> map_mapped_size m > 0
                then sys_munmap env (map_base_address m) (map_mapped_size m) w else w);
       Some (pool_free (map_memory_context m) (map_self m) w)
     }"

section \<open>What a map holds\<close>

definition maps_region :: "bc_io_mmap \<Rightarrow> bool" where
  "maps_region m \<longleftrightarrow> map_is_mapped m \<and> map_base_address m \<noteq> NULL \<and> map_mapped_size m > 0"

definition map_holds :: "bc_io_mmap \<Rightarrow> resource \<Rightarrow> int" where
  "map_holds m r = of_bool (r = Block (map_self m)) +
     of_bool (maps_region m \<and> r = Mapping (map_base_address m) (map_mapped_size m)) +
     of_bool (map_stream m \<noteq> NULL \<and> r = Block (map_stream m))"

text \<open>A stream object whose closing frees just its own block: the memory streams.\<close>

definition plain_stream :: "addr \<Rightarrow> bc_io_stream \<Rightarrow> bool" where
  "plain_stream p s \<longleftrightarrow> stream_self s = p \<and> stream_buffer_used s = 0 \<and> stream_buffer_arena s = NULL \<and>
     \<not> stream_owns_file_descriptor s"

definition map_ok :: "bc_io_mmap \<Rightarrow> 'w heap_world_scheme \<Rightarrow> bool" where
  "map_ok m w \<longleftrightarrow> (map_stream m \<noteq> NULL \<longrightarrow> (\<exists>s. streams w (map_stream m) = Some s \<and> plain_stream (map_stream m) s))"

lemma streams_world [simp]:
  "streams (snd (answer ev r w)) = streams w" "streams (log_event e w) = streams w" "streams (set_errno n w) = streams w"
  by (simp_all add: answer_def log_event_def set_errno_def split: sum.split)

lemma trace_streams_update [simp]: "trace (w\<lparr>streams := f\<rparr>) = trace w"
  by simp

lemma close_at_plain:
  assumes "streams w p = Some s" and "plain_stream p s"
  shows "\<exists>w'. close_at env p w = Some w' \<and> (\<forall>r. balance (trace w') r = balance (trace w) r - of_bool (r = Block p)) \<and>
    streams w' = (streams w)(p := None)"
  using assms by (simp add: close_at_def plain_stream_def bc_io_stream_close_def bc_io_stream_flush_def pool_free_def)

lemma sys_munmap_balance [io_balance]:
  "balance (trace (sys_munmap env p n w)) r = balance (trace w) r - of_bool (r = Mapping p n)"
  by (simp add: sys_munmap_def)

lemma pool_free_balance [io_balance]:
  "balance (trace (pool_free ctx p w)) r = balance (trace w) r - of_bool (r = Block p)"
  by (simp add: pool_free_def)

lemma destroy_spec:
  assumes "map_ok m w"
  shows "\<exists>w'. bc_io_mmap_destroy env m w = Some w' \<and> (\<forall>r. balance (trace w') r = balance (trace w) r - map_holds m r)"
proof (cases "map_stream m = NULL")
  case True
  then show ?thesis by (auto simp: bc_io_mmap_destroy_def Let_def map_holds_def maps_region_def io_balance)
next
  case False
  then obtain w1 where "close_at env (map_stream m) w = Some w1"
    "\<And>r. balance (trace w1) r = balance (trace w) r - of_bool (r = Block (map_stream m))"
    using assms close_at_plain unfolding map_ok_def by blast
  then show ?thesis
    using False by (auto simp: bc_io_mmap_destroy_def Let_def map_holds_def maps_region_def io_balance)
qed

lemma map_region_balance:
  assumes "map_region env fd opts n w = (res, w')"
  shows "balance (trace w') r = balance (trace w) r + (case res of None \<Rightarrow> 0 | Some p \<Rightarrow> of_bool (r = Mapping p n))"
    and "addresses_ok env \<Longrightarrow> res = Some p \<Longrightarrow> p \<noteq> NULL"
  using assms
  by (auto simp: map_region_def sys_mmap_def sys_madvise_def answer_def addresses_ok_def Let_def
      split: sum.splits if_splits)

lemma create_from_address_spec:
  assumes "bc_io_mmap_create_from_address env ctx base n w = (res, w')"
  shows "case res of
      None \<Rightarrow> \<forall>r. balance (trace w') r = balance (trace w) r
    | Some m \<Rightarrow> map_stream m = NULL \<and> map_is_mapped m \<and> map_base_address m = base \<and> map_mapped_size m = n \<and>
        map_memory_context m = ctx \<and> (\<forall>r. balance (trace w') r = balance (trace w) r + of_bool (r = Block (map_self m)))"
  using assms by (auto simp: bc_io_mmap_create_from_address_def pool_allocate_def answer_def split: sum.splits)

lemma get_stream_spec:
  assumes "addresses_ok env" and "map_ok m w" and "bc_io_mmap_get_stream env m w = ((res, m'), w')"
  shows "map_ok m' w'" and "balance (trace w') r = balance (trace w) r + (map_holds m' r - map_holds m r)"
    and "case res of None \<Rightarrow> m' = m | Some p \<Rightarrow> p \<noteq> NULL \<and> m' = m\<lparr>map_stream := p\<rparr>"
    and "map_stream m = NULL \<Longrightarrow> res = Some p \<Longrightarrow> \<exists>s. streams w' p = Some s \<and> freshly_open s \<and>
      stream_source_type s = BC_IO_STREAM_SOURCE_MEMORY \<and> stream_memory_data s = map_base_address m \<and>
      stream_memory_size s = map_mapped_size m"
proof -
  have "map_ok m' w' \<and> balance (trace w') r = balance (trace w) r + (map_holds m' r - map_holds m r) \<and>
    (case res of None \<Rightarrow> m' = m | Some p \<Rightarrow> p \<noteq> NULL \<and> m' = m\<lparr>map_stream := p\<rparr>) \<and>
    (map_stream m = NULL \<longrightarrow> res = Some p \<longrightarrow> (\<exists>s. streams w' p = Some s \<and> freshly_open s \<and>
      stream_source_type s = BC_IO_STREAM_SOURCE_MEMORY \<and> stream_memory_data s = map_base_address m \<and>
      stream_memory_size s = map_mapped_size m))" for p
  proof (cases "map_stream m = NULL")
    case False
    then show ?thesis using assms by (auto simp: bc_io_mmap_get_stream_def)
  next
    case True
    obtain os w1 where o: "bc_io_stream_open_memory env (map_memory_context m) (map_base_address m) (map_mapped_size m) w = (os, w1)"
      by fastforce
    note spec = open_memory_spec [OF o]
    show ?thesis
    proof (cases os)
      case None
      then show ?thesis using assms(2,3) True o spec by (auto simp: bc_io_mmap_get_stream_def map_ok_def)
    next
      case (Some s)
      have r: "res = Some (stream_self s)" "m' = m\<lparr>map_stream := stream_self s\<rparr>"
        "w' = w1\<lparr>streams := (streams w1)(stream_self s \<mapsto> s)\<rparr>"
        using assms(3) True o Some by (simp_all add: bc_io_mmap_get_stream_def)
      have s: "stream_self s \<noteq> NULL" "stream_buffer_arena s = NULL" "\<not> stream_owns_file_descriptor s" "stream_buffer_used s = 0"
        using o Some assms(1) by (auto simp: bc_io_stream_open_memory_def Let_def pool_allocate_def answer_def
            bc_io_stream_init_common_fields_def addresses_ok_def split: sum.splits)
      then show ?thesis
        using spec Some True
        by (auto simp: r map_ok_def plain_stream_def map_holds_def maps_region_def stream_holds_def)
    qed
  qed
  then show "map_ok m' w'" and "balance (trace w') r = balance (trace w) r + (map_holds m' r - map_holds m r)"
    and "case res of None \<Rightarrow> m' = m | Some p \<Rightarrow> p \<noteq> NULL \<and> m' = m\<lparr>map_stream := p\<rparr>"
    and "map_stream m = NULL \<Longrightarrow> res = Some p \<Longrightarrow> \<exists>s. streams w' p = Some s \<and> freshly_open s \<and>
      stream_source_type s = BC_IO_STREAM_SOURCE_MEMORY \<and> stream_memory_data s = map_base_address m \<and>
      stream_memory_size s = map_mapped_size m"
    by blast+
qed

text \<open>Unmapping gives back the region, once; the map then holds it no more.\<close>

lemma unmap_spec:
  assumes "bc_io_mmap_unmap env m w = (m', w')"
  shows "balance (trace w') r = balance (trace w) r + (map_holds m' r - map_holds m r)"
    and "\<not> map_is_mapped m'" and "map_stream m' = map_stream m"
proof -
  have m': "m' = (if map_is_mapped m then m\<lparr>map_base_address := NULL, map_mapped_size := 0, map_is_mapped := False\<rparr> else m)"
    and w': "w' = (if maps_region m then sys_munmap env (map_base_address m) (map_mapped_size m) w else w)"
    using assms by (auto simp: bc_io_mmap_unmap_def maps_region_def split: if_splits)
  show "balance (trace w') r = balance (trace w) r + (map_holds m' r - map_holds m r)"
    by (cases "maps_region m") (simp_all add: m' w' map_holds_def io_balance, simp_all add: maps_region_def)
  show "\<not> map_is_mapped m'" and "map_stream m' = map_stream m" by (simp_all add: m')
qed

lemma unmap_streams:
  fixes w :: "'w heap_world_scheme"
  assumes "bc_io_mmap_unmap env m w = (m', w')"
  shows "streams w' = streams w"
  using assms by (auto simp: bc_io_mmap_unmap_def sys_munmap_def split: if_splits)

text \<open>The last part of \<^verbatim>\<open>bc_io_mmap_file\<close>, once the descriptor is open and the size is known: it gives up the descriptor in every case.\<close>

lemma map_and_create_spec:
  assumes env: "addresses_ok env" and mr: "(if n > 0 then map_region env fd opts n w else (Some NULL, w)) = (base, w1)"
    and run: "(case base of None \<Rightarrow> (None, sys_close env fd w1)
      | Some p \<Rightarrow> (case bc_io_mmap_create_from_address env ctx p n (sys_close env fd w1) of
           (Some m, w) \<Rightarrow> (Some m, w)
         | (None, w) \<Rightarrow> (None, if p \<noteq> NULL then sys_munmap env p n w else w))) = (res, w')"
  shows "case res of
      None \<Rightarrow> \<forall>r. balance (trace w') r = balance (trace w) r - of_bool (r = Descriptor fd)
    | Some m \<Rightarrow> map_stream m = NULL \<and> map_is_mapped m \<and>
        (\<forall>r. balance (trace w') r = balance (trace w) r - of_bool (r = Descriptor fd) + map_holds m r)"
proof -
  have b: "balance (trace w1) r = balance (trace w) r +
      (case base of None \<Rightarrow> 0 | Some p \<Rightarrow> of_bool (n > 0 \<and> r = Mapping p n))" for r
    using mr map_region_balance(1) [of env fd opts n w base w1 r] by (auto split: if_splits option.splits)
  show ?thesis
  proof (cases base)
    case None
    then show ?thesis using run b by (auto simp: io_balance)
  next
    case (Some p)
    have nz: "p \<noteq> NULL \<longleftrightarrow> n > 0"
      using Some mr map_region_balance(2) [of env fd opts n w base w1 p] env by (auto split: if_splits)
    obtain cr w2 where c: "bc_io_mmap_create_from_address env ctx p n (sys_close env fd w1) = (cr, w2)" by fastforce
    show ?thesis
      using run Some c create_from_address_spec [OF c] b nz
      by (cases cr) (auto simp: io_balance map_holds_def maps_region_def)
  qed
qed

lemma sys_open_balance:
  "sys_open env path flags mode w = (fd, w') \<Longrightarrow>
    balance (trace w') r = balance (trace w) r + of_bool (fd \<ge> 0 \<and> r = Descriptor fd)"
  by (auto simp: sys_open_def answer_def split: sum.splits)

lemma sys_fstat_balance: "sys_fstat env fd w = (st, w') \<Longrightarrow> balance (trace w') r = balance (trace w) r"
  by (auto simp: sys_fstat_def answer_def split: sum.splits)

lemma mmap_file_spec:
  assumes env: "addresses_ok env" and run: "bc_io_mmap_file env ctx path opts w = (res, w')"
  shows "case res of
      None \<Rightarrow> \<forall>r. balance (trace w') r = balance (trace w) r
    | Some m \<Rightarrow> map_stream m = NULL \<and> map_is_mapped m \<and> (\<forall>r. balance (trace w') r = balance (trace w) r + map_holds m r)"
proof (cases "\<exists>page. env_page_size env ctx = Some page \<and> \<not> (map_offset opts \<noteq> 0 \<and> map_offset opts mod page \<noteq> 0)")
  case False
  then have "(res, w') = (None, w) \<or> (res, w') = (None, set_errno EINVAL w)"
    using run unfolding bc_io_mmap_file_def by (cases "env_page_size env ctx") simp_all
  then show ?thesis by auto
next
  case True
  then obtain page where page: "env_page_size env ctx = Some page" "\<not> (map_offset opts \<noteq> 0 \<and> map_offset opts mod page \<noteq> 0)" by (elim exE conjE)
  obtain fd w1 where o: "sys_open env path (O_RDONLY OR O_CLOEXEC OR O_NOFOLLOW) 0 w = (fd, w1)" by fastforce
  obtain st w2 where f: "sys_fstat env fd w1 = (st, w2)" by fastforce
  note b = sys_open_balance [OF o] sys_fstat_balance [OF f]
  consider "fd < 0" | e where "\<not> fd < 0" "st = Inl e" | s where "\<not> fd < 0" "st = Inr s" "map_length opts = 0 \<and> map_offset opts > st_size s"
    | s where "\<not> fd < 0" "st = Inr s" "\<not> (map_length opts = 0 \<and> map_offset opts > st_size s)" by (cases st) auto
  then show ?thesis
  proof cases
    case 1
    then have "(res, w') = (None, w1)" using run page o unfolding bc_io_mmap_file_def Let_def by (simp split del: if_split)
    then show ?thesis using b 1 by auto
  next
    case (2 e)
    then have "(res, w') = (None, sys_close env fd w2)"
      using run page o f unfolding bc_io_mmap_file_def Let_def by (simp split del: if_split)
    then show ?thesis using b 2 by (auto simp: io_balance)
  next
    case (3 s)
    then have "(res, w') = (None, set_errno EINVAL (sys_close env fd w2))"
      using run page o f unfolding bc_io_mmap_file_def Let_def by (simp split del: if_split)
    then show ?thesis using b 3 by (auto simp: io_balance)
  next
    case (4 s)
    define n where "n = (if map_length opts = 0 then st_size s - map_offset opts else map_length opts)"
    obtain base w3 where mr: "(if n > 0 then map_region env fd opts n w2 else (Some NULL, w2)) = (base, w3)" by fastforce
    have "(case base of None \<Rightarrow> (None, sys_close env fd w3)
      | Some p \<Rightarrow> (case bc_io_mmap_create_from_address env ctx p n (sys_close env fd w3) of
           (Some m, w) \<Rightarrow> (Some m, w)
         | (None, w) \<Rightarrow> (None, if p \<noteq> NULL then sys_munmap env p n w else w))) = (res, w')"
      using run page o f 4 mr unfolding bc_io_mmap_file_def Let_def n_def by (simp split del: if_split)
    from map_and_create_spec [OF env mr this] show ?thesis using b 4(1) by (cases res) simp_all
  qed
qed

section \<open>Uses of a map\<close>

datatype map_call = Get_stream | Unmap

fun run_map_calls :: "io_env \<Rightarrow> bc_io_mmap \<Rightarrow> map_call list \<Rightarrow> 'w heap_world_scheme \<Rightarrow> bc_io_mmap \<times> 'w heap_world_scheme" where
  "run_map_calls env m [] w = (m, w)"
| "run_map_calls env m (Get_stream # cs) w =
     (case bc_io_mmap_get_stream env m w of ((_, m), w) \<Rightarrow> run_map_calls env m cs w)"
| "run_map_calls env m (Unmap # cs) w = (case bc_io_mmap_unmap env m w of (m, w) \<Rightarrow> run_map_calls env m cs w)"

lemma run_map_calls_spec:
  assumes "addresses_ok env" and "map_ok m w" and "run_map_calls env m cs w = (m', w')"
  shows "map_ok m' w'" and "balance (trace w') r = balance (trace w) r + (map_holds m' r - map_holds m r)"
proof -
  have "map_ok m' w' \<and> balance (trace w') r = balance (trace w) r + (map_holds m' r - map_holds m r)"
    using assms(2,3)
  proof (induction cs arbitrary: m w)
    case (Cons c cs)
    show ?case
    proof (cases c)
      case Get_stream
      obtain res m1 w1 where g: "bc_io_mmap_get_stream env m w = ((res, m1), w1)" by (metis surj_pair)
      note gs = get_stream_spec(1,2) [OF assms(1) Cons.prems(1) g]
      show ?thesis using Cons.IH [OF gs(1)] Cons.prems(2) g gs(2) by (simp add: Get_stream)
    next
      case Unmap
      obtain m1 w1 where u: "bc_io_mmap_unmap env m w = (m1, w1)" by fastforce
      have "map_ok m1 w1" using Cons.prems(1) unmap_spec(3) [OF u] unmap_streams [OF u] by (simp add: map_ok_def)
      from Cons.IH [OF this] show ?thesis using Cons.prems(2) u unmap_spec(1) [OF u] by (simp add: Unmap)
    qed
  qed simp
  then show "map_ok m' w'" and "balance (trace w') r = balance (trace w) r + (map_holds m' r - map_holds m r)" by simp_all
qed

section \<open>Properties\<close>

text \<open>
  C23 The life of a mapped file. When \<^verbatim>\<open>bc_io_mmap_file\<close> fails, whichever call failed (and with the
  retry without huge pages), no descriptor, mapping or block is left over. When it succeeds, the
  descriptor is closed again, and any use of the map that follows, taking its stream (once or
  again), unmapping early (once or twice), can be ended by \<^verbatim>\<open>bc_io_mmap_destroy\<close>, which always returns
  and gives back everything exactly once: no leak and no double \<^verbatim>\<open>munmap\<close>.
\<close>

theorem mmap_life_balanced:
  fixes w :: "'w heap_world_scheme"
  assumes "addresses_ok env" and "bc_io_mmap_file env ctx path opts w = (res, w1)"
  shows "case res of
      None \<Rightarrow> \<forall>r. balance (trace w1) r = balance (trace w) r
    | Some m \<Rightarrow> \<exists>m' w2 w3. run_map_calls env m cs w1 = (m', w2) \<and> bc_io_mmap_destroy env m' w2 = Some w3 \<and>
        (\<forall>r. balance (trace w3) r = balance (trace w) r)"
proof (cases res)
  case None
  then show ?thesis using mmap_file_spec [OF assms] by simp
next
  case (Some m)
  then have m: "map_ok m w1" "\<And>r. balance (trace w1) r = balance (trace w) r + map_holds m r"
    using mmap_file_spec [OF assms] by (simp_all add: map_ok_def)
  obtain m' w2 where r: "run_map_calls env m cs w1 = (m', w2)" by fastforce
  note k = run_map_calls_spec [OF assms(1) m(1) r]
  from destroy_spec [OF k(1)] k(2) m(2) show ?thesis by (simp add: Some r)
qed

definition heap_start :: heap_world where
  "heap_start = \<lparr>trace = [], errno = 0, streams = Map.empty\<rparr>"

definition sample_options :: bc_io_mmap_options where
  "sample_options = \<lparr>read_only = True, populate = False, hugepages_hint = True, madvise_hint = BC_IO_MADVISE_SEQUENTIAL,
     map_offset = 0, map_length = 8192\<rparr>"

theorem mmap_life_balanced_witness:
  "\<exists>m w1 m' w2 w3. bc_io_mmap_file calm_env 1 [97] sample_options heap_start = (Some m, w1) \<and>
    run_map_calls calm_env m [Get_stream, Unmap, Unmap, Get_stream] w1 = (m', w2) \<and>
    bc_io_mmap_destroy calm_env m' w2 = Some w3 \<and> (\<forall>r. balance (trace w3) r = balance (trace heap_start) r)"
proof -
  obtain m w1 where run: "bc_io_mmap_file calm_env 1 [97] sample_options heap_start = (Some m, w1)"
    by (simp add: bc_io_mmap_file_def sample_options_def map_region_def bc_io_mmap_create_from_address_def sys_defs
        answer_def calm_env_def heap_start_def plain_stat_def Let_def)
  then show ?thesis using mmap_life_balanced [OF calm_env_ok(5) run, of "[Get_stream, Unmap, Unmap, Get_stream]"] by auto
qed

text \<open>
  After an unmapping the stream of the map still refers to the region: its chunks point into memory
  that is no longer mapped.
\<close>

lemma unmap_leaves_stream:
  assumes "addresses_ok env" and "map_stream m = NULL" and "maps_region m"
    and "bc_io_mmap_get_stream env m w = ((Some p, m1), w1)" and "bc_io_mmap_unmap env m1 w1 = (m2, w2)"
  shows "\<exists>s. streams w2 p = Some s \<and> stream_memory_data s = map_base_address m \<and> stream_memory_size s = map_mapped_size m \<and>
    stream_memory_size s \<noteq> 0 \<and> \<not> map_is_mapped m2 \<and> map_stream m2 = p"
proof -
  have ok: "map_ok m w" using assms(2) by (simp add: map_ok_def)
  note g = get_stream_spec [OF assms(1) ok assms(4)]
  show ?thesis
    using g(3) g(4) [OF assms(2) refl] unmap_spec(2,3) [OF assms(5)] unmap_streams [OF assms(5)] assms(3)
    by (auto simp: maps_region_def)
qed

end
