(* ===== verification/IO_File_Open.thy ===== *)
theory IO_File_Open
  imports IO_Mmap
begin

text \<open>
  \<^verbatim>\<open>src/file/bc_io_file_open.c\<close>: opening a file for reading as a buffered stream, or, from a size
  threshold on, as a mapping with a memory stream over it. Stream objects live in the world
  (\<open>heap_world\<close>); the map of a handle is used through the handle only and is part of it.
\<close>

section \<open>Model\<close>

record bc_io_file_open_options =
  use_noatime :: bool
  nonblock :: bool
  fadvise_hint :: bc_io_mmap_madvise_hint
  open_buffer_size :: size_t

datatype bc_io_file_read_handle_kind =
    BC_IO_READ_HANDLE_KIND_BUFFERED
  | BC_IO_READ_HANDLE_KIND_MEMORY_MAPPED

text \<open>\<open>handle_map\<close> is the object behind the pointer \<^verbatim>\<open>map\<close>, none for the null pointer.\<close>

record bc_io_file_read_handle =
  handle_self :: addr
  handle_memory_context :: addr
  handle_kind :: bc_io_file_read_handle_kind
  handle_stream :: addr
  handle_map :: "bc_io_mmap option"
  handle_file_size :: size_t

definition BC_IO_OPEN_DEFAULT_BUFFER_SIZE :: size_t where "BC_IO_OPEN_DEFAULT_BUFFER_SIZE = 65536"
definition BC_IO_OPEN_DEFAULT_THRESHOLD :: size_t where "BC_IO_OPEN_DEFAULT_THRESHOLD = 262144"
definition sizeof_bc_io_file_read_handle :: size_t where "sizeof_bc_io_file_read_handle = 40"

definition bc_io_file_open_options_flags :: "bc_io_file_open_options \<Rightarrow> u32" where
  "bc_io_file_open_options_flags options = (if nonblock options then O_NONBLOCK else 0)"

definition bc_io_file_open_resolve_descriptor :: "io_env \<Rightarrow> bytes \<Rightarrow> bc_io_file_open_options \<Rightarrow> 'w io_world_scheme \<Rightarrow>
    int option \<times> 'w io_world_scheme" where
  "bc_io_file_open_resolve_descriptor env path options w =
     (let additional_flags = bc_io_file_open_options_flags options
      in if use_noatime options then bc_io_file_open_for_read env path additional_flags w
         else
           let flags = O_RDONLY OR O_CLOEXEC OR O_NOFOLLOW OR additional_flags;
               (file_descriptor, w) = sys_open env path flags 0 w
           in if file_descriptor < 0 then (None, w) else (Some file_descriptor, w))"

text \<open>A stream that was opened becomes an object of the heap.\<close>

definition place_stream :: "bc_io_stream \<Rightarrow> 'w heap_world_scheme \<Rightarrow> 'w heap_world_scheme" where
  "place_stream s w = w\<lparr>streams := (streams w)(stream_self s \<mapsto> s)\<rparr>"

definition bc_io_file_open_read :: "io_env \<Rightarrow> addr \<Rightarrow> bytes \<Rightarrow> bc_io_file_open_options \<Rightarrow> 'w heap_world_scheme \<Rightarrow>
    addr option \<times> 'w heap_world_scheme" where
  "bc_io_file_open_read env memory_context path options w =
     (case bc_io_file_open_resolve_descriptor env path options w of
        (None, w) \<Rightarrow> (None, w)
      | (Some file_descriptor, w) \<Rightarrow>
          let buffer_size = (if open_buffer_size options \<noteq> 0 then open_buffer_size options else BC_IO_OPEN_DEFAULT_BUFFER_SIZE)
          in (case bc_io_stream_open_file_descriptor env memory_context file_descriptor BC_IO_STREAM_SOURCE_FILE
                     BC_IO_STREAM_MODE_READ buffer_size w of
                (None, w) \<Rightarrow> (None, sys_close env file_descriptor w)
              | (Some stream, w) \<Rightarrow> (Some (stream_self stream), place_stream stream w)))"

text \<open>The two ends of \<^verbatim>\<open>bc_io_file_open_auto\<close>: below the threshold a buffered stream, from it on a mapping.\<close>

definition open_auto_buffered :: "io_env \<Rightarrow> addr \<Rightarrow> int \<Rightarrow> bc_io_file_open_options \<Rightarrow> addr \<Rightarrow> size_t \<Rightarrow> 'w heap_world_scheme \<Rightarrow>
    bc_io_file_read_handle option \<times> 'w heap_world_scheme" where
  "open_auto_buffered env memory_context file_descriptor options handle file_size w =
     (let buffer_size = (if open_buffer_size options \<noteq> 0 then open_buffer_size options else BC_IO_OPEN_DEFAULT_BUFFER_SIZE)
      in case bc_io_stream_open_file_descriptor env memory_context file_descriptor BC_IO_STREAM_SOURCE_FILE
                BC_IO_STREAM_MODE_READ buffer_size w of
           (None, w) \<Rightarrow> (None, pool_free memory_context handle (sys_close env file_descriptor w))
         | (Some stream, w) \<Rightarrow>
             (Some \<lparr>handle_self = handle, handle_memory_context = memory_context,
                    handle_kind = BC_IO_READ_HANDLE_KIND_BUFFERED, handle_stream = stream_self stream,
                    handle_map = None, handle_file_size = file_size\<rparr>, place_stream stream w))"

definition open_auto_mapped :: "io_env \<Rightarrow> addr \<Rightarrow> int \<Rightarrow> addr \<Rightarrow> size_t \<Rightarrow> 'w heap_world_scheme \<Rightarrow>
    (bc_io_file_read_handle option \<times> 'w heap_world_scheme) option" where
  "open_auto_mapped env memory_context file_descriptor handle file_size w =
     (case (if file_size > 0 then sys_mmap env file_size PROT_READ MAP_SHARED file_descriptor 0 w else (Inr NULL, w)) of
        (Inl _, w) \<Rightarrow> Some (None, pool_free memory_context handle (sys_close env file_descriptor w))
      | (Inr base_address, w) \<Rightarrow>
          let w = sys_close env file_descriptor w
          in (case bc_io_mmap_create_from_address env memory_context base_address file_size w of
                (None, w) \<Rightarrow>
                  Some (None, pool_free memory_context handle
                    (if base_address \<noteq> NULL then sys_munmap env base_address file_size w else w))
              | (Some m, w) \<Rightarrow>
                  (case bc_io_mmap_get_stream env m w of
                     ((None, m), w) \<Rightarrow>
                       map_option (\<lambda>w. (None, pool_free memory_context handle w)) (bc_io_mmap_destroy env m w)
                   | ((Some stream, m), w) \<Rightarrow>
                       Some (Some \<lparr>handle_self = handle, handle_memory_context = memory_context,
                         handle_kind = BC_IO_READ_HANDLE_KIND_MEMORY_MAPPED, handle_stream = stream,
                         handle_map = Some m, handle_file_size = file_size\<rparr>, w))))"

definition bc_io_file_open_auto :: "io_env \<Rightarrow> addr \<Rightarrow> bytes \<Rightarrow> size_t \<Rightarrow> bc_io_file_open_options \<Rightarrow> 'w heap_world_scheme \<Rightarrow>
    (bc_io_file_read_handle option \<times> 'w heap_world_scheme) option" where
  "bc_io_file_open_auto env memory_context path mmap_threshold options w =
     (let effective_threshold = (if mmap_threshold = 0 then BC_IO_OPEN_DEFAULT_THRESHOLD else mmap_threshold)
      in case bc_io_file_open_resolve_descriptor env path options w of
           (None, w) \<Rightarrow> Some (None, w)
         | (Some file_descriptor, w) \<Rightarrow>
             (case sys_fstat env file_descriptor w of
                (Inl _, w) \<Rightarrow> Some (None, sys_close env file_descriptor w)
              | (Inr stat_buffer, w) \<Rightarrow>
                  let file_size = st_size stat_buffer
                  in (case pool_allocate env memory_context sizeof_bc_io_file_read_handle w of
                        (Inl _, w) \<Rightarrow> Some (None, sys_close env file_descriptor w)
                      | (Inr handle, w) \<Rightarrow>
                          if file_size < effective_threshold
                          then Some (open_auto_buffered env memory_context file_descriptor options handle file_size w)
                          else open_auto_mapped env memory_context file_descriptor handle file_size w)))"

definition bc_io_file_read_handle_get_stream :: "bc_io_file_read_handle \<Rightarrow> addr" where
  "bc_io_file_read_handle_get_stream handle = handle_stream handle"

definition bc_io_file_read_handle_is_memory_mapped :: "bc_io_file_read_handle \<Rightarrow> bool" where
  "bc_io_file_read_handle_is_memory_mapped handle \<longleftrightarrow> handle_kind handle = BC_IO_READ_HANDLE_KIND_MEMORY_MAPPED"

definition bc_io_file_read_handle_get_size :: "bc_io_file_read_handle \<Rightarrow> size_t" where
  "bc_io_file_read_handle_get_size handle = handle_file_size handle"

definition bc_io_file_read_handle_destroy :: "io_env \<Rightarrow> bc_io_file_read_handle \<Rightarrow> 'w heap_world_scheme \<Rightarrow>
    'w heap_world_scheme option" where
  "bc_io_file_read_handle_destroy env handle w =
     do {
       w \<leftarrow> (if handle_kind handle = BC_IO_READ_HANDLE_KIND_MEMORY_MAPPED
             then (case handle_map handle of None \<Rightarrow> Some w | Some m \<Rightarrow> bc_io_mmap_destroy env m w)
             else if handle_stream handle \<noteq> NULL then close_at env (handle_stream handle) w else Some w);
       Some (pool_free (handle_memory_context handle) (handle_self handle) w)
     }"

section \<open>Handles\<close>

text \<open>
  A usable handle: its stream is in the heap; a buffered one reads (so nothing is pending), a mapped
  one owns a map that owns that stream.
\<close>

definition handle_ok :: "bc_io_file_read_handle \<Rightarrow> 'w heap_world_scheme \<Rightarrow> bool" where
  "handle_ok h w \<longleftrightarrow> handle_stream h \<noteq> NULL \<and>
     (case handle_kind h of
        BC_IO_READ_HANDLE_KIND_MEMORY_MAPPED \<Rightarrow>
          (\<exists>m. handle_map h = Some m \<and> map_ok m w \<and> map_stream m = handle_stream h)
      | BC_IO_READ_HANDLE_KIND_BUFFERED \<Rightarrow>
          (\<exists>s. streams w (handle_stream h) = Some s \<and> stream_self s = handle_stream h \<and> stream_buffer_used s = 0 \<and>
             \<not> stream_owns_file_descriptor s))"

text \<open>What the handle gives back when it is destroyed.\<close>

definition handle_holds :: "bc_io_file_read_handle \<Rightarrow> 'w heap_world_scheme \<Rightarrow> resource \<Rightarrow> int" where
  "handle_holds h w r = of_bool (r = Block (handle_self h)) +
     (case handle_map h of Some m \<Rightarrow> map_holds m r
      | None \<Rightarrow> (case streams w (handle_stream h) of Some s \<Rightarrow> stream_holds s r | None \<Rightarrow> 0))"

lemma close_at_idle:
  assumes "streams w p = Some s" and "stream_self s = p" and "stream_buffer_used s = 0"
  shows "\<exists>w'. close_at env p w = Some w' \<and> (\<forall>r. balance (trace w') r = balance (trace w) r - stream_holds s r) \<and>
    streams w' = (streams w)(p := None)"
  using assms
  by (auto simp: close_at_def bc_io_stream_close_def bc_io_stream_flush_def pool_free_def arena_destroy_def sys_close_def
      stream_holds_def Let_def)

lemma resolve_descriptor_balance:
  assumes "bc_io_file_open_resolve_descriptor env path options w = (res, w')"
  shows "balance (trace w') r = balance (trace w) r + (case res of None \<Rightarrow> 0 | Some fd \<Rightarrow> of_bool (r = Descriptor fd))"
  using assms
  by (auto simp: bc_io_file_open_resolve_descriptor_def bc_io_file_open_for_read_def sys_open_def answer_def Let_def
      split: sum.splits if_splits)

lemma open_file_descriptor_self:
  assumes "bc_io_stream_open_file_descriptor env ctx fd ty mode n w = (Some s, w')" and "addresses_ok env"
  shows "stream_self s \<noteq> NULL"
  using assms allocate_with_buffer_sizes(2)
  by (fastforce simp: bc_io_stream_open_file_descriptor_def bc_io_stream_init_common_fields_def Let_def
      split: prod.splits option.splits if_splits)

lemma place_stream_simps [simp]:
  "trace (place_stream s w) = trace w" "streams (place_stream s w) = (streams w)(stream_self s \<mapsto> s)"
  by (simp_all add: place_stream_def)

lemma destroy_handle_spec:
  assumes "handle_ok h w"
  shows "\<exists>w'. bc_io_file_read_handle_destroy env h w = Some w' \<and>
    (\<forall>r. balance (trace w') r = balance (trace w) r -
       (if handle_kind h = BC_IO_READ_HANDLE_KIND_MEMORY_MAPPED then handle_holds h w r
        else handle_holds (h\<lparr>handle_map := None\<rparr>) w r))"
proof (cases "handle_kind h")
  case BC_IO_READ_HANDLE_KIND_MEMORY_MAPPED
  then obtain m where m: "handle_map h = Some m" "map_ok m w" using assms by (auto simp: handle_ok_def)
  from destroy_spec [OF m(2), of env] show ?thesis
    using BC_IO_READ_HANDLE_KIND_MEMORY_MAPPED m(1)
    by (auto simp: bc_io_file_read_handle_destroy_def handle_holds_def io_balance)
next
  case BC_IO_READ_HANDLE_KIND_BUFFERED
  then obtain s where s: "streams w (handle_stream h) = Some s" "stream_self s = handle_stream h" "stream_buffer_used s = 0"
    "handle_stream h \<noteq> NULL" using assms by (auto simp: handle_ok_def)
  from close_at_idle [OF s(1-3), of env] show ?thesis
    using BC_IO_READ_HANDLE_KIND_BUFFERED s
    by (auto simp: bc_io_file_read_handle_destroy_def handle_holds_def io_balance)
qed

text \<open>
  What opening promises: on failure nothing is held. On success the handle is usable and accounts for
  everything acquired, except that the descriptor of a buffered handle stays open beside it.
\<close>

definition open_outcome :: "int \<Rightarrow> 'w heap_world_scheme \<Rightarrow> bc_io_file_read_handle option \<Rightarrow> 'w heap_world_scheme \<Rightarrow> bool" where
  "open_outcome fd w res w' \<longleftrightarrow>
     (case res of
        None \<Rightarrow> \<forall>r. balance (trace w') r = balance (trace w) r
      | Some h \<Rightarrow> handle_ok h w' \<and> (handle_kind h = BC_IO_READ_HANDLE_KIND_BUFFERED \<longrightarrow> handle_map h = None) \<and>
          (\<forall>r. balance (trace w') r = balance (trace w) r + handle_holds h w' r +
             of_bool (handle_kind h = BC_IO_READ_HANDLE_KIND_BUFFERED \<and> r = Descriptor fd)))"

lemma open_auto_buffered_spec:
  assumes "addresses_ok env" and "open_auto_buffered env ctx fd options hp n w = (res, w')"
    and before: "\<And>r. balance (trace w) r = balance (trace w0) r + of_bool (r = Descriptor fd) + of_bool (r = Block hp)"
  shows "open_outcome fd w0 res w'" and "res = Some h \<Longrightarrow> handle_kind h = BC_IO_READ_HANDLE_KIND_BUFFERED \<and> handle_file_size h = n"
proof -
  let ?n = "if open_buffer_size options \<noteq> 0 then open_buffer_size options else BC_IO_OPEN_DEFAULT_BUFFER_SIZE"
  obtain os w1 where o: "bc_io_stream_open_file_descriptor env ctx fd BC_IO_STREAM_SOURCE_FILE BC_IO_STREAM_MODE_READ ?n w = (os, w1)"
    by fastforce
  note spec = open_file_descriptor_spec [OF o]
  have "open_outcome fd w0 res w' \<and> (\<forall>h. res = Some h \<longrightarrow> handle_kind h = BC_IO_READ_HANDLE_KIND_BUFFERED \<and> handle_file_size h = n)"
  proof (cases os)
    case None
    then show ?thesis
      using assms(2) o spec before by (auto simp: open_auto_buffered_def Let_def open_outcome_def io_balance)
  next
    case (Some s)
    then have "stream_self s \<noteq> NULL" using open_file_descriptor_self o assms(1) by blast
    then show ?thesis
      using assms o spec Some before
      by (auto simp: open_auto_buffered_def Let_def open_outcome_def handle_ok_def handle_holds_def freshly_open_def)
  qed
  then show "open_outcome fd w0 res w'" and "res = Some h \<Longrightarrow> handle_kind h = BC_IO_READ_HANDLE_KIND_BUFFERED \<and> handle_file_size h = n"
    by auto
qed

lemma addresses_ok_mmap: "addresses_ok env \<Longrightarrow> env_mmap env h n pr fl fd off = Inr p \<Longrightarrow> p \<noteq> NULL"
  unfolding addresses_ok_def by blast

lemma open_auto_mapped_spec:
  assumes env: "addresses_ok env"
    and before: "\<And>r. balance (trace w) r = balance (trace w0) r + of_bool (r = Descriptor fd) + of_bool (r = Block hp)"
  shows "\<exists>res w'. open_auto_mapped env ctx fd hp n w = Some (res, w') \<and> open_outcome fd w0 res w' \<and>
    (\<forall>h. res = Some h \<longrightarrow> handle_kind h = BC_IO_READ_HANDLE_KIND_MEMORY_MAPPED \<and> handle_file_size h = n)"
proof -
  define mr where "mr = (if n > 0 then sys_mmap env n PROT_READ MAP_SHARED fd 0 w else (Inr NULL, w))"
  obtain ba w1 where mr: "mr = (ba, w1)" by fastforce
  have b1: "balance (trace w1) r = balance (trace w) r + (case ba of Inl _ \<Rightarrow> 0 | Inr p \<Rightarrow> of_bool (n > 0 \<and> r = Mapping p n))" for r
    using mr by (auto simp: mr_def sys_mmap_def answer_def split: sum.splits if_splits)
  have nz: "p \<noteq> NULL \<longleftrightarrow> n > 0" if "ba = Inr p" for p
    using mr that env by (auto simp: mr_def sys_mmap_def answer_def dest: addresses_ok_mmap split: sum.splits if_splits)
  show ?thesis
  proof (cases ba)
    case (Inl e)
    then show ?thesis
      using mr b1 before by (auto simp: open_auto_mapped_def mr_def [symmetric] open_outcome_def io_balance)
  next
    case (Inr p)
    let ?w2 = "sys_close env fd w1"
    obtain cr w3 where c: "bc_io_mmap_create_from_address env ctx p n ?w2 = (cr, w3)" by fastforce
    note cs = create_from_address_spec [OF c]
    show ?thesis
    proof (cases cr)
      case None
      then show ?thesis
        using mr Inr b1 before c cs nz [OF Inr]
        by (auto simp: open_auto_mapped_def mr_def [symmetric] open_outcome_def io_balance Let_def)
    next
      case (Some m)
      have m: "map_stream m = NULL" "map_ok m w3" "\<And>r. balance (trace w3) r = balance (trace w0) r + of_bool (r = Block hp) + map_holds m r"
        using cs Some b1 before Inr nz [OF Inr] by (auto simp: map_ok_def map_holds_def maps_region_def io_balance)
      obtain gr m' w4 where g: "bc_io_mmap_get_stream env m w3 = ((gr, m'), w4)" by (metis surj_pair)
      note gs = get_stream_spec(1-3) [OF env m(2) g]
      obtain w5 where d: "bc_io_mmap_destroy env m' w4 = Some w5" "\<And>r. balance (trace w5) r = balance (trace w4) r - map_holds m' r"
        using destroy_spec [OF gs(1)] by blast
      show ?thesis
        using mr Inr c Some g d m(3) gs
        by (cases gr) (auto simp: open_auto_mapped_def mr_def [symmetric] open_outcome_def io_balance Let_def
            handle_ok_def handle_holds_def)
    qed
  qed
qed

text \<open>
  The first part of \<^verbatim>\<open>bc_io_file_open_auto\<close>: it either fails with nothing held or reaches the choice by size, with the descriptor and the block of the
  handle in its hands and nothing transferred on any descriptor.
\<close>

lemma open_auto_reaches:
  fixes w :: "'w heap_world_scheme"
  obtains (failed) w' where "bc_io_file_open_auto env ctx path threshold options w = Some (None, w')"
      and "\<And>r. balance (trace w') r = balance (trace w) r"
  | (chosen) fd w1 st hp w3 where "bc_io_file_open_resolve_descriptor env path options w = (Some fd, w1)"
      and "env_fstat env (trace w1) fd = Inr st"
      and "bc_io_file_open_auto env ctx path threshold options w =
          (if st_size st < (if threshold = 0 then 262144 else threshold) then Some (open_auto_buffered env ctx fd options hp (st_size st) w3)
           else open_auto_mapped env ctx fd hp (st_size st) w3)"
      and "\<And>r. balance (trace w3) r = balance (trace w) r + of_bool (r = Descriptor fd) + of_bool (r = Block hp)"
      and "transfers w3 = transfers w1"
proof -
  obtain d w1 where rd: "bc_io_file_open_resolve_descriptor env path options w = (d, w1)" by fastforce
  note b1 = resolve_descriptor_balance [OF rd]
  show thesis
  proof (cases d)
    case None
    then show thesis using rd b1 by (intro failed [of w1]) (simp_all add: bc_io_file_open_auto_def Let_def)
  next
    case (Some fd)
    obtain st w2 where f: "sys_fstat env fd w1 = (st, w2)" by fastforce
    obtain al w3 where a: "pool_allocate env ctx sizeof_bc_io_file_read_handle w2 = (al, w3)" by fastforce
    have b3: "balance (trace w3) r = balance (trace w2) r + (case al of Inl _ \<Rightarrow> 0 | Inr p \<Rightarrow> of_bool (r = Block p))" for r
      using a by (auto simp: pool_allocate_def answer_def split: sum.splits)
    have tr: "transfers w3 = transfers w1"
      using f a by (auto simp: transfers_def fun_eq_iff sys_fstat_def pool_allocate_def answer_def split: sum.splits)
    note b2 = sys_fstat_balance [OF f]
    consider e where "st = Inl e" | e x where "st = Inr x" "al = Inl e" | x hp where "st = Inr x" "al = Inr hp" by (cases st; cases al) auto
    then show thesis
    proof cases
      case 1
      then show thesis
        using rd Some f b1 b2 by (intro failed [of "sys_close env fd w2"]) (simp_all add: bc_io_file_open_auto_def Let_def io_balance)
    next
      case (2 e x)
      then show thesis
        using rd Some f a b1 b2 b3
        by (intro failed [of "sys_close env fd w3"]) (simp_all add: bc_io_file_open_auto_def Let_def io_balance)
    next
      case (3 x hp)
      have "env_fstat env (trace w1) fd = Inr x" using f 3 by (auto simp: sys_fstat_def answer_def split: sum.splits)
      then show thesis
        using rd Some f a b1 b2 b3 3 tr
        by (intro chosen [of fd w1 x hp w3]) (simp_all add: bc_io_file_open_auto_def Let_def BC_IO_OPEN_DEFAULT_THRESHOLD_def)
    qed
  qed
qed

text \<open>The whole of \<^verbatim>\<open>bc_io_file_open_auto\<close>, by the call that decides its outcome.\<close>

lemma open_auto_spec:
  fixes w :: "'w heap_world_scheme"
  assumes "addresses_ok env"
  shows "\<exists>res w'. bc_io_file_open_auto env ctx path threshold options w = Some (res, w') \<and>
    ((\<forall>r. balance (trace w') r = balance (trace w) r) \<and> res = None \<or>
     (\<exists>fd. open_outcome fd w res w' \<and> (\<forall>h. res = Some h \<longrightarrow>
        (handle_kind h = BC_IO_READ_HANDLE_KIND_MEMORY_MAPPED \<longleftrightarrow> handle_file_size h \<ge> (if threshold = 0 then 262144 else threshold)))))"
proof (rule open_auto_reaches [of env ctx path threshold options w])
  let ?t = "if threshold = 0 then 262144 else threshold"
  fix fd w1 st hp w3
  assume run: "bc_io_file_open_auto env ctx path threshold options w = (if st_size st < ?t
      then Some (open_auto_buffered env ctx fd options hp (st_size st) w3) else open_auto_mapped env ctx fd hp (st_size st) w3)"
    and before: "\<And>r. balance (trace w3) r = balance (trace w) r + of_bool (r = Descriptor fd) + of_bool (r = Block hp)"
  show ?thesis
  proof (cases "st_size st < ?t")
    case True
    obtain res w' where o: "open_auto_buffered env ctx fd options hp (st_size st) w3 = (res, w')" by fastforce
    note sp = open_auto_buffered_spec [OF assms o before]
    have "open_outcome fd w res w' \<and> (\<forall>h. res = Some h \<longrightarrow>
        (handle_kind h = BC_IO_READ_HANDLE_KIND_MEMORY_MAPPED \<longleftrightarrow> handle_file_size h \<ge> ?t))"
      using sp True by (auto simp del: if_split simp: not_le)
    then show ?thesis unfolding run o using True by auto
  next
    case big: False
    from open_auto_mapped_spec [OF assms before, of ctx "st_size st"] obtain res w' where
      o: "open_auto_mapped env ctx fd hp (st_size st) w3 = Some (res, w')" "open_outcome fd w res w'"
        "\<forall>h. res = Some h \<longrightarrow> handle_kind h = BC_IO_READ_HANDLE_KIND_MEMORY_MAPPED \<and> handle_file_size h = st_size st" by blast
    then have "\<forall>h. res = Some h \<longrightarrow> (handle_kind h = BC_IO_READ_HANDLE_KIND_MEMORY_MAPPED \<longleftrightarrow> handle_file_size h \<ge> ?t)"
      using big by (simp add: not_less)
    then show ?thesis unfolding run o(1) using o(2) big by auto
  qed
qed auto

section \<open>Properties\<close>

text \<open>
  C25 \<^verbatim>\<open>bc_io_file_open_read\<close>: a failure leaves no descriptor, block or arena behind. A success gives a fresh
  readable stream, but the stream does not own the descriptor that was opened for it: after the
  stream is closed everything is given back except that descriptor, which nothing ever closes.
\<close>

theorem open_read_leaks_descriptor:
  fixes w :: "'w heap_world_scheme"
  assumes "addresses_ok env" and "bc_io_file_open_read env ctx path options w = (res, w1)"
  shows "case res of
      None \<Rightarrow> \<forall>r. balance (trace w1) r = balance (trace w) r
    | Some p \<Rightarrow> \<exists>s w2. streams w1 p = Some s \<and> freshly_open s \<and> stream_mode s = BC_IO_STREAM_MODE_READ \<and>
        close_at env p w1 = Some w2 \<and>
        (\<forall>r. balance (trace w2) r = balance (trace w) r + of_bool (r = Descriptor (stream_file_descriptor s)))"
proof -
  let ?n = "if open_buffer_size options \<noteq> 0 then open_buffer_size options else BC_IO_OPEN_DEFAULT_BUFFER_SIZE"
  obtain d wd where rd: "bc_io_file_open_resolve_descriptor env path options w = (d, wd)" by fastforce
  note b = resolve_descriptor_balance [OF rd]
  show ?thesis
  proof (cases d)
    case None
    then show ?thesis using assms(2) rd b by (auto simp: bc_io_file_open_read_def)
  next
    case (Some fd)
    obtain os ws where o: "bc_io_stream_open_file_descriptor env ctx fd BC_IO_STREAM_SOURCE_FILE BC_IO_STREAM_MODE_READ ?n wd = (os, ws)"
      by fastforce
    note spec = open_file_descriptor_spec [OF o]
    show ?thesis
    proof (cases os)
      case None
      then show ?thesis using assms(2) rd b o spec Some by (auto simp: bc_io_file_open_read_def Let_def io_balance)
    next
      case os: (Some s)
      then have r: "res = Some (stream_self s)" "w1 = place_stream s ws"
        using assms(2) rd o Some by (simp_all add: bc_io_file_open_read_def Let_def)
      have s: "stream_buffer_used s = 0" using spec os by (simp add: freshly_open_def)
      have "streams w1 (stream_self s) = Some s" by (simp add: r)
      from close_at_idle [OF this refl s, of env] show ?thesis
        using spec os assms(1) b Some by (auto simp: r)
    qed
  qed
qed

definition open_options :: bc_io_file_open_options where
  "open_options = \<lparr>use_noatime = True, nonblock = False, fadvise_hint = BC_IO_MADVISE_NORMAL, open_buffer_size = 64\<rparr>"

theorem open_read_leaks_descriptor_witness:
  "\<exists>p w1 s w2. bc_io_file_open_read calm_env 1 [97] open_options heap_start = (Some p, w1) \<and>
    streams w1 p = Some s \<and> freshly_open s \<and> stream_mode s = BC_IO_STREAM_MODE_READ \<and> close_at calm_env p w1 = Some w2 \<and>
    (\<forall>r. balance (trace w2) r = balance (trace heap_start) r + of_bool (r = Descriptor (stream_file_descriptor s)))"
proof -
  obtain res w1 where run: "bc_io_file_open_read calm_env 1 [97] open_options heap_start = (res, w1)" by fastforce
  moreover have "res \<noteq> None"
    using run by (auto simp: bc_io_file_open_read_def bc_io_file_open_resolve_descriptor_def bc_io_file_open_for_read_def
        bc_io_file_open_options_flags_def open_options_def bc_io_stream_open_file_descriptor_def probe_file_def
        bc_io_stream_io_get_file_size_def bc_io_stream_io_advise_sequential_def bc_io_stream_allocate_with_buffer_def
        sys_defs answer_def Let_def split: if_splits)
  ultimately show ?thesis using open_read_leaks_descriptor [OF calm_env_ok(5) run] by auto
qed

text \<open>
  C24 \<^verbatim>\<open>bc_io_file_open_auto\<close> returns in every case; it maps the file exactly when its size reaches the
  threshold (256 KiB when the caller gives 0) and records the size. A failure at any point leaves
  nothing behind. Destroying the handle, also after its stream was used, returns and gives back
  everything for a mapped handle; for a buffered handle the descriptor stays open.
\<close>

theorem open_auto_life:
  fixes w :: "'w heap_world_scheme"
  assumes "addresses_ok env"
  shows "\<exists>res w1. bc_io_file_open_auto env ctx path threshold options w = Some (res, w1) \<and>
    (case res of
       None \<Rightarrow> \<forall>r. balance (trace w1) r = balance (trace w) r
     | Some h \<Rightarrow> \<exists>fd w2.
         (bc_io_file_read_handle_is_memory_mapped h \<longleftrightarrow>
            bc_io_file_read_handle_get_size h \<ge> (if threshold = 0 then 262144 else threshold)) \<and>
         handle_ok h w1 \<and> bc_io_file_read_handle_destroy env h w1 = Some w2 \<and>
         (\<forall>r. balance (trace w2) r = balance (trace w) r +
            of_bool (\<not> bc_io_file_read_handle_is_memory_mapped h \<and> r = Descriptor fd)))"
proof -
  let ?t = "if threshold = 0 then 262144 else threshold"
  obtain res w' where main: "bc_io_file_open_auto env ctx path threshold options w = Some (res, w')"
    "(\<forall>r. balance (trace w') r = balance (trace w) r) \<and> res = None \<or>
     (\<exists>fd. open_outcome fd w res w' \<and> (\<forall>h. res = Some h \<longrightarrow>
        (handle_kind h = BC_IO_READ_HANDLE_KIND_MEMORY_MAPPED \<longleftrightarrow> handle_file_size h \<ge> ?t)))"
    using open_auto_spec [OF assms, of ctx path threshold options w] by blast
  show ?thesis
  proof (cases res)
    case None
    then show ?thesis using main by (auto simp: open_outcome_def)
  next
    case (Some h)
    then obtain fd where o: "open_outcome fd w (Some h) w'"
      "handle_kind h = BC_IO_READ_HANDLE_KIND_MEMORY_MAPPED \<longleftrightarrow> handle_file_size h \<ge> ?t" using main(2) by auto
    then have h: "handle_ok h w'" "handle_kind h = BC_IO_READ_HANDLE_KIND_BUFFERED \<longrightarrow> handle_map h = None"
      "\<And>r. balance (trace w') r = balance (trace w) r + handle_holds h w' r +
         of_bool (handle_kind h = BC_IO_READ_HANDLE_KIND_BUFFERED \<and> r = Descriptor fd)"
      by (simp_all add: open_outcome_def)
    from destroy_handle_spec [OF h(1), of env] obtain w2 where d: "bc_io_file_read_handle_destroy env h w' = Some w2"
      "\<And>r. balance (trace w2) r = balance (trace w') r -
         (if handle_kind h = BC_IO_READ_HANDLE_KIND_MEMORY_MAPPED then handle_holds h w' r
          else handle_holds (h\<lparr>handle_map := None\<rparr>) w' r)" by blast
    have same: "handle_holds (h\<lparr>handle_map := None\<rparr>) w' r = handle_holds h w' r" if "handle_map h = None" for r
      using that by (simp add: handle_holds_def)
    have "balance (trace w2) r = balance (trace w) r +
        of_bool (\<not> bc_io_file_read_handle_is_memory_mapped h \<and> r = Descriptor fd)" for r
      using d(2) [of r] h(2,3) same by (cases "handle_kind h") (simp_all add: bc_io_file_read_handle_is_memory_mapped_def)
    then show ?thesis
      using main(1) Some d(1) h(1) o(2)
      by (auto simp: bc_io_file_read_handle_is_memory_mapped_def bc_io_file_read_handle_get_size_def)
  qed
qed

theorem open_auto_life_witness:
  "\<exists>res w1. bc_io_file_open_auto calm_env 1 [97] 0 open_options heap_start = Some (res, w1) \<and>
    (case res of
       None \<Rightarrow> \<forall>r. balance (trace w1) r = balance (trace heap_start) r
     | Some h \<Rightarrow> \<exists>fd w2.
         (bc_io_file_read_handle_is_memory_mapped h \<longleftrightarrow>
            bc_io_file_read_handle_get_size h \<ge> (if (0 :: size_t) = 0 then 262144 else 0)) \<and>
         handle_ok h w1 \<and> bc_io_file_read_handle_destroy calm_env h w1 = Some w2 \<and>
         (\<forall>r. balance (trace w2) r = balance (trace heap_start) r +
            of_bool (\<not> bc_io_file_read_handle_is_memory_mapped h \<and> r = Descriptor fd)))"
  by (rule open_auto_life [OF calm_env_ok(5)])

end
