(* ===== verification/IO_File_Reading.thy ===== *)
theory IO_File_Reading
  imports IO_File_Open IO_Stream_Read
begin

text \<open>
  Reading a file through a read handle, whichever way \<^verbatim>\<open>bc_io_file_open_auto\<close> chose: the buffered stream over the descriptor
  and the memory stream over the mapping hand out the same bytes. What the kernel does for a regular file that nobody changes is stated for
  the descriptor the file was opened on: \<^verbatim>\<open>read\<close> serves the contents in order, \<^verbatim>\<open>fstat\<close> tells their length, and the memory that
  \<^verbatim>\<open>mmap\<close> gives holds them.
\<close>

section \<open>A file behind a descriptor\<close>

text \<open>\<open>memory p n\<close> are the \<open>n\<close> bytes of memory from address \<open>p\<close> on.\<close>

definition file_behind :: "io_env \<Rightarrow> (addr \<Rightarrow> size_t \<Rightarrow> bytes) \<Rightarrow> int \<Rightarrow> bytes \<Rightarrow> bool" where
  "file_behind env memory fd content \<longleftrightarrow> serves env fd content \<and>
     (\<forall>h st. env_fstat env h fd = Inr st \<longrightarrow> unat (st_size st) = length content) \<and>
     (\<forall>h n flags off p. env_mmap env h n PROT_READ flags fd off = Inr p \<longrightarrow> unat off + unat n \<le> length content \<longrightarrow>
        memory p n = take (unat n) (drop (unat off) content))"

text \<open>The memory a stream reads from: the mapped region of a memory stream, none for a descriptor.\<close>

definition region_of :: "(addr \<Rightarrow> size_t \<Rightarrow> bytes) \<Rightarrow> bc_io_stream \<Rightarrow> bytes" where
  "region_of memory s = (if stream_source_type s = BC_IO_STREAM_SOURCE_MEMORY then memory (stream_memory_data s) (stream_memory_size s) else [])"

section \<open>The stream of a handle\<close>

lemma resolve_descriptor_transfers:
  "transfers (snd (bc_io_file_open_resolve_descriptor env path options w)) = transfers w"
  by (auto simp: transfers_def bc_io_file_open_resolve_descriptor_def bc_io_file_open_for_read_def sys_open_def answer_def Let_def fun_eq_iff
      split: sum.splits)

text \<open>
  A stream from which the whole contents will come: nothing has been delivered yet, and its source is the descriptor or a region
  that holds the contents.
\<close>

definition stream_before :: "io_env \<Rightarrow> (addr \<Rightarrow> size_t \<Rightarrow> bytes) \<Rightarrow> bytes \<Rightarrow> bc_io_stream \<Rightarrow> 'w io_world_scheme \<Rightarrow> bool" where
  "stream_before env memory content s w \<longleftrightarrow> freshly_open s \<and> readable s \<and> stream_buffer_size s \<noteq> 0 \<and>
     (if stream_source_type s = BC_IO_STREAM_SOURCE_MEMORY
      then region_of memory s = content \<and> unat (stream_memory_size s) = length content
      else serves env (stream_file_descriptor s) content \<and> os_delivered (trace w) (stream_file_descriptor s) = [])"

lemma buffered_stream_before:
  assumes core: "bc_core_ok env" and buf: "unat (open_buffer_size options) + 63 < 2 ^ 64"
    and serves: "serves env fd content" and fresh: "os_delivered (trace w) fd = []"
    and run: "open_auto_buffered env ctx fd options hp n w = (Some h, w')"
  obtains s where "streams w' (handle_stream h) = Some s" and "stream_before env memory content s w'"
    and "handle_kind h = BC_IO_READ_HANDLE_KIND_BUFFERED" and "handle_file_size h = n"
proof -
  let ?n = "if open_buffer_size options \<noteq> 0 then open_buffer_size options else BC_IO_OPEN_DEFAULT_BUFFER_SIZE"
  obtain os w1 where o: "bc_io_stream_open_file_descriptor env ctx fd BC_IO_STREAM_SOURCE_FILE BC_IO_STREAM_MODE_READ ?n w = (os, w1)"
    by fastforce
  then obtain s where s: "os = Some s" "w' = place_stream s w1" "handle_stream h = stream_self s"
      "handle_kind h = BC_IO_READ_HANDLE_KIND_BUFFERED" "handle_file_size h = n"
    using run by (cases os) (auto simp: open_auto_buffered_def Let_def)
  have sp: "freshly_open s" "stream_mode s = BC_IO_STREAM_MODE_READ" "stream_source_type s = BC_IO_STREAM_SOURCE_FILE" "stream_file_descriptor s = fd"
    using open_file_descriptor_spec [OF o] s(1) by simp_all
  have "unat ?n + 63 < 2 ^ 64" using buf by (simp add: BC_IO_OPEN_DEFAULT_BUFFER_SIZE_def)
  from open_file_descriptor_buffer_nonzero [OF core this o [unfolded s(1)]] have "stream_buffer_size s \<noteq> 0" .
  moreover have "os_delivered (trace w1) fd = []"
    using open_file_descriptor_transfers [of env ctx fd BC_IO_STREAM_SOURCE_FILE BC_IO_STREAM_MODE_READ ?n w] o fresh by (simp add: transfers_def)
  ultimately show thesis
    using that [of s] s sp serves by (simp add: stream_before_def readable_def)
qed

lemma mapped_stream_before:
  assumes env: "addresses_ok env" and backing: "file_behind env memory fd content" and n: "unat n = length content" "n \<noteq> 0"
    and run: "open_auto_mapped env ctx fd hp n w = Some (Some h, w')"
  obtains s where "streams w' (handle_stream h) = Some s" and "stream_before env memory content s w'"
    and "handle_kind h = BC_IO_READ_HANDLE_KIND_MEMORY_MAPPED" and "handle_file_size h = n"
proof -
  obtain p w1 where m: "sys_mmap env n PROT_READ MAP_SHARED fd 0 w = (Inr p, w1)"
    using run n(2) by (auto simp: open_auto_mapped_def word_gt_0 split: sum.splits prod.splits)
  then have "env_mmap env (trace w) n PROT_READ MAP_SHARED fd 0 = Inr p" by (auto simp: sys_mmap_def answer_def split: sum.splits)
  then have mem: "memory p n = content" using backing n(1) by (auto simp: file_behind_def)
  obtain mp w2 where c: "bc_io_mmap_create_from_address env ctx p n (sys_close env fd w1) = (Some mp, w2)"
    using run n(2) m by (auto simp: open_auto_mapped_def word_gt_0 Let_def split: option.splits prod.splits)
  have mp: "map_stream mp = NULL" "map_base_address mp = p" "map_mapped_size mp = n" "map_ok mp w2"
    using create_from_address_spec [OF c] by (simp_all add: map_ok_def)
  obtain q mp' where g: "bc_io_mmap_get_stream env mp w2 = ((Some q, mp'), w')" and h: "handle_stream h = q"
      "handle_kind h = BC_IO_READ_HANDLE_KIND_MEMORY_MAPPED" "handle_file_size h = n"
    using run n(2) m c by (auto simp: open_auto_mapped_def word_gt_0 Let_def split: option.splits prod.splits)
  obtain os w3 where o: "bc_io_stream_open_memory env (map_memory_context mp) p n w2 = (os, w3)" by fastforce
  then obtain s where s: "os = Some s" "streams w' q = Some s" using g mp by (cases os) (auto simp: bc_io_mmap_get_stream_def)
  note sp = open_memory_spec [OF o [unfolded s(1)], simplified]
  show thesis
    using that [of s] sp s h mem n(1) by (simp add: stream_before_def readable_def region_of_def)
qed

lemma handle_stream_before:
  fixes w :: "'w heap_world_scheme"
  assumes env: "bc_core_ok env" "addresses_ok env" and rd: "bc_io_file_open_resolve_descriptor env path options w = (Some fd, w0)"
    and backing: "file_behind env memory fd content" and fresh: "os_delivered (trace w) fd = []"
    and buf: "unat (open_buffer_size options) + 63 < 2 ^ 64"
    and run: "bc_io_file_open_auto env ctx path threshold options w = Some (Some h, w1)"
  obtains s where "streams w1 (handle_stream h) = Some s" and "stream_before env memory content s w1"
    and "unat (handle_file_size h) = length content" and "open_outcome fd w (Some h) w1"
proof (rule open_auto_reaches [of env ctx path threshold options w])
  let ?t = "if threshold = 0 then 262144 else threshold"
  fix fd' w0' st hp w3
  assume rd': "bc_io_file_open_resolve_descriptor env path options w = (Some fd', w0')" and st: "env_fstat env (trace w0') fd' = Inr st"
    and choice: "bc_io_file_open_auto env ctx path threshold options w = (if st_size st < ?t
      then Some (open_auto_buffered env ctx fd' options hp (st_size st) w3) else open_auto_mapped env ctx fd' hp (st_size st) w3)"
    and before: "\<And>r. balance (trace w3) r = balance (trace w) r + of_bool (r = Descriptor fd') + of_bool (r = Block hp)"
    and tr: "transfers w3 = transfers w0'"
  have fd: "fd' = fd" "w0' = w0" using rd rd' by simp_all
  have n: "unat (st_size st) = length content" using st backing by (simp add: file_behind_def fd)
  have d: "os_delivered (trace w3) fd = []"
    using tr resolve_descriptor_transfers [of env path options w] rd fresh by (simp add: transfers_def fd)
  show thesis
  proof (cases "st_size st < ?t")
    case True
    then have o: "open_auto_buffered env ctx fd options hp (st_size st) w3 = (Some h, w1)" using choice run by (simp add: fd)
    have "serves env fd content" using backing by (simp add: file_behind_def)
    from buffered_stream_before [OF env(1) buf this d o, of memory] show thesis
      using that open_auto_buffered_spec(1) [OF env(2) o before [unfolded fd]] n by metis
  next
    case False
    then have o: "open_auto_mapped env ctx fd hp (st_size st) w3 = Some (Some h, w1)" using choice run by (simp add: fd)
    have "st_size st \<noteq> 0" using False by (auto simp: word_gt_0 split: if_splits)
    from mapped_stream_before [OF env(2) backing n this o] show thesis
      using that open_auto_mapped_spec [OF env(2) before [unfolded fd], of ctx "st_size st"] o n by (metis option.inject prod.inject)
  qed
qed (use run in simp)

section \<open>Reading to the end\<close>

lemma read_to_end:
  fixes w :: "'w io_world_scheme"
  assumes env: "read_env_ok env" and before: "stream_before env memory content s w" and k: "k > length content"
  obtains bss s' w' where "take_chunks (next_bytes env) k (region_of memory s, s) w = Some (bss, True, (region_of memory s, s'), w')"
    and "concat bss = content" and "[] \<notin> set bss" and "bc_io_stream_is_end_of_stream s'"
    and "stream_ok s'" and "stream_frame s' = stream_frame s" and "balance (trace w') = balance (trace w)"
proof -
  let ?mem = "region_of memory s"
  have inv: "finite_invar (env, content) (?mem, s) w"
    using before env by (auto simp: stream_before_def finite_invar_def source_invar_def source_ok_def freshly_open_def region_of_def)
  have given: "given_bytes (?mem, s) w = []" and whole: "source_whole (env, content) (?mem, s) = content"
    using before by (auto simp: stream_before_def given_bytes_def source_whole_def freshly_open_def)
  from file_source.take_chunks_whole [OF inv, of k] k obtain bss st' w' where
    t: "take_chunks (next_bytes env) k (?mem, s) w = Some (bss, True, st', w')" "finite_invar (env, content) st' w'"
      "source_ended st'" "concat bss = content" "[] \<notin> set bss"
    unfolding given whole by (auto simp: finite_next_def)
  from take_chunks_frame [OF t(1)] inv obtain s' where
    s': "st' = (?mem, s')" "stream_frame s' = stream_frame s" "balance (trace w') = balance (trace w)" by (auto simp: finite_invar_def)
  show thesis
    using that [of bss s' w'] t s'
    by (simp add: source_ended_def bc_io_stream_is_end_of_stream_def finite_invar_def source_invar_def source_ok_def)
qed

text \<open>A handle stays usable while its stream is read; it accounts for the same things.\<close>

lemma handle_after_reading:
  fixes w w' :: "'w heap_world_scheme"
  assumes ok: "handle_ok h w" and s: "streams w (handle_stream h) = Some s" and fr: "stream_frame s' = stream_frame s"
    and used: "stream_buffer_used s' = 0" and self: "stream_self s = handle_stream h"
  shows "handle_ok h (place_stream s' w')" and "handle_holds h (place_stream s' w') r = handle_holds h w r"
proof -
  note f = stream_frameD [OF fr]
  show "handle_ok h (place_stream s' w')"
    using ok s used f self by (auto simp: handle_ok_def map_ok_def plain_stream_def split: bc_io_file_read_handle_kind.splits)
  show "handle_holds h (place_stream s' w') r = handle_holds h w r"
    using s f(1) self stream_holds_cong [OF fr] by (simp add: handle_holds_def split: option.split)
qed

text \<open>Destroying a handle whose stream was read gives back what opening it acquired, except the descriptor of a buffered one.\<close>

lemma destroy_after_reading:
  fixes w w1 w2 :: "'w heap_world_scheme"
  assumes s: "streams w1 (handle_stream h) = Some s" and before: "stream_before env memory content s w1"
    and o: "open_outcome fd w (Some h) w1" and s': "stream_ok s'" "stream_frame s' = stream_frame s"
    and b: "balance (trace w2) = balance (trace w1)"
  shows "\<exists>w3. bc_io_file_read_handle_destroy env h (place_stream s' w2) = Some w3 \<and>
    (\<forall>r. balance (trace w3) r = balance (trace w) r + of_bool (\<not> bc_io_file_read_handle_is_memory_mapped h \<and> r = Descriptor fd))"
proof -
  have h: "handle_ok h w1" "handle_kind h = BC_IO_READ_HANDLE_KIND_BUFFERED \<longrightarrow> handle_map h = None"
    "\<And>r. balance (trace w1) r = balance (trace w) r + handle_holds h w1 r +
       of_bool (handle_kind h = BC_IO_READ_HANDLE_KIND_BUFFERED \<and> r = Descriptor fd)"
    using o by (simp_all add: open_outcome_def)
  have used: "stream_buffer_used s' = 0"
    using s' before stream_frameD(7) [OF s'(2)] by (simp add: stream_ok_def stream_before_def readable_def)
  have self: "stream_self s = handle_stream h"
    using h(1) s by (auto simp: handle_ok_def map_ok_def plain_stream_def split: bc_io_file_read_handle_kind.splits)
  note a = handle_after_reading [OF h(1) s s'(2) used self, of w2]
  have same: "handle_holds (h\<lparr>handle_map := None\<rparr>) x r = handle_holds h x r" if "handle_map h = None" for r and x :: "'w heap_world_scheme"
    using that by (simp add: handle_holds_def)
  from destroy_handle_spec [OF a(1), of env] show ?thesis
    using h(2,3) b a(2) same by (cases "handle_kind h") (auto simp: bc_io_file_read_handle_is_memory_mapped_def)
qed

section \<open>A concrete file\<close>

text \<open>A kernel with a three-byte file, which can be mapped from its start on.\<close>

definition shared_file_env :: io_env where
  "shared_file_env = three_bytes_env\<lparr>env_fstat := \<lambda>h fd. Inr (plain_stat\<lparr>st_size := 3\<rparr>),
     env_mmap := \<lambda>h n prot flags fd off. if off = 0 then Inr 4096 else Inl EINVAL\<rparr>"

definition shared_memory :: "addr \<Rightarrow> size_t \<Rightarrow> bytes" where
  "shared_memory p n = take (unat n) [10, 20, 30]"

lemma shared_file_env_ok:
  "bc_core_ok shared_file_env" "read_env_ok shared_file_env" "addresses_ok shared_file_env"
  "file_behind shared_file_env shared_memory fd [10, 20, 30]"
  using three_bytes_env_ok
  by (auto simp: shared_file_env_def read_env_ok_def reads_bounded_def reads_reliable_def stalls_bounded_def addresses_ok_def bc_core_ok_def
      file_behind_def serves_def shared_memory_def split: if_splits)

lemma shared_file_sel:
  "env_open shared_file_env h p fl m = Inr (length h + 3)" "env_fstat shared_file_env h fd = Inr (plain_stat\<lparr>st_size := 3\<rparr>)"
  "env_mmap shared_file_env h n pr fl fd 0 = Inr 4096" "env_close shared_file_env h fd = Inr ()"
  "\<exists>p. env_pool_allocate shared_file_env h ctx n = Inr p \<and> p \<noteq> NULL"
  using three_bytes_env_ok(6) by (auto simp: shared_file_env_def three_bytes_env_def addresses_ok_def)

lemma shared_file_resolves:
  "bc_io_file_open_resolve_descriptor shared_file_env [97] open_options heap_start =
    (Some 3, snd (sys_open shared_file_env [97] (O_RDONLY OR O_CLOEXEC OR O_NOFOLLOW OR O_NOATIME) 0 heap_start))"
  by (simp add: bc_io_file_open_resolve_descriptor_def bc_io_file_open_for_read_def bc_io_file_open_options_flags_def open_options_def
      shared_file_sel heap_start_def sys_open_def answer_def Let_def)

lemma shared_file_opens:
  "\<exists>h w. bc_io_file_open_auto shared_file_env 1 [97] 2 open_options heap_start = Some (Some h, w) \<and> bc_io_file_read_handle_is_memory_mapped h"
proof -
  have alloc: "\<exists>p w'. pool_allocate shared_file_env ctx n w = (Inr p, w') \<and> p \<noteq> NULL" for ctx n and w :: heap_world
    using shared_file_sel(5) [of "trace w" ctx n] by (auto simp: pool_allocate_def answer_def)
  define w2 where "w2 = snd (sys_fstat shared_file_env 3
    (snd (sys_open shared_file_env [97] (O_RDONLY OR O_CLOEXEC OR O_NOFOLLOW OR O_NOATIME) 0 heap_start)))"
  obtain hp w3 where a1: "pool_allocate shared_file_env 1 sizeof_bc_io_file_read_handle w2 = (Inr hp, w3)" using alloc by blast
  define w4 where "w4 = sys_close shared_file_env 3 (snd (sys_mmap shared_file_env 3 PROT_READ MAP_SHARED 3 0 w3))"
  obtain mp w5 where a2: "pool_allocate shared_file_env 1 sizeof_bc_io_mmap w4 = (Inr mp, w5)" using alloc by blast
  obtain sp w6 where a3: "pool_allocate shared_file_env 1 sizeof_bc_io_stream w5 = (Inr sp, w6)" "sp \<noteq> NULL" using alloc by blast
  show ?thesis
    using a1 a2 a3
    by (simp add: bc_io_file_open_auto_def shared_file_resolves open_auto_mapped_def bc_io_mmap_create_from_address_def bc_io_mmap_get_stream_def
        bc_io_stream_open_memory_def bc_io_stream_init_common_fields_def bc_io_file_read_handle_is_memory_mapped_def Let_def
        w2_def w4_def sys_fstat_def sys_mmap_def shared_file_sel answer_def)
qed

end
