(* ===== verification/IO_Stream_Life.thy ===== *)
theory IO_Stream_Life
  imports IO_Stream_Write IO_Stream_Read
begin

text \<open>
  The life of a stream as a state machine: it is opened in one of the three ways, then any of the operations that change it
  follow in any order, whatever its mode and source, and whatever they return. The invariant of the reachable streams says that the
  counters agree with each other and that the world holds exactly what the stream holds; progress says that from every
  reachable state every operation returns, so that none of them meets an access outside the buffer or an endless loop.
\<close>

section \<open>Reachable streams\<close>

inductive opened :: "io_env \<Rightarrow> 'w io_world_scheme \<Rightarrow> bc_io_stream \<Rightarrow> 'w io_world_scheme \<Rightarrow> bool" for env and w :: "'w io_world_scheme" where
  Open_file: "bc_io_stream_open_file env ctx path mode n w = (Some s, w') \<Longrightarrow> opened env w s w'"
| Open_descriptor: "bc_io_stream_open_file_descriptor env ctx fd source_type mode n w = (Some s, w') \<Longrightarrow> opened env w s w'"
| Open_memory: "bc_io_stream_open_memory env ctx data n w = (Some s, w') \<Longrightarrow> opened env w s w'"

inductive stream_step :: "io_env \<Rightarrow> bc_io_stream \<Rightarrow> 'w io_world_scheme \<Rightarrow> bc_io_stream \<Rightarrow> 'w io_world_scheme \<Rightarrow> bool"
    for env and s :: bc_io_stream and w :: "'w io_world_scheme" where
  Read: "bc_io_stream_read_chunk env s w = Some (chunk, s', w') \<Longrightarrow> stream_step env s w s' w'"
| Write: "unat n \<le> length data \<Longrightarrow> bc_io_stream_write_chunk env s data n w = Some (result, s', w') \<Longrightarrow> stream_step env s w s' w'"
| Flushed: "bc_io_stream_flush env s w = Some (ok, s', w') \<Longrightarrow> stream_step env s w s' w'"
| Advise: "bc_io_stream_advise env s hint w = (ok, w') \<Longrightarrow> stream_step env s w s w'"

inductive stream_life :: "io_env \<Rightarrow> 'w io_world_scheme \<Rightarrow> bc_io_stream \<Rightarrow> 'w io_world_scheme \<Rightarrow> bool" for env and w0 :: "'w io_world_scheme" where
  Born: "opened env w0 s w \<Longrightarrow> stream_life env w0 s w"
| Used: "stream_life env w0 s w \<Longrightarrow> stream_step env s w s' w' \<Longrightarrow> stream_life env w0 s' w'"

section \<open>What the operations keep\<close>

text \<open>
  The counters of a stream: the position is what was read and written together, nothing counts as retried, and each mode leaves the
  counters of the other alone.
\<close>

definition counters_agree :: "bc_io_stream \<Rightarrow> bool" where
  "counters_agree s \<longleftrightarrow>
     stream_logical_position s = bytes_read (stream_stats s) + bytes_written (stream_stats s) \<and>
     retry_count (stream_stats s) = 0 \<and>
     (if stream_mode s = BC_IO_STREAM_MODE_READ
      then bytes_written (stream_stats s) = 0 \<and> write_count (stream_stats s) = 0
      else bytes_read (stream_stats s) = 0 \<and> read_count (stream_stats s) = 0 \<and> \<not> stream_end_of_stream s) \<and>
     (stream_source_type s = BC_IO_STREAM_SOURCE_MEMORY \<longrightarrow> stream_logical_position s = stream_memory_position s)"

lemma freshly_open_counters: "freshly_open s \<Longrightarrow> counters_agree s"
  by (simp add: freshly_open_def counters_agree_def zero_stats_def)

lemma flush_counters:
  assumes run: "bc_io_stream_flush env s w = Some (ok, s', w')"
  shows "counters_agree s' = counters_agree s" and "stream_frame s' = stream_frame s"
proof -
  have "counters_agree s' = counters_agree s \<and> stream_frame s' = stream_frame s"
  proof (cases "stream_buffer_used s = 0")
    case True
    then show ?thesis using run by (simp add: bc_io_stream_flush_def)
  next
    case False
    obtain wok n w1 where "bc_io_stream_io_write_full env (stream_file_descriptor s) (stream_contents s) (stream_buffer_used s) w = Some ((wok, n), w1)"
      using run False by (auto simp: bc_io_stream_flush_def Let_def bind_eq_Some_conv)
    then obtain c u where "s' = (let t = s\<lparr>stream_contents := c, stream_buffer_used := u\<rparr> in
        if n < stream_buffer_used s then t\<lparr>stream_stats := (stream_stats t)\<lparr>short_write_count := short_write_count (stream_stats t) + 1\<rparr>\<rparr> else t)"
      using run False by (cases "n < stream_buffer_used s") (auto simp: bc_io_stream_flush_def Let_def)
    then show ?thesis by (simp add: counters_agree_def stream_frame_def Let_def)
  qed
  then show "counters_agree s' = counters_agree s" and "stream_frame s' = stream_frame s" by simp_all
qed

lemma count_written_counters:
  assumes "counters_agree s" and "writable s"
  shows "counters_agree (count_written n s)"
  using assms by (auto simp: counters_agree_def count_written_def writable_def)

lemma write_chunk_counters:
  assumes "counters_agree s" and run: "bc_io_stream_write_chunk env s data n w = Some (result, s', w')"
  shows "counters_agree s'"
proof (cases "writable s")
  case True
  have small: "counters_agree (count_written k (t\<lparr>stream_contents := c, stream_buffer_used := u\<rparr>))"
    if "counters_agree t" "writable t" for k c u t
    by (rule count_written_counters) (use that in \<open>auto simp: counters_agree_def writable_def\<close>)
  have mode: "stream_mode s = BC_IO_STREAM_MODE_WRITE" "stream_source_type s \<noteq> BC_IO_STREAM_SOURCE_MEMORY"
    using True by (simp_all add: writable_def)
  show ?thesis
  proof (cases "n = 0 \<or> n \<le> stream_buffer_size s - stream_buffer_used s")
    case fits: True
    then show ?thesis
      using run assms(1) small [OF assms(1) True] mode by (auto simp: bc_io_stream_write_chunk_def split: if_splits)
  next
    case False
    then obtain ok t w1 where fl: "bc_io_stream_flush env s w = Some (ok, t, w1)"
      using run mode unfolding bc_io_stream_write_chunk_def flush_if_used by (auto simp: bind_eq_Some_conv)
    have t: "counters_agree t" "writable t"
      using flush_counters(1) [OF fl] stream_frameD(6,7) [OF flush_counters(2) [OF fl]] assms(1) True by (simp_all add: writable_def)
    have short: "counters_agree (u\<lparr>stream_stats := (stream_stats u)\<lparr>short_write_count := k\<rparr>\<rparr>) = counters_agree u" for u k
      by (simp add: counters_agree_def)
    show ?thesis
      using run False mode fl t small [OF t] count_written_counters [OF t]
      unfolding bc_io_stream_write_chunk_def flush_if_used by (auto simp: bind_eq_Some_conv Let_def short split: if_splits)
  qed
next
  case False
  then show ?thesis using run assms(1) by (auto simp: bc_io_stream_write_chunk_def writable_def split: if_splits)
qed

lemma read_chunk_counters:
  assumes agree: "counters_agree s" and run: "bc_io_stream_read_chunk env s w = Some (c, s', w')"
  shows "counters_agree s'"
proof (cases "stream_end_of_stream s \<or> stream_mode s \<noteq> BC_IO_STREAM_MODE_READ")
  case True
  then show ?thesis using agree run by (auto simp: bc_io_stream_read_chunk_def split: if_splits)
next
  case False
  show ?thesis
  proof (cases "stream_source_type s = BC_IO_STREAM_SOURCE_MEMORY")
    case True
    then have "s' = snd (bc_io_stream_read_chunk_memory s)"
      using run False by (simp add: bc_io_stream_read_chunk_def split: prod.splits)
    then show ?thesis
      using agree False True
      by (cases "stream_memory_position s \<ge> stream_memory_size s")
        (auto simp: bc_io_stream_read_chunk_memory_def counters_agree_def Let_def)
  next
    case descriptor: False
    then obtain ok n eof b w1 where
      "bc_io_stream_io_read_full env (stream_file_descriptor s) (stream_contents s) (stream_buffer_size s) w = Some ((ok, n, eof, b), w1)"
      using run False by (auto simp: bc_io_stream_read_chunk_def bc_io_stream_read_chunk_file_def bind_eq_Some_conv)
    then show ?thesis
      using run agree False descriptor
      by (cases ok; cases eof; cases "n = 0")
        (simp_all add: bc_io_stream_read_chunk_def bc_io_stream_read_chunk_file_def counters_agree_def Let_def split: if_splits,
         auto)
  qed
qed

text \<open>Well-formedness, the frame and what is held, for each operation on any stream.\<close>

definition kept :: "bc_io_stream \<Rightarrow> 'w io_world_scheme \<Rightarrow> bc_io_stream \<Rightarrow> 'w io_world_scheme \<Rightarrow> bool" where
  "kept s w s' w' \<longleftrightarrow> stream_ok s' \<and> stream_frame s' = stream_frame s \<and> balance (trace w') = balance (trace w)"

lemma read_chunk_keeps:
  assumes "reads_bounded env" and ok: "stream_ok s" and run: "bc_io_stream_read_chunk env s w = Some (c, s', w')"
  shows "kept s w s' w'"
proof (cases "stream_end_of_stream s \<or> stream_mode s \<noteq> BC_IO_STREAM_MODE_READ")
  case True
  then show ?thesis using run ok by (auto simp: bc_io_stream_read_chunk_def kept_def split: if_splits)
next
  case False
  show ?thesis
  proof (cases "stream_source_type s = BC_IO_STREAM_SOURCE_MEMORY")
    case True
    obtain c1 s1 where m: "bc_io_stream_read_chunk_memory s = (c1, s1)" by fastforce
    show ?thesis
      using read_chunk_memory_spec(1,2) [OF ok True m, of "replicate (unat (stream_memory_size s)) 0"] False True m run
      by (simp add: bc_io_stream_read_chunk_def kept_def)
  next
    case descriptor: False
    then have f: "bc_io_stream_read_chunk_file env s w = Some (c, s', w')" using run False by (simp add: bc_io_stream_read_chunk_def)
    from read_chunk_file_spec [OF assms(1) ok descriptor f] False obtain h where
      "trace w' = trace w @ h" "only_reads env (stream_file_descriptor s) (trace w) h" "stream_ok s'" "stream_frame s' = stream_frame s"
      by metis
    then show ?thesis by (simp add: kept_def fun_eq_iff only_reads_no_effect(1))
  qed
qed

lemma flush_keeps:
  assumes "bc_core_ok env" and "writes_bounded env" and "stream_ok s" and "bc_io_stream_flush env s w = Some (ok, s', w')"
  shows "kept s w s' w'"
  by (rule flush_spec [OF assms]) (simp add: kept_def fun_eq_iff only_writes_no_effect(1))

lemma write_chunk_keeps:
  assumes "bc_core_ok env" and "writes_bounded env" and "stream_ok s" and "unat n \<le> length data"
    and "bc_io_stream_write_chunk env s data n w = Some ((ok, k), s', w')"
  shows "kept s w s' w'"
  by (rule write_chunk_spec [OF assms]) (simp add: kept_def fun_eq_iff only_writes_no_effect(1))

lemma advise_keeps:
  assumes "stream_ok s" and "bc_io_stream_advise env s hint w = (ok, w')"
  shows "kept s w s w'"
  using assms by (auto simp: bc_io_stream_advise_def kept_def sys_fadvise_def Let_def fun_eq_iff split: if_splits)

section \<open>The invariant\<close>

definition life_ok :: "'w io_world_scheme \<Rightarrow> bc_io_stream \<Rightarrow> 'w io_world_scheme \<Rightarrow> bool" where
  "life_ok w0 s w \<longleftrightarrow> stream_ok s \<and> counters_agree s \<and> (\<forall>r. balance (trace w) r = balance (trace w0) r + stream_holds s r)"

lemma opened_ok:
  assumes "addresses_ok env" and "opened env w0 s w"
  shows "life_ok w0 s w"
  using assms(2)
proof cases
  case (Open_file ctx path mode n)
  then show ?thesis using open_file_spec [OF Open_file] assms(1) freshly_open_counters by (auto simp: life_ok_def freshly_open_def)
next
  case (Open_descriptor ctx fd source_type mode n)
  then show ?thesis
    using open_file_descriptor_spec [OF Open_descriptor] assms(1) freshly_open_counters by (auto simp: life_ok_def freshly_open_def)
next
  case (Open_memory ctx data n)
  then show ?thesis using open_memory_spec [OF Open_memory] freshly_open_counters by (auto simp: life_ok_def freshly_open_def)
qed

lemma kept_life: "life_ok w0 s w \<Longrightarrow> kept s w s' w' \<Longrightarrow> counters_agree s' \<Longrightarrow> life_ok w0 s' w'"
  using stream_holds_cong [of s' s] by (auto simp: life_ok_def kept_def)

lemma step_ok:
  assumes env: "bc_core_ok env" "reads_bounded env" "writes_bounded env" and "life_ok w0 s w" and "stream_step env s w s' w'"
  shows "life_ok w0 s' w'"
proof -
  have s: "stream_ok s" "counters_agree s" using assms(4) by (simp_all add: life_ok_def)
  from assms(5) have "kept s w s' w' \<and> counters_agree s'"
  proof cases
    case (Read chunk)
    show ?thesis using read_chunk_keeps [OF env(2) s(1) Read] read_chunk_counters [OF s(2) Read] by simp
  next
    case (Write n data result)
    then show ?thesis
      using write_chunk_keeps [OF env(1,3) s(1) Write(1)] write_chunk_counters [OF s(2) Write(2)] by (cases result) auto
  next
    case (Flushed ok)
    show ?thesis using flush_keeps [OF env(1,3) s(1) Flushed] flush_counters(1) [OF Flushed] s(2) by simp
  next
    case (Advise hint ok)
    then show ?thesis using advise_keeps [OF s(1) Advise(2)] s(2) by simp
  qed
  then show ?thesis using kept_life [OF assms(4)] by blast
qed

lemma life_invariant:
  assumes "stream_life env w0 s w" and "bc_core_ok env" "reads_bounded env" "writes_bounded env" "addresses_ok env"
  shows "life_ok w0 s w"
  using assms(1)
proof induction
  case (Born s w)
  then show ?case by (rule opened_ok [OF assms(5)])
next
  case (Used s w s' w')
  then show ?case using step_ok [OF assms(2-4)] by blast
qed

section \<open>Properties\<close>

text \<open>
  C7 Streams do not go wrong. However a stream was opened, and after any sequence of reads, writes, flushes and hints, whatever the kernel
  answered to each and whether or not the operation fits the mode of the stream: the stream is well formed; its position is the number of
  bytes read and written, no retry is ever counted, and a stream of one mode has no trace of the other; each of the operations returns
  again; and closing the stream returns and gives back exactly what opening it acquired, each once.
\<close>

theorem stream_never_stuck:
  assumes "bc_core_ok env" and "reads_bounded env" and "writes_bounded env" and "stalls_bounded N env" and "addresses_ok env"
    and "stream_life env w0 s w"
  shows "stream_ok s \<and> counters_agree s \<and>
    (\<exists>chunk s' w'. bc_io_stream_read_chunk env s w = Some (chunk, s', w')) \<and>
    (\<forall>data n. unat n \<le> length data \<longrightarrow> (\<exists>result s' w'. bc_io_stream_write_chunk env s data n w = Some (result, s', w'))) \<and>
    (\<exists>ok s' w'. bc_io_stream_flush env s w = Some (ok, s', w')) \<and>
    (\<exists>w'. bc_io_stream_close env s w = Some w' \<and> (\<forall>r. balance (trace w') r = balance (trace w0) r))"
proof -
  have ok: "stream_ok s" "counters_agree s" "\<And>r. balance (trace w) r = balance (trace w0) r + stream_holds s r"
    using life_invariant [OF assms(6,1-3,5)] by (simp_all add: life_ok_def)
  obtain w' where c: "bc_io_stream_close env s w = Some w'" using close_returns [OF assms(3) ok(1) assms(4)] by blast
  have "balance (trace w') r = balance (trace w0) r" for r
    by (rule close_spec [OF assms(1,3) ok(1) c]) (simp add: ok(3))
  moreover have "\<exists>result s' w'. bc_io_stream_write_chunk env s data n w = Some (result, s', w')" if "unat n \<le> length data" for data n
    using write_chunk_returns [OF assms(1,3) ok(1) assms(4) that, of w] by (metis surj_pair)
  ultimately show ?thesis
    using ok(1,2) c read_chunk_returns [OF assms(2) ok(1) assms(4), of w] flush_returns [OF assms(3) ok(1) assms(4), of w] by auto
qed

theorem stream_never_stuck_witness:
  "\<exists>s w. stream_life calm_env initial_world s w \<and> bytes_written (stream_stats s) = 3 \<and> stream_ok s \<and> counters_agree s \<and>
    (\<exists>chunk s' w'. bc_io_stream_read_chunk calm_env s w = Some (chunk, s', w')) \<and>
    (\<forall>data n. unat n \<le> length data \<longrightarrow> (\<exists>result s' w'. bc_io_stream_write_chunk calm_env s data n w = Some (result, s', w'))) \<and>
    (\<exists>ok s' w'. bc_io_stream_flush calm_env s w = Some (ok, s', w')) \<and>
    (\<exists>w'. bc_io_stream_close calm_env s w = Some w' \<and> (\<forall>r. balance (trace w') r = balance (trace initial_world) r))"
proof -
  obtain res w1 where run: "bc_io_stream_open_file calm_env 1 [97] BC_IO_STREAM_MODE_WRITE 64 initial_world = (res, w1)"
    by fastforce
  moreover have "res \<noteq> None"
    using run by (auto simp: bc_io_stream_open_file_def bc_io_stream_io_open_file_def
        bc_io_stream_allocate_with_buffer_def sys_defs answer_def Let_def)
  ultimately obtain s0 where o: "bc_io_stream_open_file calm_env 1 [97] BC_IO_STREAM_MODE_WRITE 64 initial_world = (Some s0, w1)" by auto
  note s0 = open_file_spec [OF o]
  obtain ok n s w where wr: "bc_io_stream_write_chunk calm_env s0 [7, 8, 9] 3 w1 = Some ((ok, n), s, w)"
    using write_chunk_returns [OF calm_env_ok(1,3) _ calm_env_ok(6), of s0 3 "[7, 8, 9]" w1] s0 by (auto simp: freshly_open_def)
  have calm: "writes_reliable calm_env" by (simp add: writes_reliable_def)
  have "stream_ok s0" "writable s0" "unat (3 :: size_t) \<le> length [7, 8, 9 :: u8]" using s0 by (simp_all add: freshly_open_def writable_def)
  from write_chunk_spec [OF calm_env_ok(1,3) this(1,3) wr] this(2) have "bytes_written (stream_stats s) = bytes_written (stream_stats s0) + 3"
    using reliable_not_refused [OF calm] by metis
  then have "bytes_written (stream_stats s) = 3" using s0 by (simp add: freshly_open_def zero_stats_def)
  moreover have life: "stream_life calm_env initial_world s w"
    using Used [OF Born [OF Open_file [OF o]] Write [OF _ wr]] by simp
  ultimately show ?thesis
    by (intro exI [of _ s] exI [of _ w] conjI stream_never_stuck [OF calm_env_ok(1-3,6,5) life])
qed

end
