(* ===== verification/IO_Dirent.thy ===== *)
theory IO_Dirent
  imports IO_Env
begin

text \<open>
  \<^verbatim>\<open>src/file/bc_io_dirent_reader.c\<close>: reading a directory with \<^verbatim>\<open>getdents64\<close> into an 8 KiB buffer and decoding the
  kernel's variable-length records from it. The reader is passed by value with its buffer. A load
  outside the buffer is undefined in C; the operation is \<open>None\<close> there, and also when its loop never ends.
\<close>

section \<open>Model\<close>

definition BC_IO_DIRENT_READER_BUFFER_SIZE :: size_t where "BC_IO_DIRENT_READER_BUFFER_SIZE = 8192"
definition sizeof_bc_io_dirent_reader :: size_t where "sizeof_bc_io_dirent_reader = 8216"

record bc_io_dirent_reader =
  reader_self :: addr
  reader_dir_fd :: int
  reader_last_errno :: int
  reader_buffer_used :: int
  reader_cursor :: size_t
  reader_buffer :: bytes

text \<open>\<^verbatim>\<open>name\<close> points into the buffer of the reader; here it is the offset there.\<close>

record bc_io_dirent_entry =
  entry_name :: nat
  entry_name_length :: size_t
  entry_d_type :: u8

datatype next_result = Next_failed | Next_end | Next_entry bc_io_dirent_entry

definition bc_io_dirent_reader_create :: "io_env \<Rightarrow> addr \<Rightarrow> int \<Rightarrow> 'w io_world_scheme \<Rightarrow>
    bc_io_dirent_reader option \<times> 'w io_world_scheme" where
  "bc_io_dirent_reader_create env memory_context dir_fd w =
     (case pool_allocate env memory_context sizeof_bc_io_dirent_reader w of
        (Inl _, w) \<Rightarrow> (None, w)
      | (Inr reader, w) \<Rightarrow>
          (Some \<lparr>reader_self = reader, reader_dir_fd = dir_fd, reader_last_errno = 0, reader_buffer_used = 0,
                 reader_cursor = 0, reader_buffer = fresh_memory env (trace w) BC_IO_DIRENT_READER_BUFFER_SIZE\<rparr>, w))"

definition bc_io_dirent_reader_destroy :: "addr \<Rightarrow> bc_io_dirent_reader option \<Rightarrow> 'w io_world_scheme \<Rightarrow> 'w io_world_scheme" where
  "bc_io_dirent_reader_destroy memory_context reader w =
     (case reader of None \<Rightarrow> w | Some reader \<Rightarrow> pool_free memory_context (reader_self reader) w)"

definition bc_io_dirent_reader_reset :: "bc_io_dirent_reader \<Rightarrow> int \<Rightarrow> bc_io_dirent_reader" where
  "bc_io_dirent_reader_reset reader dir_fd =
     reader\<lparr>reader_dir_fd := dir_fd, reader_last_errno := 0, reader_buffer_used := 0, reader_cursor := 0\<rparr>"

text \<open>Loads from the buffer: one byte, and the 16-bit \<^verbatim>\<open>d_reclen\<close>.\<close>

definition load_byte :: "bytes \<Rightarrow> nat \<Rightarrow> u8 option" where
  "load_byte buf i = (if i < length buf then Some (buf ! i) else None)"

definition load_u16 :: "bytes \<Rightarrow> nat \<Rightarrow> size_t option" where
  "load_u16 buf i = (if i + 2 \<le> length buf then Some (load_le (take 2 (drop i buf))) else None)"

text \<open>\<^verbatim>\<open>name[0] == '.' && (name[1] == '\0' || (name[1] == '.' && name[2] == '\0'))\<close>, with its short-circuits.\<close>

definition is_dot_name :: "bytes \<Rightarrow> nat \<Rightarrow> bool option" where
  "is_dot_name buf name =
     do {
       c0 \<leftarrow> load_byte buf name;
       if c0 \<noteq> 0x2E then Some False
       else do {
         c1 \<leftarrow> load_byte buf (name + 1);
         if c1 = 0 then Some True
         else if c1 \<noteq> 0x2E then Some False
         else do { c2 \<leftarrow> load_byte buf (name + 2); Some (c2 = 0) }
       }
     }"

text \<open>
  The record at the cursor: \<^verbatim>\<open>d_reclen\<close> at 16, \<^verbatim>\<open>d_type\<close> at 18, \<^verbatim>\<open>d_name\<close> at 19. \<open>Inl\<close> goes round the loop again.
\<close>

definition decode_record :: "io_env \<Rightarrow> bc_io_dirent_reader \<Rightarrow> 'w io_world_scheme \<Rightarrow>
    (bc_io_dirent_reader \<times> 'w io_world_scheme + next_result \<times> bc_io_dirent_reader \<times> 'w io_world_scheme) option" where
  "decode_record env reader w =
     do {
       let start = unat (reader_cursor reader);
       d_reclen \<leftarrow> load_u16 (reader_buffer reader) (start + 16);
       let reader = reader\<lparr>reader_cursor := reader_cursor reader + d_reclen\<rparr>;
       let name = start + 19;
       dot \<leftarrow> is_dot_name (reader_buffer reader) name;
       if dot then Some (Inl (reader, w))
       else (case core_length env (drop name (reader_buffer reader)) 0 of
               None \<Rightarrow> Some (Inr (Next_failed, reader\<lparr>reader_last_errno := EINVAL\<rparr>, w))
             | Some name_length \<Rightarrow> do {
                 d_type \<leftarrow> load_byte (reader_buffer reader) (start + 18);
                 Some (Inr (Next_entry \<lparr>entry_name = name, entry_name_length = name_length, entry_d_type = d_type\<rparr>,
                            reader, w))
               })
     }"

definition next_body :: "io_env \<Rightarrow> bc_io_dirent_reader \<times> 'w io_world_scheme \<Rightarrow>
    bc_io_dirent_reader \<times> 'w io_world_scheme + (next_result \<times> bc_io_dirent_reader \<times> 'w io_world_scheme) option" where
  "next_body env = (\<lambda>(reader, w).
     let decode = (\<lambda>reader w. case decode_record env reader w of
           None \<Rightarrow> Inr None | Some (Inl again) \<Rightarrow> Inl again | Some (Inr result) \<Rightarrow> Inr (Some result))
     in if sint (reader_cursor reader) \<ge> reader_buffer_used reader then
          (case sys_getdents env (reader_dir_fd reader) BC_IO_DIRENT_READER_BUFFER_SIZE w of
             (Inl _, w) \<Rightarrow> Inr (Some (Next_failed, reader\<lparr>reader_last_errno := errno w\<rparr>, w))
           | (Inr bs, w) \<Rightarrow>
               if bs = [] then Inr (Some (Next_end, reader, w))
               else decode (reader\<lparr>reader_buffer := overwrite 0 bs (reader_buffer reader),
                                   reader_buffer_used := int (length bs), reader_cursor := 0\<rparr>) w)
        else decode reader w)"

definition bc_io_dirent_reader_next :: "io_env \<Rightarrow> bc_io_dirent_reader \<Rightarrow> 'w io_world_scheme \<Rightarrow>
    (next_result \<times> bc_io_dirent_reader \<times> 'w io_world_scheme) option" where
  "bc_io_dirent_reader_next env reader w = do { result \<leftarrow> iterate (next_body env) (reader, w); result }"

definition bc_io_dirent_reader_last_errno :: "bc_io_dirent_reader \<Rightarrow> int" where
  "bc_io_dirent_reader_last_errno reader = reader_last_errno reader"

section \<open>The kernel's records\<close>

text \<open>
  A directory entry as the kernel encodes it: sixteen bytes of inode and offset, the record length,
  the type, the name with its terminator, and padding.
\<close>

type_synonym dirent = "bytes \<times> u8 \<times> bytes \<times> bytes"

definition reclen :: "dirent \<Rightarrow> nat" where
  "reclen = (\<lambda>(hdr, ty, name, pad). 20 + length name + length pad)"

definition record_bytes :: "dirent \<Rightarrow> bytes" where
  "record_bytes = (\<lambda>(hdr, ty, name, pad).
     hdr @ [of_nat (reclen (hdr, ty, name, pad) mod 256), of_nat (reclen (hdr, ty, name, pad) div 256)] @ [ty] @ name @ [0] @ pad)"

definition dirent_ok :: "dirent \<Rightarrow> bool" where
  "dirent_ok = (\<lambda>(hdr, ty, name, pad). length hdr = 16 \<and> name \<noteq> [] \<and> 0 \<notin> set name \<and> reclen (hdr, ty, name, pad) \<le> 8192)"

fun dirent_name :: "dirent \<Rightarrow> bytes" where "dirent_name (hdr, ty, name, pad) = name"
fun dirent_type :: "dirent \<Rightarrow> u8" where "dirent_type (hdr, ty, name, pad) = ty"

definition dot_entry :: "dirent \<Rightarrow> bool" where
  "dot_entry d \<longleftrightarrow> dirent_name d = [0x2E] \<or> dirent_name d = [0x2E, 0x2E]"

lemma length_record_bytes: "dirent_ok d \<Longrightarrow> length (record_bytes d) = reclen d"
  by (auto simp: dirent_ok_def record_bytes_def reclen_def)

lemma load_le_2:
  assumes "a < 256" and "b < 256"
  shows "load_le [of_nat a, of_nat b] = of_nat (a + 256 * b)"
proof -
  have u: "(ucast (of_nat n :: u8) :: u64) = of_nat n" if "n < 256" for n
    using that by (simp only: word_unat_eq_iff unsigned_ucast_eq) (simp add: unat_of_nat take_bit_eq_mod)
  have "(of_nat a :: u64) AND push_bit 8 (of_nat b) = 0"
  proof (rule bit_word_eqI)
    fix n assume "n < LENGTH(64)"
    have "\<not> bit a n" if "8 \<le> n"
    proof -
      have "a < 2 ^ n" using assms(1) power_increasing [OF that, of "2 :: nat"] by simp
      then show ?thesis by (simp add: bit_iff_odd)
    qed
    then show "bit ((of_nat a :: u64) AND push_bit 8 (of_nat b)) n = bit (0 :: u64) n"
      by (auto simp: bit_simps)
  qed
  then have "(of_nat a :: u64) OR push_bit 8 (of_nat b) = of_nat a + push_bit 8 (of_nat b)"
    by (simp add: disjunctive_add_eq_or)
  then show ?thesis by (simp add: u assms push_bit_eq_mult)
qed

lemma load_byte_drop: "drop i buf = x # rest \<Longrightarrow> load_byte buf i = Some x"
  by (metis drop_eq_Nil hd_drop_conv_nth list.discI list.sel(1) load_byte_def not_le)

lemma load_u16_drop: "drop i buf = x # y # rest \<Longrightarrow> load_u16 buf i = Some (load_le [x, y])"
proof -
  assume d: "drop i buf = x # y # rest"
  from arg_cong [OF this, of length] have "length buf - i = Suc (Suc (length rest))" by simp
  then show ?thesis using d by (simp add: load_u16_def)
qed

lemma is_dot_name_drop:
  assumes "drop i buf = name @ 0 # rest" and "name \<noteq> []" and "0 \<notin> set name"
  shows "is_dot_name buf i = Some (name = [0x2E] \<or> name = [0x2E, 0x2E])"
proof -
  have dr: "drop (i + j) buf = drop j (name @ 0 # rest)" for j
    unfolding assms(1) [symmetric] by (simp add: add.commute)
  obtain c0 ns where n: "name = c0 # ns" using assms(2) by (cases name) auto
  have 0: "load_byte buf i = Some c0" using load_byte_drop [of i buf c0] assms(1) n by simp
  have 1: "load_byte buf (i + 1) = Some (case ns of [] \<Rightarrow> 0 | c1 # _ \<Rightarrow> c1)"
    using load_byte_drop [of "i + 1" buf] dr [of 1] n by (simp split: list.split)
  have 2: "load_byte buf (i + 2) = Some (case ns' of [] \<Rightarrow> 0 | c2 # _ \<Rightarrow> c2)" if "ns = c1 # ns'" for c1 ns'
    using load_byte_drop [of "i + 2" buf] dr [of 2] n that by (simp split: list.split)
  show ?thesis
    using 0 1 2 assms(3) n by (cases ns) (auto simp: is_dot_name_def split: list.splits)
qed

text \<open>Decoding a record that starts at the cursor.\<close>

lemma decode_record_at:
  assumes core: "bc_core_ok env" and ok: "dirent_ok d"
    and at: "drop (unat (reader_cursor r)) (reader_buffer r) = record_bytes d @ rest"
  shows "decode_record env r w = (let r' = r\<lparr>reader_cursor := reader_cursor r + of_nat (reclen d)\<rparr> in
      Some (if dot_entry d then Inl (r', w)
        else Inr (Next_entry \<lparr>entry_name = unat (reader_cursor r) + 19, entry_name_length = of_nat (length (dirent_name d)),
               entry_d_type = dirent_type d\<rparr>, r', w)))"
    and "\<exists>tail. drop (unat (reader_cursor r) + 19) (reader_buffer r) = dirent_name d @ 0 # tail"
proof -
  obtain hdr ty name pad where d: "d = (hdr, ty, name, pad)" by (metis surj_pair)
  let ?c = "unat (reader_cursor r)" and ?b = "reader_buffer r"
  have k: "length hdr = 16" "name \<noteq> []" "0 \<notin> set name" "reclen d \<le> 8192" using ok by (auto simp: dirent_ok_def d)
  have dr: "drop (?c + j) ?b = drop j (record_bytes d @ rest)" for j
    unfolding at [symmetric] by (simp add: add.commute)
  have 16: "drop (?c + 16) ?b = of_nat (reclen d mod 256) # of_nat (reclen d div 256) # ty # name @ 0 # pad @ rest"
    unfolding dr using k(1) by (simp add: record_bytes_def d)
  have 18: "drop (?c + 18) ?b = ty # name @ 0 # pad @ rest"
    unfolding dr using k(1) by (simp add: record_bytes_def d)
  have 19: "drop (?c + 19) ?b = name @ 0 # pad @ rest"
    unfolding dr using k(1) by (simp add: record_bytes_def d)
  have len: "load_u16 ?b (?c + 16) = Some (of_nat (reclen d))"
    using load_u16_drop [OF 16] load_le_2 [of "reclen d mod 256" "reclen d div 256"] k(4) by simp
  have dot: "is_dot_name ?b (?c + 19) = Some (dot_entry d)"
    using is_dot_name_drop [OF 19 k(2,3)] by (simp add: dot_entry_def d)
  have nl: "core_length env (drop (?c + 19) ?b) 0 = Some (of_nat (length name))"
  proof -
    have "takeWhile (\<lambda>b. b \<noteq> 0) (name @ 0 # pad @ rest) = name"
      by (subst takeWhile_append2) (use k(3) in auto)
    then show ?thesis by (simp add: bc_core_okD(7) [OF core] 19)
  qed
  show "\<exists>tail. drop (?c + 19) ?b = dirent_name d @ 0 # tail" by (simp add: 19 d)
  show "decode_record env r w = (let r' = r\<lparr>reader_cursor := reader_cursor r + of_nat (reclen d)\<rparr> in
      Some (if dot_entry d then Inl (r', w)
        else Inr (Next_entry \<lparr>entry_name = ?c + 19, entry_name_length = of_nat (length (dirent_name d)),
               entry_d_type = dirent_type d\<rparr>, r', w)))"
    using len dot nl load_byte_drop [OF 18] by (simp add: decode_record_def Let_def d)
qed

section \<open>The reader over a directory\<close>

text \<open>The records still to be decoded from the buffer.\<close>

definition buffered :: "bc_io_dirent_reader \<Rightarrow> dirent list \<Rightarrow> bool" where
  "buffered r ds \<longleftrightarrow> length (reader_buffer r) = 8192 \<and> 0 \<le> reader_buffer_used r \<and> reader_buffer_used r \<le> 8192 \<and>
     unat (reader_cursor r) \<le> nat (reader_buffer_used r) \<and>
     drop (unat (reader_cursor r)) (take (nat (reader_buffer_used r)) (reader_buffer r)) = concat (map record_bytes ds) \<and>
     (\<forall>d \<in> set ds. dirent_ok d)"

lemma record_bytes_nonempty: "record_bytes d \<noteq> []"
  by (cases d) (simp add: record_bytes_def)

lemma sint_small: "unat (c :: u64) \<le> 8192 \<Longrightarrow> sint c = int (unat c)"
proof -
  assume c: "unat c \<le> 8192"
  then have "int (unat c) \<le> 8192" by linarith
  then have "uint c \<le> 8192" by simp
  moreover have "- (2 ^ 63) \<le> uint c" by (rule order_trans [of _ 0]) simp_all
  ultimately have "signed_take_bit 63 (uint c) = uint c" by (intro signed_take_bit_int_eq_self) simp_all
  then show ?thesis by (simp add: sint_uint)
qed

lemma buffered_cursor:
  assumes "buffered r ds"
  shows "sint (reader_cursor r) \<ge> reader_buffer_used r \<longleftrightarrow> ds = []"
proof -
  let ?c = "unat (reader_cursor r)" and ?u = "nat (reader_buffer_used r)"
  have b: "?c \<le> ?u" "?u \<le> length (reader_buffer r)" "?c \<le> 8192" "int ?u = reader_buffer_used r"
    using assms by (auto simp: buffered_def)
  have "reader_buffer_used r \<le> int ?c \<longleftrightarrow> ?u \<le> ?c" using b(4) by linarith
  also have "\<dots> \<longleftrightarrow> drop ?c (take ?u (reader_buffer r)) = []" using b(1,2) by auto
  also have "\<dots> \<longleftrightarrow> ds = []" using assms record_bytes_nonempty by (cases ds) (auto simp: buffered_def)
  finally show ?thesis using sint_small [OF b(3)] by simp
qed

text \<open>Decoding the first buffered record moves the cursor to the next.\<close>

lemma decode_buffered:
  assumes core: "bc_core_ok env" and buf: "buffered r (d # ds)"
  obtains r' where "decode_record env r w = Some (if dot_entry d then Inl (r', w)
        else Inr (Next_entry \<lparr>entry_name = unat (reader_cursor r) + 19, entry_name_length = of_nat (length (dirent_name d)),
               entry_d_type = dirent_type d\<rparr>, r', w))"
    and "buffered r' ds" and "reader_buffer r' = reader_buffer r" and "reader_dir_fd r' = reader_dir_fd r"
    and "reader_self r' = reader_self r"
    and "\<exists>tail. drop (unat (reader_cursor r) + 19) (reader_buffer r') = dirent_name d @ 0 # tail"
proof -
  let ?c = "unat (reader_cursor r)" and ?u = "nat (reader_buffer_used r)" and ?b = "reader_buffer r"
  have b: "?c \<le> ?u" "?u \<le> 8192" "length ?b = 8192" "drop ?c (take ?u ?b) = record_bytes d @ concat (map record_bytes ds)"
    and ok: "dirent_ok d" "\<forall>d \<in> set ds. dirent_ok d" using buf by (auto simp: buffered_def)
  have "drop ?c ?b = drop ?c (take ?u ?b @ drop ?u ?b)" by simp
  also have "\<dots> = drop ?c (take ?u ?b) @ drop ?u ?b" using b(1-3) by (simp del: append_take_drop_id)
  also have "\<dots> = record_bytes d @ (concat (map record_bytes ds) @ drop ?u ?b)" using b(4) by simp
  finally have at: "drop ?c ?b = record_bytes d @ (concat (map record_bytes ds) @ drop ?u ?b)" .
  note dec = decode_record_at(1) [where w = w, OF core ok(1) at] decode_record_at(2) [OF core ok(1) at]
  define r' where "r' = r\<lparr>reader_cursor := reader_cursor r + of_nat (reclen d)\<rparr>"
  have room: "?c + reclen d \<le> ?u"
    using arg_cong [OF b(4), of length] b(1-3) length_record_bytes [OF ok(1)] by simp
  have u: "unat (reader_cursor r') = ?c + reclen d"
    using unat_advance [of "reader_cursor r" "reclen d" 8192] room b(2) by (simp add: r'_def)
  have "drop (?c + reclen d) (take ?u ?b) = drop (reclen d) (drop ?c (take ?u ?b))" by (simp add: add.commute)
  also have "\<dots> = concat (map record_bytes ds)" using b(4) length_record_bytes [OF ok(1)] by simp
  finally have "buffered r' ds"
    using buf room ok(2) u unfolding buffered_def by (simp add: r'_def)
  then show ?thesis using dec by (intro that [of r']) (simp_all add: r'_def Let_def)
qed

text \<open>
  What a descriptor denotes: the path of the \<^verbatim>\<open>open\<close> that returned it last, unless it was closed since,
  and how many \<^verbatim>\<open>getdents64\<close> were made on it since then.
\<close>

fun track :: "int \<Rightarrow> (bytes \<times> nat) option \<Rightarrow> event \<Rightarrow> (bytes \<times> nat) option" where
  "track fd s (Ev_open path _ _ (Inr fd')) = (if int fd' = fd then Some (path, 0) else s)"
| "track fd s (Ev_close fd' _) = (if fd' = fd then None else s)"
| "track fd s (Ev_getdents fd' _ _) = (if fd' = fd then map_option (map_prod id Suc) s else s)"
| "track fd s _ = s"

definition listing :: "int \<Rightarrow> history \<Rightarrow> (bytes \<times> nat) option" where
  "listing fd h = foldl (track fd) None h"

lemma listing_snoc [simp]: "listing fd (h @ [ev]) = track fd (listing fd h) ev"
  by (simp add: listing_def)

lemma listing_append: "listing fd (h @ k) = foldl (track fd) (listing fd h) k"
  by (simp add: listing_def)

lemma listing_Nil [simp]: "listing fd [] = None"
  by (simp add: listing_def)

text \<open>
  A path whose directory the kernel lists in the given batches: the \<open>k\<close>-th \<^verbatim>\<open>getdents64\<close> on a descriptor opened
  for it answers with the records of the \<open>k\<close>-th batch, and with no byte after the last. A batch is not
  empty and fits the buffer.
\<close>

definition batches_ok :: "dirent list list \<Rightarrow> bool" where
  "batches_ok batches \<longleftrightarrow>
     (\<forall>b \<in> set batches. b \<noteq> [] \<and> length (concat (map record_bytes b)) \<le> 8192 \<and> (\<forall>d \<in> set b. dirent_ok d))"

definition lists_directory :: "io_env \<Rightarrow> bytes \<Rightarrow> dirent list list \<Rightarrow> bool" where
  "lists_directory env path batches \<longleftrightarrow> batches_ok batches \<and>
     (\<forall>h fd k. listing fd h = Some (path, k) \<longrightarrow>
        env_getdents env h fd 8192 = Inr (if k < length batches then concat (map record_bytes (batches ! k)) else []))"

text \<open>Everything the reader has not handed out: the buffered records and the batches to come.\<close>

definition to_come :: "bytes \<Rightarrow> dirent list list \<Rightarrow> bc_io_dirent_reader \<Rightarrow> 'w io_world_scheme \<Rightarrow> dirent list \<Rightarrow> bool" where
  "to_come path batches r w L \<longleftrightarrow>
     (\<exists>ds k. buffered r ds \<and> listing (reader_dir_fd r) (trace w) = Some (path, k) \<and> ds @ concat (drop k batches) = L)"

text \<open>The entry handed out stands for a record: its type, and its terminated name in the reader's buffer.\<close>

definition entry_is :: "bc_io_dirent_reader \<Rightarrow> bc_io_dirent_entry \<Rightarrow> dirent \<Rightarrow> bool" where
  "entry_is r e d \<longleftrightarrow> dirent_ok d \<and> entry_d_type e = dirent_type d \<and>
     entry_name_length e = of_nat (length (dirent_name d)) \<and>
     (\<exists>tail. drop (entry_name e) (reader_buffer r) = dirent_name d @ 0 # tail)"

lemma dirent_okD:
  assumes "dirent_ok d"
  shows "dirent_name d \<noteq> []" and "0 \<notin> set (dirent_name d)" and "length (dirent_name d) \<le> 8192"
  using assms by (cases d; auto simp: dirent_ok_def reclen_def)+

lemma entry_isD:
  assumes "entry_is r e d"
  shows "take (unat (entry_name_length e)) (drop (entry_name e) (reader_buffer r)) = dirent_name d"
    and "unat (entry_name_length e) = length (dirent_name d)"
    and "length (dirent_name d) \<le> length (drop (entry_name e) (reader_buffer r))"
    and "load_byte (reader_buffer r) (entry_name e) = Some (hd (dirent_name d))"
    and "takeWhile (\<lambda>b. b \<noteq> 0) (drop (entry_name e) (reader_buffer r)) = dirent_name d"
proof -
  obtain tail where t: "drop (entry_name e) (reader_buffer r) = dirent_name d @ 0 # tail"
    and len: "entry_name_length e = of_nat (length (dirent_name d))" and ok: "dirent_ok d"
    using assms by (auto simp: entry_is_def)
  show 2: "unat (entry_name_length e) = length (dirent_name d)"
    using dirent_okD(3) [OF ok] by (simp add: len unat_of_nat64)
  show "take (unat (entry_name_length e)) (drop (entry_name e) (reader_buffer r)) = dirent_name d"
    and "length (dirent_name d) \<le> length (drop (entry_name e) (reader_buffer r))"
    unfolding 2 by (simp_all only: t) simp_all
  show "load_byte (reader_buffer r) (entry_name e) = Some (hd (dirent_name d))"
    using load_byte_drop [of "entry_name e" "reader_buffer r"] t dirent_okD(1) [OF ok] by (cases "dirent_name d") auto
  show "takeWhile (\<lambda>b. b \<noteq> 0) (drop (entry_name e) (reader_buffer r)) = dirent_name d"
    unfolding t by (subst takeWhile_append2) (use dirent_okD(2) [OF ok] in auto)
qed

lemma next_body_decode:
  assumes core: "bc_core_ok env" and buf: "buffered r (d # ds)"
  obtains r' e where "decode_record env r w = Some (if dot_entry d then Inl (r', w) else Inr (Next_entry e, r', w))"
    and "buffered r' ds" and "reader_dir_fd r' = reader_dir_fd r" and "entry_is r' e d"
proof -
  from decode_buffered [OF core buf, of w] obtain r' where r': "decode_record env r w = Some (if dot_entry d then Inl (r', w)
        else Inr (Next_entry \<lparr>entry_name = unat (reader_cursor r) + 19, entry_name_length = of_nat (length (dirent_name d)),
               entry_d_type = dirent_type d\<rparr>, r', w))"
    "buffered r' ds" "reader_dir_fd r' = reader_dir_fd r"
    "\<exists>tail. drop (unat (reader_cursor r) + 19) (reader_buffer r') = dirent_name d @ 0 # tail" by metis
  moreover have "dirent_ok d" using buf by (simp add: buffered_def)
  ultimately show ?thesis by (intro that [OF r'(1,2)]) (simp_all add: entry_is_def)
qed

lemma refilled_buffered:
  assumes "length (reader_buffer r) = 8192" and "length (concat (map record_bytes b)) \<le> 8192" and "\<forall>d \<in> set b. dirent_ok d"
  shows "buffered (r\<lparr>reader_buffer := overwrite 0 (concat (map record_bytes b)) (reader_buffer r),
      reader_buffer_used := int (length (concat (map record_bytes b))), reader_cursor := 0\<rparr>) b"
  using assms by (simp add: buffered_def overwrite_def)

lemma next_body_refill:
  assumes dir: "lists_directory env path batches" and buf: "buffered r []"
    and l: "listing (reader_dir_fd r) (trace w) = Some (path, k)"
  shows "next_body env (r, w) =
    (let w' = log_event (Ev_getdents (reader_dir_fd r) 8192 (env_getdents env (trace w) (reader_dir_fd r) 8192)) w in
     if k < length batches then
       (case decode_record env (r\<lparr>reader_buffer := overwrite 0 (concat (map record_bytes (batches ! k))) (reader_buffer r),
            reader_buffer_used := int (length (concat (map record_bytes (batches ! k)))), reader_cursor := 0\<rparr>) w' of
          None \<Rightarrow> Inr None | Some (Inl again) \<Rightarrow> Inl again | Some (Inr result) \<Rightarrow> Inr (Some result))
     else Inr (Some (Next_end, r, w')))"
proof -
  have "concat (map record_bytes (batches ! k)) \<noteq> []" if "k < length batches"
  proof -
    have "batches ! k \<noteq> []" using that dir by (simp add: lists_directory_def batches_ok_def)
    then show ?thesis using record_bytes_nonempty by (cases "batches ! k") auto
  qed
  moreover have "env_getdents env (trace w) (reader_dir_fd r) 8192 =
      Inr (if k < length batches then concat (map record_bytes (batches ! k)) else [])"
    using dir l by (simp add: lists_directory_def)
  ultimately show ?thesis
    using buffered_cursor [OF buf]
    by (auto simp: next_body_def sys_getdents_def answer_def BC_IO_DIRENT_READER_BUFFER_SIZE_def Let_def)
qed

lemma concat_drop_empty:
  assumes "batches_ok batches" and "concat (drop k batches) = []"
  shows "length batches \<le> k"
proof (rule ccontr)
  assume "\<not> length batches \<le> k"
  then have "drop k batches = batches ! k # drop (Suc k) batches" "batches ! k \<in> set batches"
    by (simp_all add: Cons_nth_drop_Suc)
  then show False using assms by (simp add: batches_ok_def)
qed

lemma next_body_end:
  assumes dir: "lists_directory env path batches" and come: "to_come path batches r w []"
  shows "\<exists>w'. next_body env (r, w) = Inr (Some (Next_end, r, w')) \<and> to_come path batches r w' []"
proof -
  obtain k where k: "buffered r []" "listing (reader_dir_fd r) (trace w) = Some (path, k)" "concat (drop k batches) = []"
    using come by (auto simp: to_come_def)
  have "batches_ok batches" using dir by (simp add: lists_directory_def)
  then have le: "length batches \<le> k" using k(3) by (rule concat_drop_empty)
  let ?w = "log_event (Ev_getdents (reader_dir_fd r) 8192 (env_getdents env (trace w) (reader_dir_fd r) 8192)) w"
  have "listing (reader_dir_fd r) (trace ?w) = Some (path, Suc k)" "concat (drop (Suc k) batches) = []" using k(2) le by simp_all
  then have "to_come path batches r ?w []" using k(1) unfolding to_come_def by blast
  moreover have "next_body env (r, w) = Inr (Some (Next_end, r, ?w))" using next_body_refill [OF dir k(1,2)] le by simp
  ultimately show ?thesis by blast
qed

lemma next_body_step:
  assumes core: "bc_core_ok env" and dir: "lists_directory env path batches" and come: "to_come path batches r w (d # L)"
  shows "\<exists>r' w' e. next_body env (r, w) = (if dot_entry d then Inl (r', w') else Inr (Some (Next_entry e, r', w'))) \<and>
    to_come path batches r' w' L \<and> entry_is r' e d"
proof -
  obtain ds k where ds: "buffered r ds" "listing (reader_dir_fd r) (trace w) = Some (path, k)" "ds @ concat (drop k batches) = d # L"
    using come by (auto simp: to_come_def)
  show ?thesis
  proof (cases ds)
    case (Cons d' ds')
    then have "buffered r (d # ds')" using ds by simp
    from next_body_decode [OF core this, of w] obtain r' e where
      n: "decode_record env r w = Some (if dot_entry d then Inl (r', w) else Inr (Next_entry e, r', w))"
        "buffered r' ds'" "reader_dir_fd r' = reader_dir_fd r" "entry_is r' e d" by metis
    then show ?thesis
      using buffered_cursor [OF ds(1)] Cons ds(2,3)
      by (intro exI [of _ r'] exI [of _ w] exI [of _ e]) (auto simp: next_body_def to_come_def Let_def)
  next
    case Nil
    have l: "k < length batches" using ds(3) Nil by (cases "k < length batches") auto
    let ?b = "batches ! k" and ?bs = "concat (map record_bytes (batches ! k))"
    have b: "?b \<noteq> []" "length ?bs \<le> 8192" "\<forall>d \<in> set ?b. dirent_ok d"
      using dir nth_mem [OF l] unfolding lists_directory_def batches_ok_def by auto
    obtain d1 ds' where b': "?b = d1 # ds'" using b(1) by (cases ?b) auto
    then have d1: "d1 = d" "ds' @ concat (drop (Suc k) batches) = L"
      using ds(3) Nil Cons_nth_drop_Suc [OF l, symmetric] by simp_all
    let ?w = "log_event (Ev_getdents (reader_dir_fd r) 8192 (env_getdents env (trace w) (reader_dir_fd r) 8192)) w"
    define q where "q = r\<lparr>reader_buffer := overwrite 0 ?bs (reader_buffer r), reader_buffer_used := int (length ?bs), reader_cursor := 0\<rparr>"
    have "buffered q (d # ds')"
      using refilled_buffered [of r ?b] b ds(1) b' d1(1) by (simp add: q_def buffered_def)
    moreover have q: "reader_dir_fd q = reader_dir_fd r" by (simp add: q_def)
    ultimately obtain r' e where
      n: "decode_record env q ?w = Some (if dot_entry d then Inl (r', ?w) else Inr (Next_entry e, r', ?w))"
        "buffered r' ds'" "reader_dir_fd r' = reader_dir_fd r" "entry_is r' e d"
      using next_body_decode [OF core, of q d ds' ?w] by (metis q)
    have "next_body env (r, w) = (if dot_entry d then Inl (r', ?w) else Inr (Some (Next_entry e, r', ?w)))"
      using next_body_refill [OF dir _ ds(2)] ds(1) Nil l n(1) by (simp add: Let_def flip: q_def)
    moreover have "to_come path batches r' ?w L"
      using n(2,3) ds(2) d1(2) by (auto simp: to_come_def)
    ultimately show ?thesis using n(4) by blast
  qed
qed

lemma next_lists:
  assumes "bc_core_ok env" and "lists_directory env path batches" and "to_come path batches r w L"
  shows "\<exists>res r' w'. bc_io_dirent_reader_next env r w = Some (res, r', w') \<and>
    (case dropWhile dot_entry L of
       [] \<Rightarrow> res = Next_end \<and> to_come path batches r' w' []
     | d # L' \<Rightarrow> \<exists>e. res = Next_entry e \<and> entry_is r' e d \<and> to_come path batches r' w' L')"
  using assms(3)
proof (induction L arbitrary: r w)
  case Nil
  from next_body_end [OF assms(2) Nil] obtain w' where "next_body env (r, w) = Inr (Some (Next_end, r, w'))"
    "to_come path batches r w' []" by blast
  then show ?case by (simp add: bc_io_dirent_reader_next_def iterate.simps [of "next_body env"])
next
  case (Cons d L)
  from next_body_step [OF assms(1,2) Cons.prems] obtain r' w' e where
    s: "next_body env (r, w) = (if dot_entry d then Inl (r', w') else Inr (Some (Next_entry e, r', w')))"
      "to_come path batches r' w' L" "entry_is r' e d" by blast
  show ?case
  proof (cases "dot_entry d")
    case True
    then have "bc_io_dirent_reader_next env r w = bc_io_dirent_reader_next env r' w'"
      using s(1) by (simp add: bc_io_dirent_reader_next_def iterate.simps [of "next_body env" "(r, w)"])
    then show ?thesis using Cons.IH [OF s(2)] True by simp
  next
    case False
    then have "bc_io_dirent_reader_next env r w = Some (Next_entry e, r', w')"
      using s(1) by (simp add: bc_io_dirent_reader_next_def iterate.simps [of "next_body env" "(r, w)"])
    then show ?thesis using s False by simp
  qed
qed

section \<open>What a call leaves alone\<close>

text \<open>From \<open>w\<close> to \<open>w'\<close> nothing happened but \<^verbatim>\<open>getdents64\<close> calls on one descriptor.\<close>

definition lists_only :: "int \<Rightarrow> 'w io_world_scheme \<Rightarrow> 'w io_world_scheme \<Rightarrow> bool" where
  "lists_only fd w w' \<longleftrightarrow> io_world.more w' = io_world.more w \<and>
     (\<exists>h. trace w' = trace w @ h \<and> (\<forall>ev \<in> set h. \<exists>n a. ev = Ev_getdents fd n a))"

lemma lists_only_refl [simp]: "lists_only fd w w"
  by (simp add: lists_only_def)

lemma lists_only_trans:
  assumes "lists_only fd w w'" and "lists_only fd w' w''"
  shows "lists_only fd w w''"
proof -
  obtain h h' where "trace w' = trace w @ h" "\<forall>ev \<in> set h. \<exists>n a. ev = Ev_getdents fd n a"
    and "trace w'' = trace w' @ h'" "\<forall>ev \<in> set h'. \<exists>n a. ev = Ev_getdents fd n a"
    using assms by (auto simp: lists_only_def)
  moreover have "io_world.more w'' = io_world.more w" using assms by (simp add: lists_only_def)
  ultimately show ?thesis unfolding lists_only_def by (intro conjI exI [of _ "h @ h'"]) auto
qed

lemma sys_getdents_lists_only: "sys_getdents env fd n w = (a, w') \<Longrightarrow> lists_only fd w w'"
  by (auto simp: sys_getdents_def answer_def lists_only_def log_event_def set_errno_def split: sum.splits)

lemma getdents_effect:
  assumes "\<forall>ev \<in> set h. \<exists>n a. ev = Ev_getdents fd n a"
  shows "balance h r = 0" and "fd' \<noteq> fd \<Longrightarrow> foldl (track fd') s h = s"
    and "\<exists>j. foldl (track fd) (Some (p, k)) h = Some (p, j)"
  using assms by (induction h arbitrary: s k) auto

lemma lists_only_effect:
  assumes "lists_only fd w w'"
  obtains h where "trace w' = trace w @ h" and "\<And>r. balance h r = 0"
    and "\<And>fd'. fd' \<noteq> fd \<Longrightarrow> listing fd' (trace w') = listing fd' (trace w)"
    and "\<And>p k. listing fd (trace w) = Some (p, k) \<Longrightarrow> \<exists>j. listing fd (trace w') = Some (p, j)"
proof -
  obtain h where h: "trace w' = trace w @ h" "\<forall>ev \<in> set h. \<exists>n a. ev = Ev_getdents fd n a"
    using assms by (auto simp: lists_only_def)
  show ?thesis
    by (rule that [OF h(1)]) (simp_all add: getdents_effect [OF h(2)] h(1) listing_append)
qed

lemma decode_record_frame:
  "decode_record env r w = Some (Inl (r', w')) \<Longrightarrow>
     w' = w \<and> reader_dir_fd r' = reader_dir_fd r \<and> reader_self r' = reader_self r"
  "decode_record env r w = Some (Inr (res, r', w')) \<Longrightarrow>
     w' = w \<and> reader_dir_fd r' = reader_dir_fd r \<and> reader_self r' = reader_self r"
  by (auto simp: decode_record_def Let_def bind_eq_Some_conv split: if_splits option.splits)

definition reader_frame :: "bc_io_dirent_reader \<Rightarrow> 'w io_world_scheme \<Rightarrow> bc_io_dirent_reader \<Rightarrow> 'w io_world_scheme \<Rightarrow> bool" where
  "reader_frame r w r' w' \<longleftrightarrow> reader_dir_fd r' = reader_dir_fd r \<and> reader_self r' = reader_self r \<and>
     lists_only (reader_dir_fd r) w w'"

lemma reader_frame_trans: "reader_frame r w r' w' \<Longrightarrow> reader_frame r' w' r'' w'' \<Longrightarrow> reader_frame r w r'' w''"
  by (auto simp: reader_frame_def intro: lists_only_trans)

lemma next_body_frame:
  "next_body env (r, w) = Inl (r', w') \<Longrightarrow> reader_frame r w r' w'"
  "next_body env (r, w) = Inr (Some (res, r', w')) \<Longrightarrow> reader_frame r w r' w'"
  by (auto simp: next_body_def Let_def reader_frame_def dest!: sys_getdents_lists_only decode_record_frame
      split: if_splits option.splits sum.splits prod.splits)

lemma next_frame:
  assumes "bc_io_dirent_reader_next env r w = Some (res, r', w')"
  shows "reader_frame r w r' w'"
proof -
  obtain x where x: "iterate (next_body env) (r, w) = Some x" "x = Some (res, r', w')"
    using assms by (auto simp: bc_io_dirent_reader_next_def bind_eq_Some_conv)
  show ?thesis
  proof (rule iterate_partial [OF x(1), where P = "\<lambda>y. reader_frame r w (fst y) (snd y)" and
        Q = "\<lambda>z. z = Some (res, r', w') \<longrightarrow> reader_frame r w r' w'", THEN mp, OF _ _ _ x(2)])
    show "reader_frame r w (fst (r, w)) (snd (r, w))" by (simp add: reader_frame_def)
    show "reader_frame r w (fst y') (snd y')" if "reader_frame r w (fst y) (snd y)" "next_body env y = Inl y'" for y y'
      using that(1) next_body_frame(1) [of env "fst y" "snd y" "fst y'" "snd y'"] that(2) by (simp add: reader_frame_trans)
    show "z = Some (res, r', w') \<longrightarrow> reader_frame r w r' w'" if "reader_frame r w (fst y) (snd y)" "next_body env y = Inr z" for y z
      using that(1) next_body_frame(2) [of env "fst y" "snd y" res r' w'] that(2) by (auto intro: reader_frame_trans)
  qed
qed

section \<open>Directories that may change\<close>

text \<open>
  A weaker hypothesis for directories that other processes may change while they are read: whatever
  \<^verbatim>\<open>getdents64\<close> stores is a sequence of well-formed records, and after \<open>B\<close> answers on a descriptor it stores nothing
  (or fails). A descriptor that is open is never returned by \<^verbatim>\<open>open\<close> again.
\<close>

definition getdents_wellformed :: "io_env \<Rightarrow> bool" where
  "getdents_wellformed env \<longleftrightarrow> (\<forall>h fd bs. env_getdents env h fd 8192 = Inr bs \<longrightarrow>
     length bs \<le> 8192 \<and> (\<exists>ds. bs = concat (map record_bytes ds) \<and> (\<forall>d \<in> set ds. dirent_ok d)))"

definition listings_bounded :: "nat \<Rightarrow> io_env \<Rightarrow> bool" where
  "listings_bounded B env \<longleftrightarrow> (\<forall>h fd path k bs. listing fd h = Some (path, k) \<longrightarrow> B \<le> k \<longrightarrow>
     env_getdents env h fd 8192 = Inr bs \<longrightarrow> bs = [])"

definition descriptors_fresh :: "io_env \<Rightarrow> bool" where
  "descriptors_fresh env \<longleftrightarrow> (\<forall>h path flags mode fd. env_open env h path flags mode = Inr fd \<longrightarrow> listing (int fd) h = None)"

text \<open>A bound on the entries a reader can still hand out.\<close>

definition reads_left :: "nat \<Rightarrow> bc_io_dirent_reader \<Rightarrow> 'w io_world_scheme \<Rightarrow> nat \<Rightarrow> bool" where
  "reads_left B r w n \<longleftrightarrow> (\<exists>ds path k. buffered r ds \<and> listing (reader_dir_fd r) (trace w) = Some (path, k) \<and>
     n = (B - k) * 8193 + length ds)"

lemma buffered_errno: "buffered (r\<lparr>reader_last_errno := x\<rparr>) ds = buffered r ds"
  by (simp add: buffered_def)

lemma length_records: "length ds \<le> length (concat (map record_bytes ds))"
proof (induction ds)
  case (Cons d ds)
  have "1 \<le> length (record_bytes d)" using record_bytes_nonempty [of d] by (cases "record_bytes d") auto
  then show ?case using add_mono [OF _ Cons.IH, of 1] by simp
qed simp

lemma decode_left:
  assumes core: "bc_core_ok env" and q: "buffered q (d # ds)" and l: "listing (reader_dir_fd q) (trace w) = Some (path, k)"
  obtains r' e where "decode_record env q w = Some (if dot_entry d then Inl (r', w) else Inr (Next_entry e, r', w))"
    and "entry_is r' e d" and "reads_left B r' w ((B - k) * 8193 + length ds)"
proof -
  from next_body_decode [OF core q, of w] obtain r' e where
    e: "decode_record env q w = Some (if dot_entry d then Inl (r', w) else Inr (Next_entry e, r', w))"
      "buffered r' ds" "reader_dir_fd r' = reader_dir_fd q" "entry_is r' e d" by metis
  then have "reads_left B r' w ((B - k) * 8193 + length ds)" using l by (auto simp: reads_left_def)
  with e show ?thesis using that by blast
qed

lemma refill_left:
  assumes bounded: "listings_bounded B env" and r: "buffered r []" and k: "listing (reader_dir_fd r) (trace w) = Some (path, k)"
    and bs: "env_getdents env (trace w) (reader_dir_fd r) 8192 = Inr bs"
    and b: "bs = concat (map record_bytes (d # b))" "length bs \<le> 8192" "\<forall>d' \<in> set (d # b). dirent_ok d'"
  shows "bs \<noteq> []" and "(B - Suc k) * 8193 + length b < (B - k) * 8193"
    and "buffered (r\<lparr>reader_buffer := overwrite 0 bs (reader_buffer r),
      reader_buffer_used := int (length bs), reader_cursor := 0\<rparr>) (d # b)"
proof -
  show ne: "bs \<noteq> []" using b(1) record_bytes_nonempty by simp
  then have "k < B" using bounded bs k by (auto simp: listings_bounded_def not_le [symmetric])
  then show "(B - Suc k) * 8193 + length b < (B - k) * 8193"
    using length_records [of "d # b"] b(1,2) Suc_diff_Suc [of k B] by simp
  show "buffered (r\<lparr>reader_buffer := overwrite 0 bs (reader_buffer r),
      reader_buffer_used := int (length bs), reader_cursor := 0\<rparr>) (d # b)"
    using refilled_buffered [of r "d # b"] b r by (simp add: buffered_def)
qed

lemma next_body_left:
  assumes core: "bc_core_ok env" and wf: "getdents_wellformed env" and bounded: "listings_bounded B env"
    and left: "reads_left B r w n"
  obtains (again) r' w' n' where "next_body env (r, w) = Inl (r', w')" and "reads_left B r' w' n'" and "n' < n"
  | (entry) e d r' w' n' where "next_body env (r, w) = Inr (Some (Next_entry e, r', w'))" and "entry_is r' e d"
      and "\<not> dot_entry d" and "reads_left B r' w' n'" and "n' < n"
  | (stop) res r' w' n' where "next_body env (r, w) = Inr (Some (res, r', w'))" and "res = Next_end \<or> res = Next_failed"
      and "reads_left B r' w' n'"
proof -
  obtain ds path k where ds: "buffered r ds" "listing (reader_dir_fd r) (trace w) = Some (path, k)" "n = (B - k) * 8193 + length ds"
    using left by (auto simp: reads_left_def)
  have decoded: thesis
    if q: "buffered q (d # ds')" "reader_dir_fd q = reader_dir_fd r" and l: "listing (reader_dir_fd r) (trace w') = Some (path, j)"
      "(B - j) * 8193 + length ds' < n"
      and nb: "next_body env (r, w) = (case decode_record env q w' of
          None \<Rightarrow> Inr None | Some (Inl x) \<Rightarrow> Inl x | Some (Inr z) \<Rightarrow> Inr (Some z))" for q d ds' w' j
    by (rule decode_left [OF core q(1) l(1) [folded q(2)], of B])
      (use again entry nb l(2) in \<open>cases "dot_entry d"; auto\<close>)
  show thesis
  proof (cases ds)
    case (Cons d ds')
    show thesis
      using decoded [of r d ds' w k] ds buffered_cursor [OF ds(1)] Cons by (simp add: next_body_def Let_def)
  next
    case Nil
    let ?a = "env_getdents env (trace w) (reader_dir_fd r) 8192"
    show thesis
    proof (cases ?a)
      case (Inl x)
      then show thesis
        using buffered_cursor [OF ds(1)] Nil ds
        by (intro stop) (auto simp: next_body_def Let_def sys_getdents_def answer_def BC_IO_DIRENT_READER_BUFFER_SIZE_def
            reads_left_def buffered_errno)
    next
      case (Inr bs)
      let ?w = "log_event (Ev_getdents (reader_dir_fd r) 8192 ?a) w"
      obtain b where b: "bs = concat (map record_bytes b)" "length bs \<le> 8192" "\<forall>d \<in> set b. dirent_ok d"
        using wf Inr unfolding getdents_wellformed_def by blast
      show thesis
      proof (cases b)
        case Nil': Nil
        then show thesis
          using buffered_cursor [OF ds(1)] Nil ds Inr b(1)
          by (intro stop) (auto simp: next_body_def Let_def sys_getdents_def answer_def BC_IO_DIRENT_READER_BUFFER_SIZE_def
              reads_left_def)
      next
        case (Cons d b')
        note refill = refill_left [OF bounded ds(1,2) [unfolded Nil] Inr b [unfolded Cons]]
        show thesis
          using decoded [of _ d b' ?w "Suc k", OF refill(3)] refill(1,2) buffered_cursor [OF ds(1)] Nil ds(2,3) Inr
          by (simp add: next_body_def Let_def sys_getdents_def answer_def BC_IO_DIRENT_READER_BUFFER_SIZE_def)
      qed
    qed
  qed
qed

lemma next_total:
  assumes core: "bc_core_ok env" and wf: "getdents_wellformed env" and bounded: "listings_bounded B env"
    and left: "reads_left B r w n"
  shows "\<exists>res r' w' n'. bc_io_dirent_reader_next env r w = Some (res, r', w') \<and> reads_left B r' w' n' \<and>
    (\<forall>e. res = Next_entry e \<longrightarrow> n' < n \<and> (\<exists>d. entry_is r' e d \<and> \<not> dot_entry d))"
  using left
proof (induction n arbitrary: r w rule: less_induct)
  case (less n)
  note unfold = bc_io_dirent_reader_next_def iterate.simps [of "next_body env" "(r, w)"]
  show ?case
  proof (rule next_body_left [OF core wf bounded less.prems])
    fix r' w' n' assume b: "next_body env (r, w) = Inl (r', w')" "reads_left B r' w' n'" "n' < n"
    have "bc_io_dirent_reader_next env r w = bc_io_dirent_reader_next env r' w'"
      using b(1) by (simp add: unfold bc_io_dirent_reader_next_def [of env r' w'])
    then show ?case using less.IH [OF b(3,2)] b(3) by (metis less_trans)
  next
    fix e d r' w' n' assume "next_body env (r, w) = Inr (Some (Next_entry e, r', w'))" "entry_is r' e d" "\<not> dot_entry d"
      "reads_left B r' w' n'" "n' < n"
    then show ?case
      by (intro exI [of _ "Next_entry e"] exI [of _ r'] exI [of _ w'] exI [of _ n']) (auto simp: unfold simp del: split_paired_Ex)
  next
    fix res r' w' n' assume "next_body env (r, w) = Inr (Some (res, r', w'))" "res = Next_end \<or> res = Next_failed"
      "reads_left B r' w' n'"
    then show ?case by (auto simp: unfold)
  qed
qed

text \<open>A client that takes up to \<open>k\<close> entries; the flag tells that the end was reported.\<close>

fun read_entries :: "io_env \<Rightarrow> nat \<Rightarrow> bc_io_dirent_reader \<Rightarrow> 'w io_world_scheme \<Rightarrow> ((bytes \<times> u8) list \<times> bool) option" where
  "read_entries env 0 r w = Some ([], False)"
| "read_entries env (Suc k) r w =
     do {
       (res, r, w) \<leftarrow> bc_io_dirent_reader_next env r w;
       case res of
         Next_failed \<Rightarrow> Some ([], False)
       | Next_end \<Rightarrow> Some ([], True)
       | Next_entry e \<Rightarrow> do {
           (es, fin) \<leftarrow> read_entries env k r w;
           Some ((take (unat (entry_name_length e)) (drop (entry_name e) (reader_buffer r)), entry_d_type e) # es, fin)
         }
     }"

lemma read_entries_lists:
  assumes "bc_core_ok env" and "lists_directory env path batches" and "to_come path batches r w L"
    and "k > length (filter (\<lambda>d. \<not> dot_entry d) L)"
  shows "read_entries env k r w = Some (map (\<lambda>d. (dirent_name d, dirent_type d)) (filter (\<lambda>d. \<not> dot_entry d) L), True)"
  using assms(3,4)
proof (induction k arbitrary: r w L)
  case (Suc k)
  have keep: "filter (\<lambda>d. \<not> dot_entry d) L = filter (\<lambda>d. \<not> dot_entry d) (dropWhile dot_entry L)"
    by (induction L) auto
  from next_lists [OF assms(1,2) Suc.prems(1)] obtain res r' w' where
    n: "bc_io_dirent_reader_next env r w = Some (res, r', w')"
    "case dropWhile dot_entry L of
       [] \<Rightarrow> res = Next_end \<and> to_come path batches r' w' []
     | d # L' \<Rightarrow> \<exists>e. res = Next_entry e \<and> entry_is r' e d \<and> to_come path batches r' w' L'" by blast
  show ?case
  proof (cases "dropWhile dot_entry L")
    case Nil
    have "res = Next_end" using n(2) unfolding Nil by simp
    then show ?thesis using n(1) keep unfolding Nil by simp
  next
    case (Cons d L')
    have nd: "\<not> dot_entry d" using Cons by (metis hd_dropWhile list.discI list.sel(1))
    then have f: "filter (\<lambda>d. \<not> dot_entry d) L = d # filter (\<lambda>d. \<not> dot_entry d) L'" using keep Cons by simp
    obtain e where e: "res = Next_entry e" "entry_is r' e d" "to_come path batches r' w' L'" using n(2) Cons by auto
    from Suc.IH [OF e(3)] Suc.prems(2) f e n(1) show ?thesis by (simp add: entry_isD(1)) (simp add: entry_is_def)
  qed
qed simp

section \<open>Properties\<close>

text \<open>
  C17 Listing a directory. For any directory the kernel presents in batches of well-formed records
  that fit the 8 KiB buffer, a reader created (or reset) on its descriptor hands out, call after
  call of \<^verbatim>\<open>bc_io_dirent_reader_next\<close>, exactly the names and types of its entries in the kernel's order,
  leaving out \<^verbatim>\<open>.\<close> and \<^verbatim>\<open>..\<close>, and then reports the end; names are decoded with their exact
  lengths, every call returns, and no load leaves the buffer.
\<close>

theorem dirent_reader_lists:
  assumes "bc_core_ok env" and "lists_directory env path batches"
    and "bc_io_dirent_reader_create env ctx fd w = (Some r, w1)" and "listing fd (trace w) = Some (path, 0)"
    and "k > length (concat batches)"
  shows "read_entries env k r w1 =
    Some (map (\<lambda>d. (dirent_name d, dirent_type d)) (filter (\<lambda>d. \<not> dot_entry d) (concat batches)), True)"
proof (rule read_entries_lists [OF assms(1,2)])
  show "to_come path batches r w1 (concat batches)"
    using assms(3,4)
    by (auto simp: bc_io_dirent_reader_create_def pool_allocate_def answer_def to_come_def buffered_def
        BC_IO_DIRENT_READER_BUFFER_SIZE_def split: sum.splits)
  show "k > length (filter (\<lambda>d. \<not> dot_entry d) (concat batches))"
    using assms(5) length_filter_le [of "\<lambda>d. \<not> dot_entry d" "concat batches"] by linarith
qed

text \<open>A directory of two batches: the dot entries and a regular file \<^verbatim>\<open>a\<close>, then a subdirectory \<^verbatim>\<open>.b\<close>.\<close>

definition sample_batches :: "dirent list list" where
  "sample_batches =
     [[(replicate 16 1, 4, [0x2E], [0, 0, 0]), (replicate 16 2, 4, [0x2E, 0x2E], [0, 0]), (replicate 16 3, 8, [0x61], [0, 0, 0])],
      [(replicate 16 4, 4, [0x2E, 0x62], [0, 0])]]"

definition sample_directory :: io_env where
  "sample_directory = calm_env\<lparr>env_getdents := (\<lambda>h fd n. Inr (case listing fd h of
     Some (path, k) \<Rightarrow> if k < length sample_batches then concat (map record_bytes (sample_batches ! k)) else []
   | None \<Rightarrow> []))\<rparr>"

lemma sample_directory_ok: "bc_core_ok sample_directory" "lists_directory sample_directory path sample_batches"
  by (simp_all add: sample_directory_def calm_env_ok lists_directory_def batches_ok_def sample_batches_def record_bytes_def dirent_ok_def
      reclen_def)

definition opened_world :: io_world where
  "opened_world = log_event (Ev_open [0x64] O_DIRECTORY 0 (Inr 5)) initial_world"

theorem dirent_reader_lists_witness:
  "\<exists>r w1. bc_io_dirent_reader_create sample_directory 16 5 opened_world = (Some r, w1) \<and>
     read_entries sample_directory 9 r w1 = Some ([([0x61], 8), ([0x2E, 0x62], 4)], True)"
proof -
  obtain r w1 where c: "bc_io_dirent_reader_create sample_directory 16 5 opened_world = (Some r, w1)"
    by (simp add: bc_io_dirent_reader_create_def pool_allocate_def answer_def sample_directory_def)
  have "read_entries sample_directory 9 r w1 = Some ([([0x61], 8), ([0x2E, 0x62], 4)], True)"
    using dirent_reader_lists [OF sample_directory_ok c, of "[0x64]" 9]
    by (simp add: opened_world_def initial_world_def listing_def sample_batches_def dot_entry_def)
  with c show ?thesis by blast
qed

end
