(* ===== verification/IO_Walk.thy ===== *)
theory IO_Walk
  imports IO_Path IO_Dirent
begin

text \<open>
  What the two directory walks share: the entry handed to the caller's callbacks, the configuration
  and the statistics of \<^verbatim>\<open>bc_io_walk.h\<close>, and the part of both loops that builds the path of a directory
  entry, finds out its type and status, and asks the filter (\<^verbatim>\<open>bc_io_walk_sequential.c\<close> and
  \<^verbatim>\<open>bc_io_walk_parallel.c\<close> have the same lines). The callbacks are the caller's code: they are functions of all
  that happened before, and every call of one is recorded.
\<close>

section \<open>Entries, configuration, statistics\<close>

definition BC_IO_MAX_PATH_LENGTH :: size_t where "BC_IO_MAX_PATH_LENGTH = 4096"

datatype bc_io_walk_entry_kind =
    BC_IO_WALK_ENTRY_FILE | BC_IO_WALK_ENTRY_DIRECTORY | BC_IO_WALK_ENTRY_SYMLINK | BC_IO_WALK_ENTRY_OTHER

text \<open>\<^verbatim>\<open>absolute_path\<close> is the text of \<^verbatim>\<open>absolute_path_length\<close> bytes the C field points to.\<close>

record bc_io_walk_entry =
  absolute_path :: bytes
  absolute_path_length :: size_t
  entry_kind :: bc_io_walk_entry_kind
  file_size :: size_t
  depth :: size_t
  device_id :: u64
  inode_number :: u64
  modification_time_seconds :: u64
  permission_mask :: u32
  stat_populated :: bool

text \<open>The calls of the caller's functions, with their answers, as they were made.\<close>

datatype walk_call =
    Stop_called bool
  | Filter_called bc_io_walk_entry bool
  | Visit_called bc_io_walk_entry bool
  | Descend_called bc_io_walk_entry bool
  | Error_called bytes string int

record walk_world = io_world +
  walk_calls :: "walk_call list"

text \<open>
  A callback together with its \<^verbatim>\<open>user_data\<close> is a function of the history of system calls and of earlier
  callbacks; \<open>None\<close> is the null pointer. \<^verbatim>\<open>on_error\<close> returns nothing, so only its presence matters.
\<close>

type_synonym 'a callback = "(history \<Rightarrow> walk_call list \<Rightarrow> 'a) option"

record bc_io_walk_config =
  config_root :: "bytes option"
  config_root_length :: size_t
  config_main_memory_context :: addr
  config_concurrency_context :: addr
  config_should_stop_check :: "bool callback"
  config_queue_capacity :: size_t
  config_follow_symlinks :: bool
  config_include_hidden :: bool
  config_filter :: "(bc_io_walk_entry \<Rightarrow> bool) callback"
  config_should_descend :: "(bc_io_walk_entry \<Rightarrow> bool) callback"
  config_visit :: "(bc_io_walk_entry \<Rightarrow> bool) callback"
  config_on_error :: bool

record bc_io_walk_stats =
  files_visited :: size_t
  directories_visited :: size_t
  files_skipped :: size_t
  errors_encountered :: size_t

definition log_call :: "walk_call \<Rightarrow> 'w walk_world_scheme \<Rightarrow> 'w walk_world_scheme" where
  "log_call c w = w\<lparr>walk_calls := walk_calls w @ [c]\<rparr>"

text \<open>Calling an optional callback about an entry: a missing one answers true without a call.\<close>

definition ask :: "(bc_io_walk_entry \<Rightarrow> bool) callback \<Rightarrow> (bc_io_walk_entry \<Rightarrow> bool \<Rightarrow> walk_call) \<Rightarrow> bc_io_walk_entry \<Rightarrow>
    'w walk_world_scheme \<Rightarrow> bool \<times> 'w walk_world_scheme" where
  "ask callback call entry w =
     (case callback of
        None \<Rightarrow> (True, w)
      | Some f \<Rightarrow> let answer = f (trace w) (walk_calls w) entry in (answer, log_call (call entry answer) w))"

definition tell_error :: "bc_io_walk_config \<Rightarrow> bytes \<Rightarrow> string \<Rightarrow> int \<Rightarrow> 'w walk_world_scheme \<Rightarrow> 'w walk_world_scheme" where
  "tell_error config path stage errno_value w =
     (if config_on_error config then log_call (Error_called path stage errno_value) w else w)"

section \<open>One directory entry\<close>

text \<open>The C string that starts at an offset of a buffer.\<close>

definition c_text :: "bytes \<Rightarrow> nat \<Rightarrow> bytes" where
  "c_text buf i = takeWhile (\<lambda>b. b \<noteq> 0) (drop i buf)"

definition bc_io_walk_sequential_entry_kind_from_type :: "bc_io_file_entry_type \<Rightarrow> bc_io_walk_entry_kind" where
  "bc_io_walk_sequential_entry_kind_from_type type =
     (case type of
        BC_IO_ENTRY_TYPE_FILE \<Rightarrow> BC_IO_WALK_ENTRY_FILE
      | BC_IO_ENTRY_TYPE_DIRECTORY \<Rightarrow> BC_IO_WALK_ENTRY_DIRECTORY
      | BC_IO_ENTRY_TYPE_SYMLINK \<Rightarrow> BC_IO_WALK_ENTRY_SYMLINK
      | BC_IO_ENTRY_TYPE_OTHER \<Rightarrow> BC_IO_WALK_ENTRY_OTHER)"

text \<open>The local variables \<^verbatim>\<open>resolved_...\<close> with the kind and \<^verbatim>\<open>stat_populated\<close>.\<close>

record resolution =
  resolved_kind :: bc_io_walk_entry_kind
  resolved_file_size :: size_t
  resolved_device_id :: u64
  resolved_inode_number :: u64
  resolved_modification_time :: u64
  resolved_permission_mask :: u32
  resolved_populated :: bool

text \<open>
  From the \<^verbatim>\<open>d_type\<close> of the entry to its kind and status: \<^verbatim>\<open>fstatat\<close> through \<^verbatim>\<open>bc_io_file_stat_if_unknown\<close> for an
  unknown type, an \<^verbatim>\<open>fstatat\<close> of its own for files, directories and links to follow. \<open>None\<close> where a \<^verbatim>\<open>fstatat\<close>
  failed, with \<^verbatim>\<open>errno\<close> set.
\<close>

definition resolve_type :: "io_env \<Rightarrow> int \<Rightarrow> u8 \<Rightarrow> bytes \<Rightarrow> 'w io_world_scheme \<Rightarrow> resolution option \<times> 'w io_world_scheme" where
  "resolve_type env fd d_type name w =
     (let unresolved = \<lparr>resolved_kind = BC_IO_WALK_ENTRY_OTHER, resolved_file_size = 0, resolved_device_id = 0,
            resolved_inode_number = 0, resolved_modification_time = 0, resolved_permission_mask = 0,
            resolved_populated = False\<rparr>
      in if d_type \<noteq> DT_UNKNOWN
         then (Some (unresolved\<lparr>resolved_kind :=
                 bc_io_walk_sequential_entry_kind_from_type (bc_io_file_dtype_to_entry_type d_type)\<rparr>), w)
         else (case bc_io_file_stat_if_unknown env fd name w of
                 (None, w) \<Rightarrow> (None, w)
               | (Some (type, device, inode, sz, mtime), w) \<Rightarrow>
                   (Some (unresolved\<lparr>resolved_kind := bc_io_walk_sequential_entry_kind_from_type type,
                      resolved_file_size := sz, resolved_device_id := device, resolved_inode_number := inode,
                      resolved_modification_time := mtime, resolved_populated := True\<rparr>), w)))"

definition resolve_status :: "io_env \<Rightarrow> bool \<Rightarrow> int \<Rightarrow> bytes \<Rightarrow> resolution \<Rightarrow> 'w io_world_scheme \<Rightarrow>
    resolution option \<times> 'w io_world_scheme" where
  "resolve_status env follow_symlinks fd name res w =
     (if \<not> resolved_populated res \<and>
         (resolved_kind res = BC_IO_WALK_ENTRY_FILE \<or> resolved_kind res = BC_IO_WALK_ENTRY_DIRECTORY \<or>
          resolved_kind res = BC_IO_WALK_ENTRY_SYMLINK \<and> follow_symlinks)
      then (case sys_fstatat env fd name (if follow_symlinks then 0 else AT_SYMLINK_NOFOLLOW) w of
              (Inl _, w) \<Rightarrow> (None, w)
            | (Inr st, w) \<Rightarrow>
                let kind = (if resolved_kind res = BC_IO_WALK_ENTRY_SYMLINK \<and> follow_symlinks then
                              (if S_ISREG (st_mode st) then BC_IO_WALK_ENTRY_FILE
                               else if S_ISDIR (st_mode st) then BC_IO_WALK_ENTRY_DIRECTORY else resolved_kind res)
                            else resolved_kind res)
                in (Some \<lparr>resolved_kind = kind, resolved_file_size = st_size st, resolved_device_id = st_dev st,
                          resolved_inode_number = st_ino st, resolved_modification_time = st_mtim_sec st,
                          resolved_permission_mask = st_mode st AND 0xFFF, resolved_populated = True\<rparr>, w))
      else (Some res, w))"

definition resolve_entry :: "io_env \<Rightarrow> bool \<Rightarrow> int \<Rightarrow> u8 \<Rightarrow> bytes \<Rightarrow> 'w io_world_scheme \<Rightarrow>
    resolution option \<times> 'w io_world_scheme" where
  "resolve_entry env follow_symlinks fd d_type name w =
     (case resolve_type env fd d_type name w of
        (None, w) \<Rightarrow> (None, w)
      | (Some res, w) \<Rightarrow> resolve_status env follow_symlinks fd name res w)"

definition walk_entry_of :: "bytes \<Rightarrow> size_t \<Rightarrow> size_t \<Rightarrow> resolution \<Rightarrow> bc_io_walk_entry" where
  "walk_entry_of child_path child_path_length dep res =
     \<lparr>absolute_path = take (unat child_path_length) child_path, absolute_path_length = child_path_length,
      entry_kind = resolved_kind res, file_size = resolved_file_size res, depth = dep,
      device_id = resolved_device_id res, inode_number = resolved_inode_number res,
      modification_time_seconds = resolved_modification_time res, permission_mask = resolved_permission_mask res,
      stat_populated = resolved_populated res\<rparr>"

section \<open>What resolving an entry does\<close>

lemma walk_world_simps [simp]:
  "trace (log_call c w) = trace w" "errno (log_call c w) = errno w" "walk_calls (log_call c w) = walk_calls w @ [c]"
  by (simp_all add: log_call_def)

lemma walk_calls_world [simp]:
  "walk_calls (log_event ev w) = walk_calls w" "walk_calls (set_errno e w) = walk_calls w"
  "walk_calls (snd (answer mk r w)) = walk_calls w"
  by (auto simp: log_event_def set_errno_def answer_def split: sum.splits)

lemma walk_calls_more: "io_world.more w' = io_world.more w \<Longrightarrow> walk_calls w' = walk_calls w"
  by (cases w; cases w') simp

text \<open>Only status queries happened from \<open>w\<close> to \<open>w'\<close>.\<close>

definition stats_only :: "'w io_world_scheme \<Rightarrow> 'w io_world_scheme \<Rightarrow> bool" where
  "stats_only w w' \<longleftrightarrow> io_world.more w' = io_world.more w \<and>
     (\<exists>h. trace w' = trace w @ h \<and> (\<forall>ev \<in> set h. \<exists>fd name fl a. ev = Ev_fstatat fd name fl a))"

lemma stats_only_refl [simp]: "stats_only w w"
  by (simp add: stats_only_def)

lemma fstatat_stats_only: "sys_fstatat env fd name fl w = (a, w') \<Longrightarrow> stats_only w w'"
  by (auto simp: sys_fstatat_def answer_def stats_only_def log_event_def set_errno_def split: sum.splits)

lemma stats_only_trans:
  assumes "stats_only w w'" and "stats_only w' w''"
  shows "stats_only w w''"
proof -
  obtain h h' where "trace w' = trace w @ h" "\<forall>ev \<in> set h. \<exists>fd name fl a. ev = Ev_fstatat fd name fl a"
    and "trace w'' = trace w' @ h'" "\<forall>ev \<in> set h'. \<exists>fd name fl a. ev = Ev_fstatat fd name fl a"
    using assms by (auto simp: stats_only_def)
  moreover have "io_world.more w'' = io_world.more w" using assms by (simp add: stats_only_def)
  ultimately show ?thesis unfolding stats_only_def by (intro conjI exI [of _ "h @ h'"]) auto
qed

lemma resolve_type_stats_only: "resolve_type env fd d_type name w = (res, w') \<Longrightarrow> stats_only w w'"
  by (auto simp: resolve_type_def bc_io_file_stat_if_unknown_def Let_def dest!: fstatat_stats_only
      split: if_splits prod.splits sum.splits)

lemma resolve_status_stats_only: "resolve_status env follow fd name res w = (res', w') \<Longrightarrow> stats_only w w'"
  by (auto simp: resolve_status_def Let_def dest!: fstatat_stats_only split: if_splits prod.splits sum.splits)

lemma resolve_entry_stats_only: "resolve_entry env follow fd d_type name w = (res, w') \<Longrightarrow> stats_only w w'"
  unfolding resolve_entry_def
  by (auto dest!: resolve_type_stats_only resolve_status_stats_only intro: stats_only_trans split: prod.splits option.splits)

lemma fstatat_effect:
  assumes "\<forall>ev \<in> set h. \<exists>fd name fl a. ev = Ev_fstatat fd name fl a"
  shows "balance h r = 0" and "foldl (track fd) s h = s"
  using assms by (induction h) auto

section \<open>Paths below a directory\<close>

text \<open>A buffer and a length that hold a non-empty terminated text which fits a path buffer.\<close>

definition holds_path :: "bytes \<Rightarrow> size_t \<Rightarrow> bytes \<Rightarrow> bool" where
  "holds_path buf len p \<longleftrightarrow> unat len = length p \<and> p \<noteq> [] \<and> length p < 4096 \<and> 0 \<notin> set p \<and> (\<exists>tail. buf = p @ 0 # tail)"

lemma holds_pathD:
  assumes "holds_path buf len p"
  shows "take (unat len) buf = p" and "c_text buf 0 = p" and "unat len \<le> length buf" and "unat len = length p"
proof -
  obtain tail where t: "buf = p @ 0 # tail" "unat len = length p" "0 \<notin> set p" using assms by (auto simp: holds_path_def)
  show "take (unat len) buf = p" and "unat len \<le> length buf" and "unat len = length p" using t by simp_all
  show "c_text buf 0 = p" unfolding c_text_def t(1) by (simp, subst takeWhile_append2) (use t(3) in auto)
qed

text \<open>A name the walk goes on with: never one of the dot entries, and hidden ones only on request.\<close>

definition name_ok :: "bc_io_walk_config \<Rightarrow> bytes \<Rightarrow> bool" where
  "name_ok config n \<longleftrightarrow> n \<noteq> [] \<and> 0 \<notin> set n \<and> n \<noteq> [0x2E] \<and> n \<noteq> [0x2E, 0x2E] \<and>
     (hd n = 0x2E \<longrightarrow> config_include_hidden config)"

text \<open>The path the walk builds for an entry, and the result of building it.\<close>

lemma child_path:
  assumes core: "bc_core_ok env" and dir: "holds_path buf len p" and e: "entry_is r e d"
  shows "bc_io_file_path_join env (fresh_memory env h BC_IO_MAX_PATH_LENGTH) BC_IO_MAX_PATH_LENGTH buf len
      (drop (entry_name e) (reader_buffer r)) (entry_name_length e) =
    Some (if length (joined p (dirent_name d)) < 4096
      then (Some (of_nat (length (joined p (dirent_name d)))),
        overwrite 0 (joined p (dirent_name d) @ [0]) (fresh_memory env h BC_IO_MAX_PATH_LENGTH))
      else (None, fresh_memory env h BC_IO_MAX_PATH_LENGTH))"
proof -
  have "unat len + unat (entry_name_length e) + 2 < 2 ^ 64"
    using dir e dirent_okD(3) [of d] entry_isD(2) [OF e] by (auto simp: holds_path_def entry_is_def)
  then show ?thesis
    using path_join_spec [OF core, of BC_IO_MAX_PATH_LENGTH "fresh_memory env h BC_IO_MAX_PATH_LENGTH" len buf
        "entry_name_length e" "drop (entry_name e) (reader_buffer r)"]
      holds_pathD [OF dir] entry_isD(1-3) [OF e]
    by (simp add: BC_IO_MAX_PATH_LENGTH_def)
qed

lemma stored_holds_path:
  "q \<noteq> [] \<Longrightarrow> 0 \<notin> set q \<Longrightarrow> length q < 4096 \<Longrightarrow> holds_path (overwrite 0 (q @ [0]) mem) (of_nat (length q)) q"
  by (simp add: holds_path_def overwrite_def unat_of_nat64)

lemma child_holds_path:
  assumes "holds_path buf len p" and "dirent_ok d" and "length (joined p (dirent_name d)) < 4096"
  shows "holds_path (overwrite 0 (joined p (dirent_name d) @ [0]) mem) (of_nat (length (joined p (dirent_name d))))
    (joined p (dirent_name d))"
  using assms dirent_okD [OF assms(2)] by (intro stored_holds_path) (auto simp: holds_path_def joined_def)

lemma joined_longer: "p \<noteq> [] \<Longrightarrow> length p < length (joined p n)"
  by (simp add: joined_def)

section \<open>A kernel that serves a snapshot of a file system\<close>

text \<open>A file system at rest: the listing of every directory, and the status of every path with and without following links.\<close>

record snapshot =
  snap_dirs :: "bytes \<Rightarrow> dirent list list option"
  snap_stat :: "bytes \<Rightarrow> u32 \<Rightarrow> c_stat"

definition child_of :: "bytes \<Rightarrow> bytes \<Rightarrow> bytes" where
  "child_of p n = p @ [0x2F] @ n"

text \<open>A descriptor no \<^verbatim>\<open>open\<close> of the history returned.\<close>

fun opened_as :: "event \<Rightarrow> nat" where
  "opened_as (Ev_open _ _ _ (Inr fd)) = fd"
| "opened_as _ = 0"

definition unused_descriptor :: "history \<Rightarrow> nat" where
  "unused_descriptor h = Suc (sum_list (map opened_as h))"

definition serving :: "snapshot \<Rightarrow> io_env" where
  "serving fs = calm_env
     \<lparr>env_open := (\<lambda>h p _ _. if snap_dirs fs p = None then Inl EPERM else Inr (unused_descriptor h)),
      env_fstatat := (\<lambda>h fd n fl. case listing fd h of None \<Rightarrow> Inl EINVAL | Some (p, _) \<Rightarrow> Inr (snap_stat fs (child_of p n) fl)),
      env_getdents := (\<lambda>h fd _. Inr (case listing fd h of
          None \<Rightarrow> []
        | Some (p, k) \<Rightarrow> (case snap_dirs fs p of
              None \<Rightarrow> [] | Some b \<Rightarrow> if k < length b then concat (map record_bytes (b ! k)) else [])))\<rparr>"

lemma listing_opened: "listing fd h \<noteq> None \<Longrightarrow> \<exists>k. fd = int k \<and> k \<in> set (map opened_as h)"
proof (induction h rule: rev_induct)
  case (snoc ev h)
  then show ?case by (cases "(fd, listing fd h, ev)" rule: track.cases) (auto split: if_splits)
qed simp

lemma serving_fresh: "descriptors_fresh (serving fs)"
proof -
  have "k \<le> sum_list (map opened_as h)" if "k \<in> set (map opened_as h)" for k h
    using member_le_sum_list [OF that] by simp
  then have "listing (int (unused_descriptor h)) h = None" for h
    using listing_opened [of "int (unused_descriptor h)" h] by (fastforce simp: unused_descriptor_def)
  then show ?thesis by (simp add: descriptors_fresh_def serving_def)
qed

text \<open>Listings the kernel can produce.\<close>

definition snapshot_ok :: "nat \<Rightarrow> snapshot \<Rightarrow> bool" where
  "snapshot_ok B fs \<longleftrightarrow> (\<forall>p b. snap_dirs fs p = Some b \<longrightarrow> batches_ok b \<and> length b \<le> B)"

lemma serving_ok:
  assumes "snapshot_ok B fs"
  shows "bc_core_ok (serving fs)" and "getdents_wellformed (serving fs)" and "listings_bounded B (serving fs)"
    and "descriptors_fresh (serving fs)"
proof -
  show "bc_core_ok (serving fs)" using calm_env_ok(1) by (simp add: serving_def bc_core_ok_def)
  have b: "length (concat (map record_bytes (b ! k))) \<le> 8192 \<and> (\<forall>d \<in> set (b ! k). dirent_ok d)"
    if "snap_dirs fs p = Some b" "k < length b" for p b k
    using assms that nth_mem [OF that(2)] unfolding snapshot_ok_def batches_ok_def by blast
  show "getdents_wellformed (serving fs)"
    unfolding getdents_wellformed_def
  proof (intro allI impI)
    fix h fd bs
    assume g: "env_getdents (serving fs) h fd 8192 = Inr bs"
    show "length bs \<le> 8192 \<and> (\<exists>ds. bs = concat (map record_bytes ds) \<and> (\<forall>d \<in> set ds. dirent_ok d))"
    proof (cases "bs = []")
      case False
      then obtain p k b' where "snap_dirs fs p = Some b'" "k < length b'" "bs = concat (map record_bytes (b' ! k))"
        using g by (auto simp: serving_def split: option.splits if_splits)
      then show ?thesis using b by blast
    qed (auto intro: exI [of _ "[]"])
  qed
  show "listings_bounded B (serving fs)"
    using assms by (fastforce simp: listings_bounded_def serving_def snapshot_ok_def split: option.splits if_splits)
qed (rule serving_fresh)

text \<open>
  A sample: a directory \<^verbatim>\<open>r\<close> with a file \<^verbatim>\<open>a\<close>, a hidden file, a link \<^verbatim>\<open>l\<close> and a subdirectory \<^verbatim>\<open>s\<close>, in two batches; \<^verbatim>\<open>s\<close> holds a
  file \<^verbatim>\<open>b\<close> whose type the listing does not tell.
\<close>

definition sample_dirent :: "u8 \<Rightarrow> bytes \<Rightarrow> dirent" where
  "sample_dirent t n = (replicate 16 1, t, n, [])"

definition sample_fs :: snapshot where
  "sample_fs = \<lparr>
     snap_dirs = (\<lambda>p.
       if p = [0x72] then Some [[sample_dirent 4 [0x2E], sample_dirent 4 [0x2E, 0x2E], sample_dirent 8 [0x61]],
                                [sample_dirent 8 [0x2E, 0x68], sample_dirent 10 [0x6C], sample_dirent 4 [0x73]]]
       else if p = [0x72, 0x2F, 0x73] then Some [[sample_dirent 0 [0x62]]]
       else None),
     snap_stat = (\<lambda>p _. plain_stat\<lparr>st_mode := (if p = [0x72, 0x2F, 0x73] then 0x41ED else 0x81A4)\<rparr>)\<rparr>"

lemma sample_fs_ok: "snapshot_ok 2 sample_fs"
  by (auto simp: snapshot_ok_def sample_fs_def batches_ok_def sample_dirent_def record_bytes_def dirent_ok_def reclen_def)

definition sample_config :: bc_io_walk_config where
  "sample_config = \<lparr>config_root = Some [0x72, 0], config_root_length = 1, config_main_memory_context = 16,
     config_concurrency_context = 32, config_should_stop_check = None, config_queue_capacity = 0,
     config_follow_symlinks = False, config_include_hidden = False, config_filter = None, config_should_descend = None,
     config_visit = Some (\<lambda>_ _ _. True), config_on_error = True\<rparr>"

definition walk_start :: walk_world where
  "walk_start = \<lparr>trace = [], errno = 0, walk_calls = []\<rparr>"

end
