(* ===== verification/IO_Walk_Seq.thy ===== *)
theory IO_Walk_Seq
  imports IO_Walk
begin

text \<open>
  \<^verbatim>\<open>src/walk/bc_io_walk_sequential.c\<close>: the recursive walk of a directory tree in one thread. A path is passed as the
  C code passes it, a buffer with a terminated text and the length of that text. \<open>None\<close> is a walk that
  never ends (a directory whose listing never ends) or runs into undefined behaviour.
\<close>

section \<open>Model\<close>

record bc_io_walk_sequential_state =
  state_stats :: bc_io_walk_stats
  visit_failed :: bool

type_synonym 'w walking = "bc_io_walk_sequential_state \<times> 'w walk_world_scheme"

definition bc_io_walk_sequential_should_stop :: "bc_io_walk_config \<Rightarrow> 'w walk_world_scheme \<Rightarrow> bool \<times> 'w walk_world_scheme" where
  "bc_io_walk_sequential_should_stop config w =
     (case config_should_stop_check config of
        None \<Rightarrow> (False, w)
      | Some f \<Rightarrow> let stop = f (trace w) (walk_calls w) in (stop, log_call (Stop_called stop) w))"

definition bc_io_walk_sequential_report_error :: "bc_io_walk_config \<Rightarrow> bytes \<Rightarrow> string \<Rightarrow> int \<Rightarrow> 'w walking \<Rightarrow> 'w walking" where
  "bc_io_walk_sequential_report_error config path stage errno_value = (\<lambda>(state, w).
     (state\<lparr>state_stats := (state_stats state)\<lparr>errors_encountered := errors_encountered (state_stats state) + 1\<rparr>\<rparr>,
      tell_error config path stage errno_value w))"

text \<open>How one round of the loop over the entries ends: out of the loop, round again, or down into a directory.\<close>

datatype walk_round = Leave | Again bc_io_dirent_reader | Descend bc_io_dirent_reader bytes size_t size_t

text \<open>An accepted entry: the visit and the decision to descend.\<close>

definition deliver_entry :: "bc_io_walk_config \<Rightarrow> bc_io_dirent_reader \<Rightarrow> bytes \<Rightarrow> bc_io_walk_entry \<Rightarrow> 'w walking \<Rightarrow>
    (walk_round \<times> 'w walking) option" where
  "deliver_entry config reader child_path entry = (\<lambda>(state, w).
     if entry_kind entry = BC_IO_WALK_ENTRY_FILE then
       if config_visit config = None then None
       else
         let state = state\<lparr>state_stats := (state_stats state)\<lparr>files_visited := files_visited (state_stats state) + 1\<rparr>\<rparr>;
             (ok, w) = ask (config_visit config) Visit_called entry w
         in Some (if \<not> ok then (Leave, state\<lparr>visit_failed := True\<rparr>, w) else (Again reader, state, w))
     else if entry_kind entry = BC_IO_WALK_ENTRY_DIRECTORY then
       let (ok, w) = ask (config_visit config) Visit_called entry w
       in if \<not> ok then Some (Leave, state\<lparr>visit_failed := True\<rparr>, w)
          else
            let (descend, w) = ask (config_should_descend config) Descend_called entry w
            in Some (if \<not> descend then (Again reader, state, w)
                     else (Descend reader child_path (absolute_path_length entry) (depth entry), state, w))
     else Some (Again reader, state, w))"

text \<open>The filter decides about an entry whose status is known.\<close>

definition judge_entry :: "bc_io_walk_config \<Rightarrow> bc_io_dirent_reader \<Rightarrow> bytes \<Rightarrow> bc_io_walk_entry \<Rightarrow> 'w walking \<Rightarrow>
    (walk_round \<times> 'w walking) option" where
  "judge_entry config reader child_path entry = (\<lambda>(state, w).
     let (accepted, w) = ask (config_filter config) Filter_called entry w
     in if \<not> accepted
        then Some (Again reader, state\<lparr>state_stats := (state_stats state)
                     \<lparr>files_skipped := files_skipped (state_stats state) + 1\<rparr>\<rparr>, w)
        else deliver_entry config reader child_path entry (state, w))"

text \<open>The entry the reader handed out.\<close>

definition handle_entry :: "io_env \<Rightarrow> bc_io_walk_config \<Rightarrow> int \<Rightarrow> bytes \<Rightarrow> size_t \<Rightarrow> size_t \<Rightarrow> bc_io_dirent_reader \<Rightarrow>
    bc_io_dirent_entry \<Rightarrow> 'w walking \<Rightarrow> (walk_round \<times> 'w walking) option" where
  "handle_entry env config fd directory_path directory_path_length directory_depth reader e = (\<lambda>(state, w).
     do {
       c0 \<leftarrow> load_byte (reader_buffer reader) (entry_name e);
       if c0 = 0x2E \<and> \<not> config_include_hidden config then Some (Again reader, state, w)
       else do {
         (child_path_length, child_path) \<leftarrow> bc_io_file_path_join env
           (fresh_memory env (trace w) BC_IO_MAX_PATH_LENGTH) BC_IO_MAX_PATH_LENGTH
           directory_path directory_path_length (drop (entry_name e) (reader_buffer reader)) (entry_name_length e);
         case child_path_length of
           None \<Rightarrow> Some (Again reader, bc_io_walk_sequential_report_error config (c_text directory_path 0)
                           ''path-too-long'' ENAMETOOLONG (state, w))
         | Some child_path_length \<Rightarrow>
             (case resolve_entry env (config_follow_symlinks config) fd (entry_d_type e)
                     (c_text (reader_buffer reader) (entry_name e)) w of
                (None, w) \<Rightarrow> Some (Again reader, bc_io_walk_sequential_report_error config (c_text child_path 0)
                                ''stat'' (errno w) (state, w))
              | (Some res, w) \<Rightarrow>
                  judge_entry config reader child_path (walk_entry_of child_path child_path_length (directory_depth + 1) res)
                    (state, w))
       }
     })"

text \<open>One round of the loop.\<close>

definition read_round :: "io_env \<Rightarrow> bc_io_walk_config \<Rightarrow> int \<Rightarrow> bytes \<Rightarrow> size_t \<Rightarrow> size_t \<Rightarrow> bc_io_dirent_reader \<Rightarrow>
    'w walking \<Rightarrow> (walk_round \<times> 'w walking) option" where
  "read_round env config fd directory_path directory_path_length directory_depth reader = (\<lambda>(state, w).
     if visit_failed state then Some (Leave, state, w)
     else
       let (stop, w) = bc_io_walk_sequential_should_stop config w
       in if stop then Some (Leave, state, w)
          else do {
            (result, reader, w) \<leftarrow> bc_io_dirent_reader_next env reader w;
            case result of
              Next_failed \<Rightarrow> Some (Leave, bc_io_walk_sequential_report_error config (c_text directory_path 0)
                               ''getdents64'' (bc_io_dirent_reader_last_errno reader) (state, w))
            | Next_end \<Rightarrow> Some (Leave, state, w)
            | Next_entry e \<Rightarrow> handle_entry env config fd directory_path directory_path_length directory_depth reader e (state, w)
          })"

text \<open>The part of \<^verbatim>\<open>recurse\<close> before the loop: the descriptor and the reader, or none after an early return.\<close>

definition enter_directory :: "io_env \<Rightarrow> bc_io_walk_config \<Rightarrow> bytes \<Rightarrow> 'w walking \<Rightarrow>
    (int \<times> bc_io_dirent_reader) option \<times> 'w walking" where
  "enter_directory env config directory_path = (\<lambda>(state, w).
     if visit_failed state then (None, state, w)
     else
       let (stop, w) = bc_io_walk_sequential_should_stop config w
       in if stop then (None, state, w)
          else
            let open_flags = O_RDONLY OR O_DIRECTORY OR O_CLOEXEC;
                open_flags = (if \<not> config_follow_symlinks config then open_flags OR O_NOFOLLOW else open_flags);
                (fd, w) = sys_open env (c_text directory_path 0) open_flags 0 w
            in if fd < 0
               then (None, bc_io_walk_sequential_report_error config (c_text directory_path 0) ''open'' (errno w) (state, w))
               else
                 let state = state\<lparr>state_stats := (state_stats state)
                               \<lparr>directories_visited := directories_visited (state_stats state) + 1\<rparr>\<rparr>
                 in case bc_io_dirent_reader_create env (config_main_memory_context config) fd w of
                      (None, w) \<Rightarrow>
                        let (state, w) = bc_io_walk_sequential_report_error config (c_text directory_path 0)
                                           ''dirent-reader-alloc'' ENOMEM (state, w)
                        in (None, state, sys_close env fd w)
                    | (Some reader, w) \<Rightarrow> (Some (fd, reader), state, w))"

text \<open>
  \<^verbatim>\<open>bc_io_walk_sequential_recurse\<close> and its loop, which call each other: \<open>Enter\<close> is a call of the function with its
  arguments, \<open>Read\<close> the loop from some round on, with the descriptor and the reader.
\<close>

datatype walk_task =
    Enter bytes size_t size_t
  | Read int bc_io_dirent_reader bytes size_t size_t

partial_function (option) walk_run :: "io_env \<Rightarrow> bc_io_walk_config \<Rightarrow> walk_task \<Rightarrow> 'w walking \<Rightarrow> 'w walking option" where
  "walk_run env config task sw =
     (case task of
        Enter path path_length dep \<Rightarrow>
          (case enter_directory env config path sw of
             (None, sw) \<Rightarrow> Some sw
           | (Some (fd, reader), sw) \<Rightarrow> do {
               (state, w) \<leftarrow> walk_run env config (Read fd reader path path_length dep) sw;
               let w = bc_io_dirent_reader_destroy (config_main_memory_context config) (Some reader) w;
               Some (state, sys_close env fd w)
             })
      | Read fd reader path path_length dep \<Rightarrow> do {
          (rnd, sw) \<leftarrow> read_round env config fd path path_length dep reader sw;
          case rnd of
            Leave \<Rightarrow> Some sw
          | Again reader \<Rightarrow> walk_run env config (Read fd reader path path_length dep) sw
          | Descend reader child child_length child_depth \<Rightarrow> do {
              sw \<leftarrow> walk_run env config (Enter child child_length child_depth) sw;
              walk_run env config (Read fd reader path path_length dep) sw
            }
        })"

definition bc_io_walk_sequential_recurse :: "io_env \<Rightarrow> bc_io_walk_config \<Rightarrow> bytes \<Rightarrow> size_t \<Rightarrow> size_t \<Rightarrow> 'w walking \<Rightarrow>
    'w walking option" where
  "bc_io_walk_sequential_recurse env config directory_path directory_path_length directory_depth sw =
     walk_run env config (Enter directory_path directory_path_length directory_depth) sw"

text \<open>
  The state on the stack, 48 bytes, is cleared with \<^verbatim>\<open>bc_core_zero\<close>: its four counters follow the pointer to
  the configuration, and the flag follows them.
\<close>

definition sizeof_bc_io_walk_sequential_state :: size_t where "sizeof_bc_io_walk_sequential_state = 48"

definition cleared_state :: "io_env \<Rightarrow> bc_io_walk_sequential_state" where
  "cleared_state env =
     (let bs = snd (core_zero env sizeof_bc_io_walk_sequential_state);
          counter = (\<lambda>i. load_le (take 8 (drop i bs)))
      in \<lparr>state_stats = \<lparr>files_visited = counter 8, directories_visited = counter 16, files_skipped = counter 24,
                         errors_encountered = counter 32\<rparr>,
          visit_failed = (take 1 (drop 40 bs) \<noteq> [0])\<rparr>)"

text \<open>The result is the returned flag and, where the walk was made, \<^verbatim>\<open>*out_stats\<close>.\<close>

definition bc_io_walk_sequential :: "io_env \<Rightarrow> bc_io_walk_config option \<Rightarrow> 'w walk_world_scheme \<Rightarrow>
    ((bool \<times> bc_io_walk_stats option) \<times> 'w walk_world_scheme) option" where
  "bc_io_walk_sequential env config w =
     (case config of
        None \<Rightarrow> Some ((False, None), w)
      | Some config \<Rightarrow>
          (case config_root config of
             None \<Rightarrow> Some ((False, None), w)
           | Some root \<Rightarrow>
               if config_root_length config = 0 \<or> config_root_length config \<ge> BC_IO_MAX_PATH_LENGTH
               then Some ((False, None), w)
               else if config_visit config = None then Some ((False, None), w)
               else if config_main_memory_context config = NULL then Some ((False, None), w)
               else do {
                 (state, w) \<leftarrow> bc_io_walk_sequential_recurse env config root (config_root_length config) 0
                   (cleared_state env, w);
                 Some ((\<not> visit_failed state, Some (state_stats state)), w)
               }))"

section \<open>What a stretch of the walk does\<close>

text \<open>
  An entry handed to a callback while the directory \<open>p\<close> at depth \<open>dep\<close> is walked lies some names below \<open>p\<close>;
  its depth counts them, and path and length agree.
\<close>

definition located :: "bc_io_walk_config \<Rightarrow> bytes \<Rightarrow> size_t \<Rightarrow> bc_io_walk_entry \<Rightarrow> bool" where
  "located config p dep e \<longleftrightarrow> absolute_path_length e = of_nat (length (absolute_path e)) \<and> length (absolute_path e) < 4096 \<and>
     (\<exists>names. names \<noteq> [] \<and> (\<forall>n \<in> set names. name_ok config n) \<and> absolute_path e = foldl joined p names \<and>
        depth e = dep + of_nat (length names))"

fun call_ok :: "bc_io_walk_config \<Rightarrow> bytes \<Rightarrow> size_t \<Rightarrow> walk_call \<Rightarrow> bool" where
  "call_ok config p dep (Stop_called _) \<longleftrightarrow> True"
| "call_ok config p dep (Filter_called e _) \<longleftrightarrow> located config p dep e"
| "call_ok config p dep (Visit_called e _) \<longleftrightarrow> located config p dep e \<and>
     (entry_kind e = BC_IO_WALK_ENTRY_FILE \<or> entry_kind e = BC_IO_WALK_ENTRY_DIRECTORY)"
| "call_ok config p dep (Descend_called e _) \<longleftrightarrow> located config p dep e \<and> entry_kind e = BC_IO_WALK_ENTRY_DIRECTORY"
| "call_ok config p dep (Error_called q _ _) \<longleftrightarrow> (\<exists>names. q = foldl joined p names \<and> (\<forall>n \<in> set names. name_ok config n))"

lemma call_ok_child:
  assumes "call_ok config (joined p n) (dep + 1) c" and "name_ok config n"
  shows "call_ok config p dep c"
proof -
  have loc: "located config p dep e" if e: "located config (joined p n) (dep + 1) e" for e
  proof -
    obtain names where "names \<noteq> []" "\<forall>m \<in> set names. name_ok config m" "absolute_path e = foldl joined (joined p n) names"
      "depth e = dep + 1 + of_nat (length names)" using e by (auto simp: located_def)
    then show ?thesis using e assms(2) by (auto simp: located_def intro!: exI [of _ "n # names"])
  qed
  show ?thesis
  proof (cases c)
    case (Error_called q st en)
    then obtain names where "q = foldl joined (joined p n) names" "\<forall>m \<in> set names. name_ok config m" using assms(1) by auto
    then show ?thesis using Error_called assms(2) by (auto intro!: exI [of _ "n # names"])
  qed (use assms loc in auto)
qed

text \<open>What the counters count.\<close>

fun is_file_visit :: "walk_call \<Rightarrow> bool" where
  "is_file_visit (Visit_called e _) \<longleftrightarrow> entry_kind e = BC_IO_WALK_ENTRY_FILE"
| "is_file_visit _ \<longleftrightarrow> False"

fun is_rejection :: "walk_call \<Rightarrow> bool" where
  "is_rejection (Filter_called _ ok) \<longleftrightarrow> \<not> ok"
| "is_rejection _ \<longleftrightarrow> False"

fun is_error_call :: "walk_call \<Rightarrow> bool" where
  "is_error_call (Error_called _ _ _) \<longleftrightarrow> True"
| "is_error_call _ \<longleftrightarrow> False"

fun is_refusal :: "walk_call \<Rightarrow> bool" where
  "is_refusal (Visit_called _ ok) \<longleftrightarrow> \<not> ok"
| "is_refusal _ \<longleftrightarrow> False"

fun is_opening :: "event \<Rightarrow> bool" where
  "is_opening (Ev_open _ _ _ (Inr _)) \<longleftrightarrow> True"
| "is_opening _ \<longleftrightarrow> False"

definition tally :: "('a \<Rightarrow> bool) \<Rightarrow> 'a list \<Rightarrow> size_t" where
  "tally P xs = of_nat (length (filter P xs))"

lemma tally_simps [simp]:
  "tally P [] = 0" "tally P (x # xs) = (if P x then 1 else 0) + tally P xs" "tally P (xs @ ys) = tally P xs + tally P ys"
  by (simp_all add: tally_def)

definition counted :: "bc_io_walk_config \<Rightarrow> bc_io_walk_stats \<Rightarrow> history \<Rightarrow> walk_call list \<Rightarrow> bc_io_walk_stats \<Rightarrow> bool" where
  "counted config st h cs st' \<longleftrightarrow>
     files_visited st' = files_visited st + tally is_file_visit cs \<and>
     directories_visited st' = directories_visited st + tally is_opening h \<and>
     files_skipped st' = files_skipped st + tally is_rejection cs \<and>
     (config_on_error config \<longrightarrow> errors_encountered st' = errors_encountered st + tally is_error_call cs)"

text \<open>A visit that returns false is the last call that is made, and it is what sets the flag.\<close>

definition refused :: "bc_io_walk_sequential_state \<Rightarrow> walk_call list \<Rightarrow> bc_io_walk_sequential_state \<Rightarrow> bool" where
  "refused s cs s' \<longleftrightarrow>
     (if visit_failed s then cs = [] \<and> s' = s
      else if visit_failed s' then \<exists>cs0 e. cs = cs0 @ [Visit_called e False] \<and> filter is_refusal cs0 = []
      else filter is_refusal cs = [])"

text \<open>
  \<open>walked config F p dep \<Delta> sw sw'\<close>: from \<open>sw\<close> to \<open>sw'\<close> the resources held changed by \<open>\<Delta>\<close>, descriptors that were open and
  are not in \<open>F\<close> were not touched, and callbacks and counters are in order.
\<close>

definition untouched :: "int set \<Rightarrow> history \<Rightarrow> history \<Rightarrow> bool" where
  "untouched F h h' \<longleftrightarrow> (\<forall>fd. fd \<notin> F \<longrightarrow> listing fd h \<noteq> None \<longrightarrow> listing fd h' = listing fd h)"

definition walked :: "bc_io_walk_config \<Rightarrow> int set \<Rightarrow> bytes \<Rightarrow> size_t \<Rightarrow> (resource \<Rightarrow> int) \<Rightarrow> 'w walking \<Rightarrow> 'w walking \<Rightarrow> bool" where
  "walked config F p dep D = (\<lambda>(s, w) (s', w'). \<exists>h cs.
     trace w' = trace w @ h \<and> walk_calls w' = walk_calls w @ cs \<and> (\<forall>r. balance h r = D r) \<and>
     untouched F (trace w) (trace w') \<and> counted config (state_stats s) h cs (state_stats s') \<and> refused s cs s' \<and>
     (\<forall>c \<in> set cs. call_ok config p dep c))"

lemma untouched_trans: "untouched F h h' \<Longrightarrow> untouched F h' h'' \<Longrightarrow> untouched F h h''"
  by (auto simp: untouched_def)

lemma untouched_refl [simp]: "untouched F h h"
  by (simp add: untouched_def)

lemma counted_trans: "counted config a h cs b \<Longrightarrow> counted config b h' cs' c \<Longrightarrow> counted config a (h @ h') (cs @ cs') c"
  by (simp add: counted_def)

lemma refused_trans:
  assumes "refused s cs s'" and "refused s' cs' s''"
  shows "refused s (cs @ cs') s''"
  using assms by (cases "visit_failed s"; cases "visit_failed s'"; cases "visit_failed s''") (auto simp: refused_def)

lemma walked_refl: "walked config F p dep (\<lambda>_. 0) sw sw"
  by (cases sw) (auto simp: walked_def counted_def refused_def)

lemma walked_trans:
  assumes "walked config F p dep D sw sw'" and "walked config F p dep D' sw' sw''"
  shows "walked config F p dep (\<lambda>r. D r + D' r) sw sw''"
proof -
  obtain s w s' w' s'' w'' where sw: "sw = (s, w)" "sw' = (s', w')" "sw'' = (s'', w'')" by (metis surj_pair)
  obtain h cs where 1: "trace w' = trace w @ h" "walk_calls w' = walk_calls w @ cs" "\<forall>r. balance h r = D r"
    "untouched F (trace w) (trace w')" "counted config (state_stats s) h cs (state_stats s')" "refused s cs s'"
    "\<forall>c \<in> set cs. call_ok config p dep c" using assms(1) by (auto simp: walked_def sw)
  obtain h' cs' where 2: "trace w'' = trace w' @ h'" "walk_calls w'' = walk_calls w' @ cs'" "\<forall>r. balance h' r = D' r"
    "untouched F (trace w') (trace w'')" "counted config (state_stats s') h' cs' (state_stats s'')" "refused s' cs' s''"
    "\<forall>c \<in> set cs'. call_ok config p dep c" using assms(2) by (auto simp: walked_def sw)
  show ?thesis
    unfolding walked_def sw prod.case
    by (intro exI [of _ "h @ h'"] exI [of _ "cs @ cs'"] conjI)
      (use 1 2 untouched_trans counted_trans refused_trans in \<open>auto\<close>)
qed

lemma walked_child:
  assumes "walked config {} (joined p n) (dep + 1) D sw sw'" and "name_ok config n"
  shows "walked config F p dep D sw sw'"
  using assms call_ok_child [OF _ assms(2)] by (fastforce simp: walked_def untouched_def split: prod.splits)

text \<open>Steps that only call callbacks, and steps that only make harmless system calls.\<close>

lemma walked_calls:
  assumes "trace w' = trace w" and "walk_calls w' = walk_calls w @ cs" and "counted config (state_stats s) [] cs (state_stats s')"
    and "refused s cs s'" and "\<forall>c \<in> set cs. call_ok config p dep c"
  shows "walked config F p dep (\<lambda>_. 0) (s, w) (s', w')"
  using assms by (auto simp: walked_def)

lemma walked_lists_only:
  assumes "lists_only fd w w'"
  shows "walked config {fd} p dep (\<lambda>_. 0) (s, w) (s, w')"
proof -
  obtain h where h: "trace w' = trace w @ h" "\<forall>ev \<in> set h. \<exists>n a. ev = Ev_getdents fd n a" "walk_calls w' = walk_calls w"
    using assms by (auto simp: lists_only_def dest: walk_calls_more)
  from h(2) have "tally is_opening h = 0" by (induction h) auto
  moreover have "untouched {fd} (trace w) (trace w')"
    unfolding untouched_def h(1) listing_append using getdents_effect(2) [OF h(2)] by auto
  ultimately show ?thesis
    using h getdents_effect(1) [OF h(2)] by (auto simp: walked_def counted_def refused_def intro!: exI [of _ h])
qed

lemma walked_stats_only:
  assumes "stats_only w w'"
  shows "walked config F p dep (\<lambda>_. 0) (s, w) (s, w')"
proof -
  obtain h where h: "trace w' = trace w @ h" "\<forall>ev \<in> set h. \<exists>fd name fl a. ev = Ev_fstatat fd name fl a"
    "walk_calls w' = walk_calls w"
    using assms by (auto simp: stats_only_def dest: walk_calls_more)
  from h(2) have "tally is_opening h = 0" by (induction h) auto
  moreover have "untouched F (trace w) (trace w')"
    unfolding untouched_def h(1) listing_append using fstatat_effect(2) [OF h(2)] by auto
  ultimately show ?thesis
    using h fstatat_effect(1) [OF h(2)] by (auto simp: walked_def counted_def refused_def intro!: exI [of _ h])
qed

section \<open>The rounds of the loop\<close>

lemma should_stop_walked:
  assumes "bc_io_walk_sequential_should_stop config w = (stop, w')" and "\<not> visit_failed s"
  shows "walked config F p dep (\<lambda>_. 0) (s, w) (s, w')" and "trace w' = trace w"
proof -
  obtain cs where "trace w' = trace w" "walk_calls w' = walk_calls w @ cs" "cs = [] \<or> cs = [Stop_called stop]"
    using assms(1) by (auto simp: bc_io_walk_sequential_should_stop_def Let_def split: option.splits)
  then show "walked config F p dep (\<lambda>_. 0) (s, w) (s, w')" and "trace w' = trace w"
    using assms(2) by (auto intro!: walked_calls simp: counted_def refused_def)
qed

lemma report_error_walked:
  assumes "bc_io_walk_sequential_report_error config (foldl joined p names) stage e (s, w) = (s', w')"
    and "\<not> visit_failed s" and "\<forall>n \<in> set names. name_ok config n"
  shows "walked config F p dep (\<lambda>_. 0) (s, w) (s', w')" and "trace w' = trace w" and "visit_failed s' = visit_failed s"
proof -
  show "walked config F p dep (\<lambda>_. 0) (s, w) (s', w')"
    by (rule walked_calls [where cs = "if config_on_error config then [Error_called (foldl joined p names) stage e] else []"])
      (use assms in \<open>auto simp: bc_io_walk_sequential_report_error_def tell_error_def counted_def refused_def\<close>)
qed (use assms(1) in \<open>auto simp: bc_io_walk_sequential_report_error_def tell_error_def\<close>)

lemma ask_calls:
  assumes "ask callback mk e w = (ok, w')"
  shows "trace w' = trace w" and "walk_calls w' = walk_calls w @ (if callback = None then [] else [mk e ok])"
    and "callback = None \<Longrightarrow> ok"
  using assms by (auto simp: ask_def Let_def split: option.splits)

lemma deliver_entry_ok:
  assumes s: "\<not> visit_failed s" and visit: "config_visit config \<noteq> None" and e: "located config p dep e"
  obtains rnd s' w' where "deliver_entry config reader child e (s, w) = Some (rnd, s', w')"
    and "walked config F p dep (\<lambda>_. 0) (s, w) (s', w')" and "trace w' = trace w"
    and "rnd = Leave \<or> rnd = Again reader \<or> rnd = Descend reader child (absolute_path_length e) (depth e)"
proof -
  consider "entry_kind e = BC_IO_WALK_ENTRY_FILE" | "entry_kind e = BC_IO_WALK_ENTRY_DIRECTORY"
    | "entry_kind e = BC_IO_WALK_ENTRY_SYMLINK \<or> entry_kind e = BC_IO_WALK_ENTRY_OTHER" by (cases "entry_kind e") auto
  then show thesis
  proof cases
    case 1
    obtain ok w' where a: "ask (config_visit config) Visit_called e w = (ok, w')" by fastforce
    note c = ask_calls [OF a]
    let ?s = "s\<lparr>state_stats := (state_stats s)\<lparr>files_visited := files_visited (state_stats s) + 1\<rparr>\<rparr>"
    have "walked config F p dep (\<lambda>_. 0) (s, w) (if ok then ?s else ?s\<lparr>visit_failed := True\<rparr>, w')"
      by (rule walked_calls [where cs = "[Visit_called e ok]"])
        (use c s visit e 1 in \<open>auto simp: counted_def refused_def\<close>)
    then show thesis
      using 1 visit a c(1)
      by (intro that [of "if ok then Again reader else Leave" "if ok then ?s else ?s\<lparr>visit_failed := True\<rparr>" w'])
        (auto simp: deliver_entry_def)
  next
    case 2
    obtain ok w1 where a: "ask (config_visit config) Visit_called e w = (ok, w1)" by fastforce
    note c = ask_calls [OF a]
    show thesis
    proof (cases ok)
      case False
      have "walked config F p dep (\<lambda>_. 0) (s, w) (s\<lparr>visit_failed := True\<rparr>, w1)"
        by (rule walked_calls [where cs = "[Visit_called e ok]"])
          (use c s visit e 2 False in \<open>auto simp: counted_def refused_def\<close>)
      then show thesis
        using 2 a False c(1) by (intro that [of Leave "s\<lparr>visit_failed := True\<rparr>" w1]) (auto simp: deliver_entry_def)
    next
      case True
      obtain down w2 where b: "ask (config_should_descend config) Descend_called e w1 = (down, w2)" by fastforce
      note d = ask_calls [OF b]
      have "walked config F p dep (\<lambda>_. 0) (s, w) (s, w2)"
        by (rule walked_calls [where cs = "Visit_called e ok # (if config_should_descend config = None then [] else [Descend_called e down])"])
          (use c d s visit e 2 True in \<open>auto simp: counted_def refused_def\<close>)
      then show thesis
        using 2 a b True c(1) d(1)
        by (intro that [of "if down then Descend reader child (absolute_path_length e) (depth e) else Again reader" s w2])
          (auto simp: deliver_entry_def)
    qed
  next
    case 3
    then show thesis using walked_refl by (intro that [of "Again reader" s w]) (auto simp: deliver_entry_def)
  qed
qed

lemma located_child:
  assumes "name_ok config n" and "length (joined p n) < 4096" and "c = overwrite 0 (joined p n @ [0]) mem"
  shows "located config p dep (walk_entry_of c (of_nat (length (joined p n))) (dep + 1) res)"
proof -
  have "absolute_path (walk_entry_of c (of_nat (length (joined p n))) (dep + 1) res) = joined p n"
    using assms(2) unfolding walk_entry_of_def assms(3) by (simp add: unat_of_nat64 overwrite_def)
  then show ?thesis
    using assms(1,2) unfolding located_def by (auto simp: walk_entry_of_def intro!: exI [of _ "[n]"])
qed

lemma judge_entry_ok:
  assumes s: "\<not> visit_failed s" and visit: "config_visit config \<noteq> None" and loc: "located config p dep e"
  obtains rnd s' w' where "judge_entry config reader child e (s, w) = Some (rnd, s', w')"
    and "walked config F p dep (\<lambda>_. 0) (s, w) (s', w')" and "trace w' = trace w"
    and "rnd = Leave \<or> rnd = Again reader \<or> rnd = Descend reader child (absolute_path_length e) (depth e)"
proof -
  obtain ok w1 where a: "ask (config_filter config) Filter_called e w = (ok, w1)" by fastforce
  note c = ask_calls [OF a]
  show thesis
  proof (cases ok)
    case False
    let ?s = "s\<lparr>state_stats := (state_stats s)\<lparr>files_skipped := files_skipped (state_stats s) + 1\<rparr>\<rparr>"
    have "config_filter config \<noteq> None" using False c(3) by auto
    then have "walked config F p dep (\<lambda>_. 0) (s, w) (?s, w1)"
      by (intro walked_calls [where cs = "[Filter_called e ok]"]) (use c s False loc in \<open>auto simp: counted_def refused_def\<close>)
    then show thesis using a False c(1) by (intro that [of "Again reader" ?s w1]) (auto simp: judge_entry_def)
  next
    case True
    have w1: "walked config F p dep (\<lambda>_. 0) (s, w) (s, w1)"
      by (rule walked_calls [where cs = "if config_filter config = None then [] else [Filter_called e ok]"])
        (use c s True loc in \<open>auto simp: counted_def refused_def\<close>)
    from deliver_entry_ok [OF s visit loc, of reader child w1 F] obtain rnd s' w' where
      dl: "deliver_entry config reader child e (s, w1) = Some (rnd, s', w')" "walked config F p dep (\<lambda>_. 0) (s, w1) (s', w')"
        "trace w' = trace w1" "rnd = Leave \<or> rnd = Again reader \<or> rnd = Descend reader child (absolute_path_length e) (depth e)"
      by metis
    then show thesis
      using a True c(1) walked_trans [OF w1 dl(2)] by (intro that [of rnd s' w']) (auto simp: judge_entry_def)
  qed
qed

text \<open>The part of a round after the reader handed out the record \<open>d\<close>, in terms of the name and the path.\<close>

lemma handle_entry_eq:
  assumes core: "bc_core_ok env" and dir: "holds_path buf len p" and e: "entry_is r e d"
    and q: "q = joined p (dirent_name d)" and c: "c = overwrite 0 (q @ [0]) (fresh_memory env (trace w) BC_IO_MAX_PATH_LENGTH)"
  shows "handle_entry env config fd buf len dep r e (s, w) =
    (if hd (dirent_name d) = 0x2E \<and> \<not> config_include_hidden config then Some (Again r, s, w)
     else if \<not> length q < 4096
     then Some (Again r, bc_io_walk_sequential_report_error config p ''path-too-long'' ENAMETOOLONG (s, w))
     else (case resolve_entry env (config_follow_symlinks config) fd (dirent_type d) (dirent_name d) w of
        (None, w) \<Rightarrow> Some (Again r, bc_io_walk_sequential_report_error config q ''stat'' (errno w) (s, w))
      | (Some res, w) \<Rightarrow> judge_entry config r c (walk_entry_of c (of_nat (length q)) (dep + 1) res) (s, w)))"
proof -
  note b = entry_isD [OF e]
  have t: "entry_d_type e = dirent_type d" "dirent_ok d" using e by (simp_all add: entry_is_def)
  have "c_text c 0 = q" if "length q < 4096"
    using child_holds_path [OF dir t(2)] that q c holds_pathD(2) by blast
  then show ?thesis
    unfolding handle_entry_def prod.case b(4) t(1) c_text_def [of "reader_buffer r"] b(5) child_path [OF core dir e, of "trace w"]
    using holds_pathD(2) [OF dir] by (auto simp: q c split: prod.splits option.splits)
qed

lemma handle_entry_ok:
  assumes core: "bc_core_ok env" and s: "\<not> visit_failed s" and visit: "config_visit config \<noteq> None"
    and dir: "holds_path buf len p" and e: "entry_is r e d" "\<not> dot_entry d"
  obtains rnd s' w' where "handle_entry env config fd buf len dep r e (s, w) = Some (rnd, s', w')"
    and "walked config F p dep (\<lambda>_. 0) (s, w) (s', w')" and "\<And>fd. listing fd (trace w') = listing fd (trace w)"
    and "rnd = Leave \<or> rnd = Again r \<or>
      (\<exists>n child clen. rnd = Descend r child clen (dep + 1) \<and> name_ok config n \<and> holds_path child clen (joined p n))"
proof -
  let ?n = "dirent_name d"
  let ?q = "joined p ?n"
  let ?c = "overwrite 0 (?q @ [0]) (fresh_memory env (trace w) BC_IO_MAX_PATH_LENGTH)" and ?l = "of_nat (length ?q) :: size_t"
  have ok: "dirent_ok d" using e(1) by (simp add: entry_is_def)
  note he = handle_entry_eq [where w = w and config = config and fd = fd and dep = dep and s = s, OF core dir e(1) refl refl]
  consider (hidden) "hd ?n = 0x2E \<and> \<not> config_include_hidden config"
    | (long) "hd ?n = 0x2E \<longrightarrow> config_include_hidden config" "\<not> length ?q < 4096"
    | (fits) "hd ?n = 0x2E \<longrightarrow> config_include_hidden config" "length ?q < 4096" by blast
  then show thesis
  proof cases
    case hidden
    then show thesis using he walked_refl by (intro that [of "Again r" s w]) auto
  next
    case long
    obtain s' w' where re: "bc_io_walk_sequential_report_error config (foldl joined p []) ''path-too-long'' ENAMETOOLONG (s, w) = (s', w')"
      by fastforce
    show thesis
      using he long re report_error_walked [OF re s] by (intro that [of "Again r" s' w']) auto
  next
    case fits
    have n: "name_ok config ?n" using fits(1) dirent_okD(1,2) [OF ok] e(2) by (auto simp: name_ok_def dot_entry_def)
    have hp: "holds_path ?c ?l ?q" using child_holds_path [OF dir ok fits(2)] .
    obtain res w1 where r: "resolve_entry env (config_follow_symlinks config) fd (dirent_type d) ?n w = (res, w1)" by fastforce
    note so = resolve_entry_stats_only [OF r]
    have l1: "listing fd (trace w1) = listing fd (trace w)" for fd
      using so fstatat_effect(2) by (auto simp: stats_only_def listing_append)
    note w1 = walked_stats_only [OF so, of config F p dep s]
    show thesis
    proof (cases res)
      case None
      obtain s' w' where re: "bc_io_walk_sequential_report_error config (foldl joined p [?n]) ''stat'' (errno w1) (s, w1) = (s', w')"
        by fastforce
      note rw = report_error_walked [OF re s]
      show thesis
        using he fits None r re rw(2) walked_trans [OF w1 rw(1)] n l1 by (intro that [of "Again r" s' w']) auto
    next
      case (Some res')
      let ?e = "walk_entry_of ?c ?l (dep + 1) res'"
      have "located config p dep ?e" by (rule located_child [OF n fits(2) refl])
      from judge_entry_ok [OF s visit this, of r ?c w1 F] obtain rnd s' w' where
        j: "judge_entry config r ?c ?e (s, w1) = Some (rnd, s', w')" "walked config F p dep (\<lambda>_. 0) (s, w1) (s', w')"
          "trace w' = trace w1" "rnd = Leave \<or> rnd = Again r \<or> rnd = Descend r ?c (absolute_path_length ?e) (depth ?e)" by metis
      then show thesis
        using he fits Some r walked_trans [OF w1 j(2)] l1 n hp
        by (intro that [of rnd s' w']) (auto simp: walk_entry_of_def)
    qed
  qed
qed

text \<open>What the next round may rely on.\<close>

definition round_ok :: "bc_io_walk_config \<Rightarrow> nat \<Rightarrow> int \<Rightarrow> bytes \<Rightarrow> size_t \<Rightarrow> nat \<Rightarrow> walk_round \<Rightarrow> 'w walk_world_scheme \<Rightarrow> bool" where
  "round_ok config B fd p dep n rnd w \<longleftrightarrow>
     (case rnd of
        Leave \<Rightarrow> True
      | Again r \<Rightarrow> reader_dir_fd r = fd \<and> (\<exists>m < n. reads_left B r w m)
      | Descend r child clen cdep \<Rightarrow> reader_dir_fd r = fd \<and> (\<exists>m < n. reads_left B r w m) \<and> cdep = dep + 1 \<and>
          (\<exists>nm. name_ok config nm \<and> holds_path child clen (joined p nm)))"

lemma reads_left_cong:
  "listing (reader_dir_fd r) (trace w') = listing (reader_dir_fd r) (trace w) \<Longrightarrow> reads_left B r w' n = reads_left B r w n"
  by (simp add: reads_left_def)

lemma read_round_ok:
  assumes core: "bc_core_ok env" and wf: "getdents_wellformed env" and bounded: "listings_bounded B env"
    and visit: "config_visit config \<noteq> None" and dir: "holds_path buf len p" and left: "reads_left B r w n" and fd: "reader_dir_fd r = fd"
  obtains rnd s' w' where "read_round env config fd buf len dep r (s, w) = Some (rnd, s', w')"
    and "walked config {fd} p dep (\<lambda>_. 0) (s, w) (s', w')" and "round_ok config B fd p dep n rnd w'"
proof (cases "visit_failed s")
  case True
  then show thesis using walked_refl by (intro that [of Leave s w]) (auto simp: read_round_def round_ok_def)
next
  case s: False
  obtain stop w1 where st: "bc_io_walk_sequential_should_stop config w = (stop, w1)" by fastforce
  note sw = should_stop_walked [OF st s]
  show thesis
  proof (cases stop)
    case True
    then show thesis
      using s st sw(1) by (intro that [of Leave s w1]) (auto simp: read_round_def round_ok_def)
  next
    case go: False
    have "reads_left B r w1 n" using left sw(2) by (simp add: reads_left_def)
    from next_total [OF core wf bounded this] obtain res r2 w2 m where
      n: "bc_io_dirent_reader_next env r w1 = Some (res, r2, w2)" "reads_left B r2 w2 m"
        "\<And>e. res = Next_entry e \<Longrightarrow> m < n \<and> (\<exists>d. entry_is r2 e d \<and> \<not> dot_entry d)" by blast
    have f: "reader_dir_fd r2 = fd" "lists_only fd w1 w2" using next_frame [OF n(1)] fd by (simp_all add: reader_frame_def)
    have w2: "walked config {fd} p dep (\<lambda>_. 0) (s, w) (s, w2)"
      using walked_trans [OF sw(1) walked_lists_only [OF f(2)]] by simp
    have rr: "read_round env config fd buf len dep r (s, w) =
      (case res of
         Next_failed \<Rightarrow> Some (Leave, bc_io_walk_sequential_report_error config p ''getdents64'' (bc_io_dirent_reader_last_errno r2) (s, w2))
       | Next_end \<Rightarrow> Some (Leave, s, w2)
       | Next_entry e \<Rightarrow> handle_entry env config fd buf len dep r2 e (s, w2))"
      using s st go n(1) holds_pathD(2) [OF dir] by (simp add: read_round_def split: next_result.split)
    show thesis
    proof (cases res)
      case Next_failed
      obtain s' w' where re: "bc_io_walk_sequential_report_error config (foldl joined p []) ''getdents64''
          (bc_io_dirent_reader_last_errno r2) (s, w2) = (s', w')" by fastforce
      show thesis
        using rr Next_failed re walked_trans [OF w2 report_error_walked(1) [OF re s]]
        by (intro that [of Leave s' w']) (auto simp: round_ok_def)
    next
      case Next_end
      then show thesis using rr w2 by (intro that [of Leave s w2]) (auto simp: round_ok_def)
    next
      case (Next_entry e)
      obtain d where d: "entry_is r2 e d" "\<not> dot_entry d" and m: "m < n" using n(3) [OF Next_entry] by blast
      from handle_entry_ok [OF core s visit dir d, of fd dep w2 "{fd}"] obtain rnd s' w' where
        h: "handle_entry env config fd buf len dep r2 e (s, w2) = Some (rnd, s', w')"
          "walked config {fd} p dep (\<lambda>_. 0) (s, w2) (s', w')" "\<And>fd. listing fd (trace w') = listing fd (trace w2)"
          "rnd = Leave \<or> rnd = Again r2 \<or>
            (\<exists>n child clen. rnd = Descend r2 child clen (dep + 1) \<and> name_ok config n \<and> holds_path child clen (joined p n))"
        by metis
      have "reads_left B r2 w' m" using n(2) reads_left_cong [OF h(3)] by simp
      then have "round_ok config B fd p dep n rnd w'" using h(4) f(1) m by (auto simp: round_ok_def)
      then show thesis
        using rr Next_entry h(1) walked_trans [OF w2 h(2)] by (intro that [of rnd s' w']) auto
    qed
  qed
qed

section \<open>The recursion\<close>

definition held :: "int \<Rightarrow> addr \<Rightarrow> resource \<Rightarrow> int" where
  "held fd block r = of_bool (r = Descriptor fd) + of_bool (r = Block block)"

lemma walked_mono: "walked config {} p dep D sw sw' \<Longrightarrow> walked config F p dep D sw sw'"
  by (fastforce simp: walked_def untouched_def split: prod.splits)

lemma walked_own:
  assumes "walked config {fd} p dep D (s, w) sw'" and "listing fd (trace w) = None"
  shows "walked config {} p dep D (s, w) sw'"
proof -
  have "untouched {fd} (trace w) h \<Longrightarrow> untouched {} (trace w) h" for h
    using assms(2) unfolding untouched_def by (metis insertE empty_iff)
  then show ?thesis using assms(1) by (fastforce simp: walked_def split: prod.splits)
qed

lemma walked_cong: "walked config F p dep D sw sw' \<Longrightarrow> (\<And>r. D r = D' r) \<Longrightarrow> walked config F p dep D' sw sw'"
  by (simp add: walked_def)

lemma walked_leave:
  "walked config {fd} p dep (\<lambda>r. - held fd (reader_self r0) r) (s, w)
     (s, sys_close env fd (bc_io_dirent_reader_destroy ctx (Some r0) w))"
proof -
  let ?h = "[Ev_pool_free ctx (reader_self r0), Ev_close fd (env_close env (trace w @ [Ev_pool_free ctx (reader_self r0)]) fd)]"
  have "untouched {fd} (trace w) (trace w @ ?h)" by (auto simp: untouched_def listing_append)
  then show ?thesis
    unfolding walked_def prod.case
    by (intro exI [of _ ?h] exI [of _ "[]"])
      (auto simp: bc_io_dirent_reader_destroy_def pool_free_def sys_close_def held_def counted_def refused_def)
qed

lemma walked_open:
  assumes "sys_open env p flags 0 w = (fd, w')" and "\<not> visit_failed s"
  shows "fd < 0 \<Longrightarrow> walked config F p dep (\<lambda>_. 0) (s, w) (s, w')"
    and "fd \<ge> 0 \<Longrightarrow> descriptors_fresh env \<Longrightarrow>
      walked config F p dep (\<lambda>r. of_bool (r = Descriptor fd)) (s, w)
        (s\<lparr>state_stats := (state_stats s)\<lparr>directories_visited := directories_visited (state_stats s) + 1\<rparr>\<rparr>, w')"
    and "fd \<ge> 0 \<Longrightarrow> descriptors_fresh env \<Longrightarrow> listing fd (trace w') = Some (p, 0) \<and> listing fd (trace w) = None"
proof -
  let ?a = "env_open env (trace w) p flags 0"
  have w': "trace w' = trace w @ [Ev_open p flags 0 ?a]" "walk_calls w' = walk_calls w" "fd = (case ?a of Inl _ \<Rightarrow> -1 | Inr fd \<Rightarrow> int fd)"
    using assms(1) by (auto simp: sys_open_def Let_def answer_def split: sum.splits)
  show "walked config F p dep (\<lambda>_. 0) (s, w) (s, w')" if "fd < 0"
    using that w' assms(2) unfolding walked_def prod.case
    by (intro exI [of _ "[Ev_open p flags 0 ?a]"] exI [of _ "[]"])
      (auto simp: untouched_def counted_def refused_def split: sum.splits)
  assume fd: "fd \<ge> 0" and fresh: "descriptors_fresh env"
  then obtain k where k: "?a = Inr k" "fd = int k" using w'(3) by (auto split: sum.splits)
  have none: "listing fd (trace w) = None" using fresh k by (auto simp: descriptors_fresh_def)
  then show "listing fd (trace w') = Some (p, 0) \<and> listing fd (trace w) = None" using w'(1) k by simp
  have "untouched F (trace w) (trace w')" using w'(1) k none by (auto simp: untouched_def)
  then show "walked config F p dep (\<lambda>r. of_bool (r = Descriptor fd)) (s, w)
      (s\<lparr>state_stats := (state_stats s)\<lparr>directories_visited := directories_visited (state_stats s) + 1\<rparr>\<rparr>, w')"
    using w' k assms(2) unfolding walked_def prod.case
    by (intro exI [of _ "[Ev_open p flags 0 ?a]"] exI [of _ "[]"]) (auto simp: counted_def refused_def)
qed

lemma walked_create:
  assumes "bc_io_dirent_reader_create env ctx fd w = (res, w')"
  shows "walked config F p dep (\<lambda>r. case res of None \<Rightarrow> 0 | Some r0 \<Rightarrow> of_bool (r = Block (reader_self r0))) (s, w) (s, w')"
    and "listing f (trace w') = listing f (trace w)"
    and "res = Some r0 \<Longrightarrow> reader_dir_fd r0 = fd \<and> buffered r0 []"
proof -
  let ?a = "env_pool_allocate env (trace w) ctx sizeof_bc_io_dirent_reader"
  have w': "trace w' = trace w @ [Ev_pool_allocate ctx sizeof_bc_io_dirent_reader ?a]" "walk_calls w' = walk_calls w"
    "case res of None \<Rightarrow> \<exists>e. ?a = Inl e | Some r0 \<Rightarrow> ?a = Inr (reader_self r0)"
    using assms by (auto simp: bc_io_dirent_reader_create_def pool_allocate_def answer_def split: sum.splits)
  show "walked config F p dep (\<lambda>r. case res of None \<Rightarrow> 0 | Some r0 \<Rightarrow> of_bool (r = Block (reader_self r0))) (s, w) (s, w')"
    using w' unfolding walked_def prod.case
    by (intro exI [of _ "[Ev_pool_allocate ctx sizeof_bc_io_dirent_reader ?a]"] exI [of _ "[]"])
      (auto simp: untouched_def counted_def refused_def split: option.splits)
  show "listing f (trace w') = listing f (trace w)" using w'(1) by simp
  show "reader_dir_fd r0 = fd \<and> buffered r0 []" if "res = Some r0"
    using assms that
    by (auto simp: bc_io_dirent_reader_create_def pool_allocate_def answer_def buffered_def BC_IO_DIRENT_READER_BUFFER_SIZE_def
        split: sum.splits)
qed

lemma walked_close:
  "walked config {fd} p dep (\<lambda>r. - of_bool (r = Descriptor fd)) (s, w) (s, sys_close env fd w)"
proof -
  let ?h = "[Ev_close fd (env_close env (trace w) fd)]"
  have "untouched {fd} (trace w) (trace w @ ?h)" by (auto simp: untouched_def)
  then show ?thesis
    unfolding walked_def prod.case
    by (intro exI [of _ ?h] exI [of _ "[]"]) (auto simp: sys_close_def counted_def refused_def)
qed

definition count_directory :: "bc_io_walk_sequential_state \<Rightarrow> bc_io_walk_sequential_state" where
  "count_directory s = s\<lparr>state_stats := (state_stats s)\<lparr>directories_visited := directories_visited (state_stats s) + 1\<rparr>\<rparr>"

definition directory_flags :: "bc_io_walk_config \<Rightarrow> u32" where
  "directory_flags config = (if \<not> config_follow_symlinks config then (O_RDONLY OR O_DIRECTORY OR O_CLOEXEC) OR O_NOFOLLOW
     else O_RDONLY OR O_DIRECTORY OR O_CLOEXEC)"

lemma enter_directory_eq:
  assumes "c_text buf 0 = p" and "bc_io_walk_sequential_should_stop config w = (stop, w1)"
    and "sys_open env p (directory_flags config) 0 w1 = (fd, w2)"
    and "bc_io_dirent_reader_create env (config_main_memory_context config) fd w2 = (cr, w3)"
  shows "enter_directory env config buf (s, w) =
    (if visit_failed s then (None, s, w) else if stop then (None, s, w1)
     else if fd < 0 then (None, bc_io_walk_sequential_report_error config (foldl joined p []) ''open'' (errno w2) (s, w2))
     else case cr of
       None \<Rightarrow> (case bc_io_walk_sequential_report_error config (foldl joined p []) ''dirent-reader-alloc'' ENOMEM (count_directory s, w3) of
                 (s, w) \<Rightarrow> (None, s, sys_close env fd w))
     | Some r0 \<Rightarrow> (Some (fd, r0), count_directory s, w3))"
  using assms by (auto simp: enter_directory_def count_directory_def directory_flags_def Let_def split: option.splits prod.splits)

lemma enter_directory_none:
  assumes fresh: "descriptors_fresh env" and dir: "holds_path buf len p"
    and en: "enter_directory env config buf (s, w) = (None, s', w')"
  shows "walked config {} p dep (\<lambda>_. 0) (s, w) (s', w')"
proof -
  obtain stop w1 where st: "bc_io_walk_sequential_should_stop config w = (stop, w1)" by fastforce
  obtain fd w2 where op: "sys_open env p (directory_flags config) 0 w1 = (fd, w2)" by fastforce
  obtain cr w3 where cr: "bc_io_dirent_reader_create env (config_main_memory_context config) fd w2 = (cr, w3)" by fastforce
  note eq = enter_directory_eq [OF holds_pathD(2) [OF dir] st op cr, of s]
  consider "visit_failed s" | "\<not> visit_failed s" "stop" | "\<not> visit_failed s" "\<not> stop" "fd < 0"
    | "\<not> visit_failed s" "\<not> stop" "fd \<ge> 0" "cr = None" using en eq by (auto split: if_splits option.splits)
  then show ?thesis
  proof cases
    case 1 then show ?thesis using en eq walked_refl by auto
  next
    case 2 then show ?thesis using en eq should_stop_walked(1) [OF st] by auto
  next
    case 3
    then have re: "bc_io_walk_sequential_report_error config (foldl joined p []) ''open'' (errno w2) (s, w2) = (s', w')"
      using en eq by simp
    show ?thesis
      using walked_trans [OF should_stop_walked(1) [OF st 3(1)]
          walked_trans [OF walked_open(1) [OF op 3(1,3)] report_error_walked(1) [OF re 3(1)]]] by simp
  next
    case 4
    obtain w4 where re: "bc_io_walk_sequential_report_error config (foldl joined p []) ''dirent-reader-alloc'' ENOMEM
        (count_directory s, w3) = (s', w4)" and w': "w' = sys_close env fd w4"
      using en eq 4 by (auto split: prod.splits)
    have s: "\<not> visit_failed (count_directory s)" using 4(1) by (simp add: count_directory_def)
    have "walked config {fd} p dep (\<lambda>_. 0) (s, w1) (s', w')"
      using walked_trans [OF walked_open(2) [OF op 4(1,3) fresh] walked_trans [OF walked_create(1) [OF cr]
          walked_trans [OF report_error_walked(1) [OF re s, unfolded count_directory_def] walked_close [where fd = fd and env = env]]]]
      by (simp add: 4(4) w')
    then have "walked config {} p dep (\<lambda>_. 0) (s, w1) (s', w')"
      using walked_own walked_open(3) [OF op 4(1,3) fresh] by blast
    then show ?thesis using walked_trans [OF should_stop_walked(1) [OF st 4(1)]] by fastforce
  qed
qed

lemma enter_directory_some:
  assumes fresh: "descriptors_fresh env" and dir: "holds_path buf len p"
    and en: "enter_directory env config buf (s, w) = (Some (fd, r0), s', w')"
  shows "walked config {} p dep (held fd (reader_self r0)) (s, w) (s', w')" and "reader_dir_fd r0 = fd"
    and "reads_left B r0 w' (B * 8193)" and "listing fd (trace w) = None" and "listing fd (trace w') = Some (p, 0)" and "buffered r0 []"
proof -
  obtain stop w1 where st: "bc_io_walk_sequential_should_stop config w = (stop, w1)" by fastforce
  obtain fd1 w2 where op: "sys_open env p (directory_flags config) 0 w1 = (fd1, w2)" by fastforce
  obtain cr w3 where cr: "bc_io_dirent_reader_create env (config_main_memory_context config) fd1 w2 = (cr, w3)" by fastforce
  note eq = enter_directory_eq [OF holds_pathD(2) [OF dir] st op cr, of s]
  have i: "\<not> visit_failed s" "fd1 \<ge> 0" "cr = Some r0" "fd = fd1" "s' = count_directory s" "w' = w3"
    using en eq by (auto split: if_splits option.splits prod.splits)
  note o = walked_open(3) [OF op i(1,2) fresh]
  show "walked config {} p dep (held fd (reader_self r0)) (s, w) (s', w')"
    using walked_trans [OF should_stop_walked(1) [OF st i(1)] walked_trans [OF walked_open(2) [OF op i(1,2) fresh]
          walked_create(1) [OF cr]]] i by (auto simp: held_def [abs_def] count_directory_def)
  show "reader_dir_fd r0 = fd" "buffered r0 []" using walked_create(3) [OF cr] i by auto
  show "listing fd (trace w') = Some (p, 0)" using o walked_create(2) [OF cr] i by simp
  then show "reads_left B r0 w' (B * 8193)"
    using walked_create(3) [OF cr] i by (fastforce simp: reads_left_def)
  show "listing fd (trace w) = None" using o should_stop_walked(2) [OF st i(1)] i by simp
qed

lemma read_loop_ok:
  assumes core: "bc_core_ok env" and wf: "getdents_wellformed env" and bounded: "listings_bounded B env"
    and visit: "config_visit config \<noteq> None" and dir: "holds_path buf len p" and left: "reads_left B r (w :: 'w walk_world_scheme) n" and fd: "reader_dir_fd r = fd"
    and deeper: "\<And>child clen nm (sw :: 'w walking). holds_path child clen (joined p nm) \<Longrightarrow>
      \<exists>sw'. walk_run env config (Enter child clen (dep + 1)) sw = Some sw' \<and> walked config {} (joined p nm) (dep + 1) (\<lambda>_. 0) sw sw'"
  shows "\<exists>sw'. walk_run env config (Read fd r buf len dep) (s, w) = Some sw' \<and> walked config {fd} p dep (\<lambda>_. 0) (s, w) sw'"
  using left fd
proof (induction n arbitrary: r s w rule: less_induct)
  case (less n)
  from read_round_ok [OF core wf bounded visit dir less.prems, of dep s] obtain rnd s1 w1 where
    rr: "read_round env config fd buf len dep r (s, w) = Some (rnd, s1, w1)" "walked config {fd} p dep (\<lambda>_. 0) (s, w) (s1, w1)"
      "round_ok config B fd p dep n rnd w1" by metis
  note run = walk_run.simps [of env config "Read fd r buf len dep"]
  show ?case
  proof (cases rnd)
    case Leave
    then show ?thesis using rr(1,2) by (simp add: run)
  next
    case (Again r')
    then obtain m where m: "m < n" "reads_left B r' w1 m" "reader_dir_fd r' = fd" using rr(3) by (auto simp: round_ok_def)
    from less.IH [OF m] obtain sw' where "walk_run env config (Read fd r' buf len dep) (s1, w1) = Some sw'"
      "walked config {fd} p dep (\<lambda>_. 0) (s1, w1) sw'" by blast
    then show ?thesis using rr(1) Again walked_trans [OF rr(2)] by (fastforce simp: run)
  next
    case (Descend r' child clen cdep)
    then obtain m nm where m: "m < n" "reads_left B r' w1 m" "reader_dir_fd r' = fd" and c: "cdep = dep + 1"
      "name_ok config nm" "holds_path child clen (joined p nm)" using rr(3) by (auto simp: round_ok_def)
    from deeper [OF c(3), of "(s1, w1)"] obtain s2 w2 where
      e: "walk_run env config (Enter child clen (dep + 1)) (s1, w1) = Some (s2, w2)"
        "walked config {} (joined p nm) (dep + 1) (\<lambda>_. 0) (s1, w1) (s2, w2)" by (metis surj_pair)
    have "listing fd (trace w1) \<noteq> None" using m(2,3) by (auto simp: reads_left_def)
    then have "listing fd (trace w2) = listing fd (trace w1)" using e(2) unfolding walked_def untouched_def by blast
    then have "reads_left B r' w2 m" using m(2,3) reads_left_cong by blast
    from less.IH [OF m(1) this m(3), of s2] obtain sw' where "walk_run env config (Read fd r' buf len dep) (s2, w2) = Some sw'"
      "walked config {fd} p dep (\<lambda>_. 0) (s2, w2) sw'" by blast
    then show ?thesis
      using rr(1) Descend c(1) e(1) walked_trans [OF rr(2) walked_trans [OF walked_child [OF e(2) c(2)]]]
      by (fastforce simp: run)
  qed
qed

lemma walk_run_ok:
  assumes core: "bc_core_ok env" and wf: "getdents_wellformed env" and bounded: "listings_bounded B env"
    and fresh: "descriptors_fresh env" and visit: "config_visit config \<noteq> None" and dir: "holds_path buf len p"
  shows "\<exists>sw'. walk_run env config (Enter buf len dep) (sw :: 'w walking) = Some sw' \<and> walked config {} p dep (\<lambda>_. 0) sw sw'"
  using dir
proof (induction "4096 - length p" arbitrary: p buf len dep sw rule: less_induct)
  case less
  obtain s w where sw: "sw = (s, w)" by fastforce
  obtain res s1 w1 where en: "enter_directory env config buf (s, w) = (res, s1, w1)" by (metis surj_pair)
  note run = walk_run.simps [of env config "Enter buf len dep"]
  show ?case
  proof (cases res)
    case None
    then show ?thesis using enter_directory_none [OF fresh less.prems] en by (simp add: run sw)
  next
    case (Some x)
    then obtain fd r0 where x: "res = Some (fd, r0)" by (cases x) auto
    note e = enter_directory_some [OF fresh less.prems en [unfolded x]]
    have deeper: "\<exists>sw'. walk_run env config (Enter child clen (dep + 1)) (sw :: 'w walking) = Some sw' \<and>
        walked config {} (joined p nm) (dep + 1) (\<lambda>_. 0) sw sw'" if "holds_path child clen (joined p nm)" for child clen nm sw
    proof (rule less.hyps [OF _ that])
      show "4096 - length (joined p nm) < 4096 - length p"
        using that less.prems joined_longer [of p nm] by (auto simp: holds_path_def)
    qed
    from read_loop_ok [OF core wf bounded visit less.prems e(3) [where B = B] e(2) deeper, of s1] obtain s2 w2 where
      l: "walk_run env config (Read fd r0 buf len dep) (s1, w1) = Some (s2, w2)" "walked config {fd} p dep (\<lambda>_. 0) (s1, w1) (s2, w2)"
      by (metis surj_pair)
    let ?w = "sys_close env fd (bc_io_dirent_reader_destroy (config_main_memory_context config) (Some r0) w2)"
    have "walked config {fd} p dep (\<lambda>_. 0) (s, w) (s2, ?w)"
      using walked_trans [OF walked_mono [OF e(1)] walked_trans [OF l(2)
          walked_leave [of config fd p dep r0 s2 w2 env "config_main_memory_context config"]]] by simp
    then show ?thesis using walked_own e(4) l(1) x en by (fastforce simp: run sw)
  qed
qed

text \<open>The first thing a walk does is to ask whether to stop, and then to open its directory.\<close>

definition told_to_stop :: "bc_io_walk_config \<Rightarrow> 'w walk_world_scheme \<Rightarrow> bool" where
  "told_to_stop config w \<longleftrightarrow> (case config_should_stop_check config of None \<Rightarrow> False | Some f \<Rightarrow> f (trace w) (walk_calls w))"

lemma walk_run_begins:
  assumes core: "bc_core_ok env" and wf: "getdents_wellformed env" and bounded: "listings_bounded B env"
    and fresh: "descriptors_fresh env" and visit: "config_visit config \<noteq> None" and dir: "holds_path buf len p"
    and run: "walk_run env config (Enter buf len dep) (s, w) = Some (s', w')" and s: "\<not> visit_failed s"
  shows "if told_to_stop config w then trace w' = trace w
    else \<exists>h. trace w' = trace w @ Ev_open p (directory_flags config) 0 (env_open env (trace w) p (directory_flags config) 0) # h"
proof -
  obtain stop w1 where st: "bc_io_walk_sequential_should_stop config w = (stop, w1)" by fastforce
  obtain fd w2 where op: "sys_open env p (directory_flags config) 0 w1 = (fd, w2)" by fastforce
  obtain cr w3 where cr: "bc_io_dirent_reader_create env (config_main_memory_context config) fd w2 = (cr, w3)" by fastforce
  note eq = enter_directory_eq [OF holds_pathD(2) [OF dir] st op cr, of s]
  note run = run [unfolded walk_run.simps [of env config "Enter buf len dep"], simplified]
  have stop: "stop = told_to_stop config w" "trace w1 = trace w"
    using st by (auto simp: bc_io_walk_sequential_should_stop_def told_to_stop_def Let_def split: option.splits)
  have w2: "trace w2 = trace w @ [Ev_open p (directory_flags config) 0 (env_open env (trace w) p (directory_flags config) 0)]"
    using op stop(2) by (auto simp: sys_open_def answer_def Let_def split: sum.splits)
  have w3: "\<exists>h. trace w3 = trace w2 @ h" using cr by (auto simp: bc_io_dirent_reader_create_def pool_allocate_def answer_def split: sum.splits prod.splits)
  have after: "\<exists>h. trace w' = trace w2 @ h" if "\<not> stop"
  proof (cases "fd \<ge> 0 \<and> cr \<noteq> None")
    case True
    then obtain r0 where r0: "cr = Some r0" by blast
    then have en: "enter_directory env config buf (s, w) = (Some (fd, r0), count_directory s, w3)" using eq s that True by simp
    note e = enter_directory_some [OF fresh dir en]
    from read_loop_ok [OF core wf bounded visit dir e(3) [where B = B] e(2), of dep "count_directory s"]
      walk_run_ok [OF core wf bounded fresh visit] obtain s2 w4 where
      l: "walk_run env config (Read fd r0 buf len dep) (count_directory s, w3) = Some (s2, w4)"
        "walked config {fd} p dep (\<lambda>_. 0) (count_directory s, w3) (s2, w4)" by (metis surj_pair)
    then have "\<exists>h. trace w4 = trace w3 @ h" by (auto simp: walked_def)
    then show ?thesis
      using run en l(1) w3 by (auto simp: bc_io_dirent_reader_destroy_def pool_free_def sys_close_def answer_def Let_def split: sum.splits)
  next
    case False
    then show ?thesis
      using run eq s that w3
      by (auto simp: bc_io_walk_sequential_report_error_def tell_error_def sys_close_def answer_def Let_def split: sum.splits if_splits prod.splits)
  qed
  show ?thesis
  proof (cases stop)
    case True
    then show ?thesis using run eq s stop by auto
  next
    case False
    then show ?thesis using after w2 stop(1) by auto
  qed
qed

lemma load_le_zeros: "load_le (replicate n 0) = 0"
  by (induction n) simp_all

lemma cleared_state_eq:
  "bc_core_ok env \<Longrightarrow> cleared_state env =
     \<lparr>state_stats = \<lparr>files_visited = 0, directories_visited = 0, files_skipped = 0, errors_encountered = 0\<rparr>, visit_failed = False\<rparr>"
  by (simp add: cleared_state_def sizeof_bc_io_walk_sequential_state_def bc_core_okD(3) load_le_zeros Let_def)

text \<open>A configuration the walk accepts, with a terminated root path.\<close>

definition config_ok :: "bc_io_walk_config \<Rightarrow> bytes \<Rightarrow> bool" where
  "config_ok config root \<longleftrightarrow> (\<exists>buf. config_root config = Some buf \<and> holds_path buf (config_root_length config) root) \<and>
     config_visit config \<noteq> None \<and> config_main_memory_context config \<noteq> NULL"

lemma walk_sequential_eq:
  assumes "bc_core_ok env" and "config_ok config root" and "config_root config = Some buf"
  shows "bc_io_walk_sequential env (Some config) w =
    do { (state, w) \<leftarrow> walk_run env config (Enter buf (config_root_length config) 0) (cleared_state env, w);
         Some ((\<not> visit_failed state, Some (state_stats state)), w) }"
proof -
  have "unat (config_root_length config) = length root" "length root < 4096" "root \<noteq> []"
    using assms(2) by (auto simp: config_ok_def holds_path_def)
  then have "config_root_length config \<noteq> 0" "\<not> config_root_length config \<ge> BC_IO_MAX_PATH_LENGTH"
    by (auto simp: BC_IO_MAX_PATH_LENGTH_def word_le_nat_alt)
  then show ?thesis
    using assms(2,3) by (auto simp: bc_io_walk_sequential_def config_ok_def bc_io_walk_sequential_recurse_def)
qed

lemma walk_sequential_run:
  assumes core: "bc_core_ok env" and "getdents_wellformed env" and "listings_bounded B env" and "descriptors_fresh env"
    and ok: "config_ok config root"
  obtains s w' where "bc_io_walk_sequential env (Some config) w = Some ((\<not> visit_failed s, Some (state_stats s)), w')"
    and "walked config {} root 0 (\<lambda>_. 0) (cleared_state env, w) (s, w')"
proof -
  obtain buf where buf: "config_root config = Some buf" "holds_path buf (config_root_length config) root"
    using ok by (auto simp: config_ok_def)
  have "config_visit config \<noteq> None" using ok by (simp add: config_ok_def)
  from walk_run_ok [OF assms(1-4) this buf(2), of 0 "(cleared_state env, w)"] obtain s w' where
    "walk_run env config (Enter buf (config_root_length config) 0) (cleared_state env, w) = Some (s, w')"
    "walked config {} root 0 (\<lambda>_. 0) (cleared_state env, w) (s, w')" by (metis surj_pair)
  then show thesis using walk_sequential_eq [OF core ok buf(1), of w] by (intro that) simp_all
qed

text \<open>The arguments the walk checks, the caller's promise about the root, and how a walk begins.\<close>

definition arguments_ok :: "bc_io_walk_config option \<Rightarrow> bool" where
  "arguments_ok config \<longleftrightarrow> (\<exists>c. config = Some c \<and> config_root c \<noteq> None \<and>
     0 < unat (config_root_length c) \<and> unat (config_root_length c) < 4096 \<and>
     config_visit c \<noteq> None \<and> config_main_memory_context c \<noteq> NULL)"

definition root_terminated :: "bc_io_walk_config option \<Rightarrow> bool" where
  "root_terminated config \<longleftrightarrow> (\<forall>c buf. config = Some c \<and> config_root c = Some buf \<and>
     0 < unat (config_root_length c) \<and> unat (config_root_length c) < 4096 \<longrightarrow> (\<exists>root. holds_path buf (config_root_length c) root))"

definition walk_begins :: "bc_io_walk_config \<Rightarrow> 'w walk_world_scheme \<Rightarrow> 'w walk_world_scheme \<Rightarrow> bool" where
  "walk_begins config w w' \<longleftrightarrow> (\<exists>buf. config_root config = Some buf \<and>
     (if told_to_stop config w then trace w' = trace w
      else \<exists>a h. trace w' = trace w @ Ev_open (c_text buf 0) (directory_flags config) 0 a # h))"

lemma sample_config_ok: "config_ok sample_config [0x72]"
  by (simp add: config_ok_def sample_config_def holds_path_def)

lemmas sample_walk = serving_ok [OF sample_fs_ok] sample_config_ok

section \<open>Properties\<close>

text \<open>
  C9 The sequential walk always returns and leaks nothing: for every configuration it accepts, every
  behaviour of the callbacks, and every kernel and allocator whose directory listings are well formed and
  finite (directories may change, calls may fail, and links may form cycles: paths only grow, and none
  reaches 4096 bytes), the walk ends, and every directory descriptor and every reader it took was given back.
\<close>

theorem walk_sequential_returns:
  assumes "bc_core_ok env" and "getdents_wellformed env" and "listings_bounded B env" and "descriptors_fresh env"
    and "config_ok config root"
  shows "\<exists>ok stats w' h. bc_io_walk_sequential env (Some config) w = Some ((ok, Some stats), w') \<and>
    trace w' = trace w @ h \<and> (\<forall>r. balance h r = 0)"
proof (rule walk_sequential_run [OF assms, of w])
  fix s w'
  assume "bc_io_walk_sequential env (Some config) w = Some ((\<not> visit_failed s, Some (state_stats s)), w')"
    and "walked config {} root 0 (\<lambda>_. 0) (cleared_state env, w) (s, w')"
  then show ?thesis by (auto simp: walked_def)
qed

theorem walk_sequential_returns_witness:
  "\<exists>ok stats w' h. bc_io_walk_sequential (serving sample_fs) (Some sample_config) walk_start = Some ((ok, Some stats), w') \<and>
    trace w' = trace walk_start @ h \<and> (\<forall>r. balance h r = 0)"
  by (rule walk_sequential_returns [OF sample_walk])

text \<open>
  C10 The result and the statistics of the sequential walk say what happened. The walk succeeds exactly when no
  visit returned false; a visit that returns false is the last callback of all. The counters are the
  numbers of visited regular files, of directories opened, of entries the filter rejected, and of reported errors.
\<close>

theorem walk_sequential_accounts:
  assumes "bc_core_ok env" and "getdents_wellformed env" and "listings_bounded B env" and "descriptors_fresh env"
    and "config_ok config root" and "config_on_error config"
    and "bc_io_walk_sequential env (Some config) w = Some ((ok, Some stats), w')"
    and "trace w' = trace w @ h" and "walk_calls w' = walk_calls w @ cs"
  shows "files_visited stats = tally is_file_visit cs \<and> directories_visited stats = tally is_opening h \<and>
    files_skipped stats = tally is_rejection cs \<and> errors_encountered stats = tally is_error_call cs \<and>
    (if ok then filter is_refusal cs = [] else \<exists>cs0 e. cs = cs0 @ [Visit_called e False] \<and> filter is_refusal cs0 = [])"
proof -
  obtain s where s: "ok = (\<not> visit_failed s)" "stats = state_stats s" "walked config {} root 0 (\<lambda>_. 0) (cleared_state env, w) (s, w')"
    using walk_sequential_run [OF assms(1-5), of w] assms(7) by force
  then have "counted config (state_stats (cleared_state env)) h cs (state_stats s)" "refused (cleared_state env) cs s"
    using assms(8,9) by (auto simp: walked_def)
  then show ?thesis using assms(6) by (auto simp: counted_def refused_def cleared_state_eq [OF assms(1)] s)
qed

theorem walk_sequential_accounts_witness:
  "\<exists>ok stats w' h cs. bc_io_walk_sequential (serving sample_fs) (Some sample_config) walk_start = Some ((ok, Some stats), w') \<and>
    trace w' = trace walk_start @ h \<and> walk_calls w' = walk_calls walk_start @ cs \<and>
    files_visited stats = tally is_file_visit cs \<and> errors_encountered stats = tally is_error_call cs"
proof -
  obtain s w' where run: "bc_io_walk_sequential (serving sample_fs) (Some sample_config) walk_start =
      Some ((\<not> visit_failed s, Some (state_stats s)), w')"
    "walked sample_config {} [0x72] 0 (\<lambda>_. 0) (cleared_state (serving sample_fs), walk_start) (s, w')"
    by (rule walk_sequential_run [OF sample_walk])
  then obtain h cs where "trace w' = trace walk_start @ h" "walk_calls w' = walk_calls walk_start @ cs"
    by (auto simp: walked_def)
  with walk_sequential_accounts [OF sample_walk _ run(1) this] run(1) show ?thesis
    by (auto simp: sample_config_def)
qed

text \<open>
  C11 Where the sequential walk goes. Every entry a callback sees lies below the root: its path is the root
  extended by one name per level of its depth, none of them \<^verbatim>\<open>.\<close> or \<^verbatim>\<open>..\<close>, and none hidden unless hidden entries were
  asked for; the path is shorter than 4096 bytes and its recorded length is right. Only files and directories
  are visited, and only directories are candidates for descending.
\<close>

theorem walk_sequential_stays_below:
  assumes "bc_core_ok env" and "getdents_wellformed env" and "listings_bounded B env" and "descriptors_fresh env"
    and "config_ok config root"
    and "bc_io_walk_sequential env (Some config) w = Some (res, w')" and "walk_calls w' = walk_calls w @ cs"
  shows "list_all (call_ok config root 0) cs"
proof -
  obtain s where "walked config {} root 0 (\<lambda>_. 0) (cleared_state env, w) (s, w')"
    using walk_sequential_run [OF assms(1-5), of w] assms(6) by force
  then show ?thesis using assms(7) by (auto simp: walked_def list_all_iff)
qed

theorem walk_sequential_stays_below_witness:
  "\<exists>res w' cs. bc_io_walk_sequential (serving sample_fs) (Some sample_config) walk_start = Some (res, w') \<and>
    walk_calls w' = walk_calls walk_start @ cs \<and> list_all (call_ok sample_config [0x72] 0) cs"
proof -
  obtain s w' where run: "bc_io_walk_sequential (serving sample_fs) (Some sample_config) walk_start =
      Some ((\<not> visit_failed s, Some (state_stats s)), w')"
    "walked sample_config {} [0x72] 0 (\<lambda>_. 0) (cleared_state (serving sample_fs), walk_start) (s, w')"
    by (rule walk_sequential_run [OF sample_walk])
  then obtain cs where "walk_calls w' = walk_calls walk_start @ cs" by (auto simp: walked_def)
  with walk_sequential_stays_below [OF sample_walk run(1) this] run(1) show ?thesis by blast
qed

text \<open>
  C32 Arguments. Without a configuration, a root, a root length from 1 to 4095, a visit callback or a memory
  context, the sequential walk returns false at once: no system call, no callback, and the caller's
  statistics are left alone. In every other case, given that the root is a terminated text of the stated length, the walk starts
  and gives its statistics: unless the caller's check tells it to stop, its first system call opens the root; and it
  returns true exactly when no visit returned false.
\<close>

theorem walk_sequential_arguments:
  assumes "bc_core_ok env" and "getdents_wellformed env" and "listings_bounded B env" and "descriptors_fresh env"
    and "root_terminated config"
  shows "\<exists>ok stats w'. bc_io_walk_sequential env config w = Some ((ok, stats), w') \<and>
    (if arguments_ok config
     then stats \<noteq> None \<and> walk_begins (the config) w w' \<and>
       (\<exists>cs. walk_calls w' = walk_calls w @ cs \<and> (ok \<longleftrightarrow> filter is_refusal cs = []))
     else \<not> ok \<and> stats = None \<and> w' = w)"
proof (cases "arguments_ok config")
  case True
  then obtain c buf root where c: "config = Some c" "config_root c = Some buf" "holds_path buf (config_root_length c) root"
    "config_visit c \<noteq> None" "config_main_memory_context c \<noteq> NULL"
    using assms(5) by (auto simp: arguments_ok_def root_terminated_def)
  then have ok: "config_ok c root" by (simp add: config_ok_def)
  obtain s w' where r: "bc_io_walk_sequential env (Some c) w = Some ((\<not> visit_failed s, Some (state_stats s)), w')"
    "walked c {} root 0 (\<lambda>_. 0) (cleared_state env, w) (s, w')" by (rule walk_sequential_run [OF assms(1-4) ok])
  have "walk_run env c (Enter buf (config_root_length c) 0) (cleared_state env, w) = Some (s, w')"
    using r walk_run_ok [OF assms(1-4) c(4,3), of 0 "(cleared_state env, w)"] walk_sequential_eq [OF assms(1) ok c(2), of w]
    by (auto simp: bc_io_walk_sequential_def)
  then have "walk_begins c w w'"
    using walk_run_begins [OF assms(1-4) c(4,3)] c(2) holds_pathD(2) [OF c(3)] cleared_state_eq [OF assms(1)]
    by (fastforce simp: walk_begins_def)
  moreover obtain cs where "walk_calls w' = walk_calls w @ cs" "refused (cleared_state env) cs s" using r(2) by (auto simp: walked_def)
  then have "walk_calls w' = walk_calls w @ cs \<and> (\<not> visit_failed s \<longleftrightarrow> filter is_refusal cs = [])"
    by (auto simp: refused_def cleared_state_eq [OF assms(1)] split: if_splits)
  ultimately show ?thesis using True r(1) c(1) by auto
next
  case False
  then show ?thesis
    by (auto simp: bc_io_walk_sequential_def arguments_ok_def BC_IO_MAX_PATH_LENGTH_def word_le_nat_alt unat_gt_0 not_le split: option.splits)
qed

theorem walk_sequential_arguments_witness:
  "(\<exists>ok stats w'. bc_io_walk_sequential (serving sample_fs) (Some sample_config) walk_start = Some ((ok, Some stats), w') \<and>
     walk_begins sample_config walk_start w') \<and>
   bc_io_walk_sequential (serving sample_fs) (Some (sample_config\<lparr>config_root_length := 4096\<rparr>)) walk_start =
     Some ((False, None), walk_start)"
proof -
  have ok: "root_terminated (Some sample_config)" using sample_config_ok by (auto simp: root_terminated_def config_ok_def)
  have args: "arguments_ok (Some sample_config)" using sample_config_ok by (auto simp: arguments_ok_def config_ok_def holds_path_def)
  have bad: "root_terminated (Some (sample_config\<lparr>config_root_length := 4096\<rparr>))" "\<not> arguments_ok (Some (sample_config\<lparr>config_root_length := 4096\<rparr>))"
    by (simp_all add: root_terminated_def arguments_ok_def)
  show ?thesis
    using walk_sequential_arguments [OF sample_walk(1-4) ok, of walk_start] args
      walk_sequential_arguments [OF sample_walk(1-4) bad(1), of walk_start] bad(2) by auto
qed

end
