(* ===== verification/IO_Interleave.thy ===== *)
theory IO_Interleave
  imports IO_Prelude
begin

text \<open>
  Threads that share a state and take turns. A thread is a local state; \<open>step i l s\<close> is the next atomic action of
  thread number \<open>i\<close> from its local state \<open>l\<close> in the shared state \<open>s\<close>, and \<open>None\<close> where that action is undefined. The
  theory has the interleavings of a list of threads, the run under a schedule, and three interfaces a program
  can provide: an invariant (\<open>invariant_steps\<close>), a quantity that is only moved between the threads and the shared
  state (\<open>account\<close>), and progress that makes every fair run end (\<open>fair_progress\<close>).
\<close>

section \<open>Interleavings and schedules\<close>

type_synonym ('l, 's) actions = "nat \<Rightarrow> 'l \<Rightarrow> 's \<Rightarrow> ('l \<times> 's) option"

inductive interleaved :: "('l, 's) actions \<Rightarrow> 'l list \<Rightarrow> 's \<Rightarrow> 'l list \<Rightarrow> 's \<Rightarrow> bool" for step :: "('l, 's) actions" and ls0 s0 where
  start: "interleaved step ls0 s0 ls0 s0"
| turn: "interleaved step ls0 s0 ls s \<Longrightarrow> i < length ls \<Longrightarrow> step i (ls ! i) s = Some (l, s') \<Longrightarrow>
    interleaved step ls0 s0 (ls[i := l]) s'"

lemma interleaved_length: "interleaved step ls0 s0 ls s \<Longrightarrow> length ls = length ls0"
  by (induction rule: interleaved.induct) auto

lemma interleaved_trans:
  assumes "interleaved step ls1 s1 ls2 s2" and "interleaved step ls0 s0 ls1 s1"
  shows "interleaved step ls0 s0 ls2 s2"
  using assms by (induction rule: interleaved.induct) (auto intro: interleaved.intros)

text \<open>
  One turn of a run: the schedule names a thread by its number; a number that is out of range or of a thread that
  has finished wastes the turn. The run leaves when all threads have finished, or with \<open>None\<close> at an undefined action.
\<close>

definition take_turn :: "('l, 's) actions \<Rightarrow> ('l \<Rightarrow> bool) \<Rightarrow> (nat \<Rightarrow> nat) \<Rightarrow> nat \<times> 'l list \<times> 's \<Rightarrow>
    nat \<times> 'l list \<times> 's + ('l list \<times> 's) option" where
  "take_turn step finished schedule = (\<lambda>(k, ls, s).
     if list_all finished ls then Inr (Some (ls, s))
     else
       let i = schedule k
       in if i < length ls \<and> \<not> finished (ls ! i)
          then (case step i (ls ! i) s of None \<Rightarrow> Inr None | Some (l, s) \<Rightarrow> Inl (Suc k, ls[i := l], s))
          else Inl (Suc k, ls, s))"

definition run_threads :: "('l, 's) actions \<Rightarrow> ('l \<Rightarrow> bool) \<Rightarrow> (nat \<Rightarrow> nat) \<Rightarrow> nat \<Rightarrow> 'l list \<Rightarrow> 's \<Rightarrow> ('l list \<times> 's) option" where
  "run_threads step finished schedule k ls s =
     do { result \<leftarrow> iterate (take_turn step finished schedule) (k, ls, s); result }"

lemma run_threads_simp:
  "run_threads step finished schedule k ls s =
     (if list_all finished ls then Some (ls, s)
      else if schedule k < length ls \<and> \<not> finished (ls ! schedule k)
      then (case step (schedule k) (ls ! schedule k) s of
              None \<Rightarrow> None
            | Some (l, s) \<Rightarrow> run_threads step finished schedule (Suc k) (ls[schedule k := l]) s)
      else run_threads step finished schedule (Suc k) ls s)"
  unfolding run_threads_def
  by (subst iterate.simps) (simp add: take_turn_def Let_def split: option.split prod.split)

text \<open>A run is an interleaving, and every thread has finished at its end.\<close>

lemma run_threads_interleaved:
  assumes "run_threads step finished schedule k ls s = Some (ls', s')"
  shows "interleaved step ls s ls' s'" and "list_all finished ls'"
proof -
  obtain r where r: "iterate (take_turn step finished schedule) (k, ls, s) = Some r" "r = Some (ls', s')"
    using assms by (auto simp: run_threads_def bind_eq_Some_conv)
  let ?P = "\<lambda>x :: nat \<times> 'a list \<times> 'b. interleaved step ls s (fst (snd x)) (snd (snd x))"
  let ?Q = "\<lambda>r. \<forall>ls' s'. r = Some (ls', s') \<longrightarrow> interleaved step ls s ls' s' \<and> list_all finished ls'"
  have "?Q r"
  proof (rule iterate_partial [OF r(1), where P = ?P and Q = ?Q])
    show "?P (k, ls, s)" by (simp add: interleaved.start)
    show "?P x'" if "?P x" "take_turn step finished schedule x = Inl x'" for x x'
      using that by (cases x) (auto simp: take_turn_def Let_def intro: interleaved.turn split: if_splits option.splits prod.splits)
    show "?Q r" if "?P x" "take_turn step finished schedule x = Inr r" for x r
      using that by (cases x) (auto simp: take_turn_def Let_def split: if_splits option.splits prod.splits)
  qed
  then show "interleaved step ls s ls' s'" and "list_all finished ls'" using r(2) by auto
qed

definition fair :: "nat \<Rightarrow> (nat \<Rightarrow> nat) \<Rightarrow> bool" where
  "fair n schedule \<longleftrightarrow> (\<forall>i < n. \<forall>k. \<exists>k' \<ge> k. schedule k' = i)"

text \<open>Round robin is fair.\<close>

lemma fair_round_robin: "fair n (\<lambda>k. k mod n)"
  unfolding fair_def
proof (intro allI impI)
  fix i k assume "i < n"
  then have "(i + n * k) mod n = i" by simp
  moreover have "k \<le> i + n * k" using \<open>i < n\<close> by (cases n) auto
  ultimately show "\<exists>k' \<ge> k. k' mod n = i" by blast
qed

section \<open>Invariants\<close>

locale invariant_steps =
  fixes step :: "('l, 's) actions" and ok :: "'l list \<Rightarrow> 's \<Rightarrow> bool"
  assumes ok_step: "ok ls s \<Longrightarrow> i < length ls \<Longrightarrow> step i (ls ! i) s = Some (l, s') \<Longrightarrow> ok (ls[i := l]) s'"
begin

lemma ok_interleaved: "interleaved step ls0 s0 ls s \<Longrightarrow> ok ls0 s0 \<Longrightarrow> ok ls s"
  by (induction rule: interleaved.induct) (auto intro: ok_step)

end

section \<open>Accounts\<close>

text \<open>
  \<open>owes l s m\<close>: the thread \<open>l\<close> has the amount \<open>m\<close> open. A step of a thread moves amounts between it and the shared
  \<open>total\<close>, and leaves what the other threads have open alone; then the sum of all is constant.
\<close>

locale account = invariant_steps step ok
  for step :: "('l, 's) actions" and ok :: "'l list \<Rightarrow> 's \<Rightarrow> bool" +
  fixes total :: "'s \<Rightarrow> 'm::comm_monoid_add" and owes :: "'l \<Rightarrow> 's \<Rightarrow> 'm \<Rightarrow> bool"
  assumes settle: "ok ls s \<Longrightarrow> i < length ls \<Longrightarrow> step i (ls ! i) s = Some (l, s') \<Longrightarrow> owes (ls ! i) s m \<Longrightarrow>
      \<exists>m'. owes l s' m' \<and> total s' + m' = total s + m"
    and others: "ok ls s \<Longrightarrow> i < length ls \<Longrightarrow> step i (ls ! i) s = Some (l, s') \<Longrightarrow> j < length ls \<Longrightarrow> j \<noteq> i \<Longrightarrow>
      owes (ls ! j) s m \<Longrightarrow> owes (ls ! j) s' m"
begin

lemma sum_list_update_amount:
  assumes "i < length ms" and "(x :: 'm) + m' = y + ms ! i"
  shows "x + sum_list (ms[i := m']) = y + sum_list ms"
proof -
  obtain as bs where ms: "ms = as @ ms ! i # bs" "length as = i" using id_take_nth_drop [OF assms(1)] by force
  have "ms[i := m'] = as @ m' # bs" by (subst ms(1)) (simp flip: ms(2))
  then have "x + sum_list (ms[i := m']) = (x + m') + (sum_list as + sum_list bs)" by (simp add: ac_simps)
  also have "\<dots> = y + (sum_list as + ms ! i + sum_list bs)" using assms(2) by (simp add: ac_simps)
  also have "sum_list as + ms ! i + sum_list bs = sum_list ms" using arg_cong [OF ms(1), of sum_list] by (simp add: ac_simps)
  finally show ?thesis .
qed

lemma conserved:
  assumes "interleaved step ls0 s0 ls s" and "ok ls0 s0" and "list_all2 (\<lambda>l m. owes l s0 m) ls0 ms0"
  shows "\<exists>ms. list_all2 (\<lambda>l m. owes l s m) ls ms \<and> total s + sum_list ms = total s0 + sum_list ms0"
  using assms
proof (induction rule: interleaved.induct)
  case (turn ls s i l s')
  then obtain ms where ms: "list_all2 (\<lambda>l m. owes l s m) ls ms" "total s + sum_list ms = total s0 + sum_list ms0" by blast
  have ok: "ok ls s" using ok_interleaved turn by blast
  have i: "i < length ms" "owes (ls ! i) s (ms ! i)" using ms(1) turn.hyps(2) by (auto simp: list_all2_conv_all_nth)
  obtain m' where m': "owes l s' m'" "total s' + m' = total s + ms ! i" using settle [OF ok turn.hyps(2,3) i(2)] by blast
  have "list_all2 (\<lambda>l m. owes l s' m) (ls[i := l]) (ms[i := m'])"
    using ms(1) m'(1) others [OF ok turn.hyps(2,3)] turn.hyps(2) by (simp add: list_all2_conv_all_nth nth_list_update)
  moreover have "total s' + sum_list (ms[i := m']) = total s + sum_list ms"
    using sum_list_update_amount i(1) m'(2) by blast
  ultimately show ?case using ms(2) by metis
qed blast

end

text \<open>The case where the open amount is a function of the local state.\<close>

locale exact_account = invariant_steps step ok
  for step :: "('l, 's) actions" and ok :: "'l list \<Rightarrow> 's \<Rightarrow> bool" +
  fixes total :: "'s \<Rightarrow> 'm::comm_monoid_add" and owed :: "'l \<Rightarrow> 'm"
  assumes pays: "ok ls s \<Longrightarrow> i < length ls \<Longrightarrow> step i (ls ! i) s = Some (l, s') \<Longrightarrow> total s' + owed l = total s + owed (ls ! i)"

sublocale exact_account \<subseteq> account step ok total "\<lambda>l s m. m = owed l"
  by unfold_locales (auto dest: pays)

context exact_account
begin

lemma settled:
  assumes "interleaved step ls0 s0 ls s" and "ok ls0 s0"
  shows "total s + sum_list (map owed ls) = total s0 + sum_list (map owed ls0)"
proof -
  have "ms = map owed xs" if "list_all2 (\<lambda>l m. m = owed l) xs ms" for xs ms
    using that by (induction rule: list_all2_induct) auto
  then show ?thesis using conserved [OF assms, of "map owed ls0"] by (auto simp: list_all2_conv_all_nth)
qed

end

section \<open>Fair runs end\<close>

text \<open>
  \<open>load l s\<close> bounds the work a thread still has to do itself, \<open>backlog s\<close> the work that waits in the shared state. A step
  of a busy thread reduces their sum. A thread that is \<open>idle\<close> looks for work: its step reduces the sum too, or leaves it
  as it is; the latter may go on while other threads are busy, but once all are idle, \<open>patience\<close> runs out.
\<close>

locale fair_progress = invariant_steps step ok
  for step :: "('l, 's) actions" and ok :: "'l list \<Rightarrow> 's \<Rightarrow> bool" +
  fixes finished idle :: "'l \<Rightarrow> bool" and load :: "'l \<Rightarrow> 's \<Rightarrow> nat" and backlog :: "'s \<Rightarrow> nat" and patience :: "'l \<Rightarrow> 's \<Rightarrow> nat"
  assumes idle_unfinished: "idle l \<Longrightarrow> \<not> finished l"
    and defined: "ok ls s \<Longrightarrow> i < length ls \<Longrightarrow> \<not> finished (ls ! i) \<Longrightarrow> step i (ls ! i) s \<noteq> None"
    and busy: "ok ls s \<Longrightarrow> i < length ls \<Longrightarrow> step i (ls ! i) s = Some (l, s') \<Longrightarrow> \<not> idle (ls ! i) \<Longrightarrow>
      load l s' + backlog s' < load (ls ! i) s + backlog s"
    and looking: "ok ls s \<Longrightarrow> i < length ls \<Longrightarrow> step i (ls ! i) s = Some (l, s') \<Longrightarrow> idle (ls ! i) \<Longrightarrow>
      load l s' + backlog s' < load (ls ! i) s + backlog s \<or>
      load l s' + backlog s' = load (ls ! i) s + backlog s \<and> idle l \<and> (\<forall>l. patience l s' = patience l s) \<and>
      (list_all (\<lambda>l. finished l \<or> idle l) ls \<longrightarrow> patience l s < patience (ls ! i) s)"
    and undisturbed: "ok ls s \<Longrightarrow> i < length ls \<Longrightarrow> step i (ls ! i) s = Some (l, s') \<Longrightarrow> j < length ls \<Longrightarrow> j \<noteq> i \<Longrightarrow>
      load (ls ! j) s' = load (ls ! j) s"
begin

definition work :: "'l list \<Rightarrow> 's \<Rightarrow> nat" where
  "work ls s = backlog s + (\<Sum>j < length ls. load (ls ! j) s)"

lemma work_step:
  assumes "ok ls s" and "i < length ls" and "step i (ls ! i) s = Some (l, s')"
  shows "work (ls[i := l]) s' + load (ls ! i) s + backlog s = work ls s + load l s' + backlog s'"
proof -
  have "(\<Sum>j < length ls. load (ls[i := l] ! j) s') = load l s' + (\<Sum>j \<in> {..<length ls} - {i}. load (ls ! j) s)"
    using assms undisturbed [OF assms] by (subst sum.remove [of _ i]) (auto intro!: sum.cong)
  moreover have "(\<Sum>j < length ls. load (ls ! j) s) = load (ls ! i) s + (\<Sum>j \<in> {..<length ls} - {i}. load (ls ! j) s)"
    using assms(2) by (subst sum.remove [of _ i]) auto
  ultimately show ?thesis by (simp add: work_def)
qed

text \<open>The run goes on from every state with less work.\<close>

definition returns :: "(nat \<Rightarrow> nat) \<Rightarrow> nat \<Rightarrow> 'l list \<Rightarrow> 's \<Rightarrow> bool" where
  "returns schedule k ls s \<longleftrightarrow> (\<exists>r. run_threads step finished schedule k ls s = Some r)"

lemma returns_turn:
  assumes ok: "ok ls s"
    and wasted: "schedule k < length ls \<longrightarrow> finished (ls ! schedule k) \<Longrightarrow> returns schedule (Suc k) ls s"
    and turn: "\<And>l s'. schedule k < length ls \<Longrightarrow> \<not> finished (ls ! schedule k) \<Longrightarrow>
      step (schedule k) (ls ! schedule k) s = Some (l, s') \<Longrightarrow> ok (ls[schedule k := l]) s' \<Longrightarrow>
      returns schedule (Suc k) (ls[schedule k := l]) s'"
  shows "returns schedule k ls s"
proof (cases "schedule k < length ls \<and> \<not> finished (ls ! schedule k)")
  case True
  then obtain l s' where "step (schedule k) (ls ! schedule k) s = Some (l, s')" using defined [OF ok] by fastforce
  then show ?thesis
    using True turn ok_step [OF ok, of "schedule k" l s'] unfolding returns_def by (subst run_threads_simp) auto
next
  case False
  then show ?thesis using wasted unfolding returns_def by (subst run_threads_simp) auto
qed

lemma gap:
  assumes "fair n schedule" and "i < n"
  obtains d where "schedule (k + d) = i"
  using assms le_Suc_ex unfolding fair_def by metis

text \<open>While some thread \<open>i\<close> is busy: it is not touched until its turn.\<close>

lemma returns_busy:
  assumes less: "\<And>k ls' s'. work ls' s' < n \<Longrightarrow> ok ls' s' \<Longrightarrow> length ls' = N \<Longrightarrow> returns schedule k ls' s'"
    and "ok ls s" and "length ls = N" and "work ls s = n" and "i < N" and "\<not> finished (ls ! i)" and "\<not> idle (ls ! i)"
    and "schedule (k + d) = i"
  shows "returns schedule k ls s"
  using assms(2-8)
proof (induction d arbitrary: k ls s)
  case 0
  show ?case
  proof (rule returns_turn [OF 0(1)])
    fix l s' assume h: "step (schedule k) (ls ! schedule k) s = Some (l, s')" "ok (ls[schedule k := l]) s'"
    have "schedule k = i" using 0 by simp
    then show "returns schedule (Suc k) (ls[schedule k := l]) s'"
      using busy [OF 0(1), of i l s'] work_step [OF 0(1), of i l s'] 0 h by (intro less) auto
  qed (use 0 in auto)
next
  case (Suc d)
  note IH = Suc.IH [of _ _ "Suc k"]
  show ?case
  proof (rule returns_turn [OF Suc.prems(1)])
    show "returns schedule (Suc k) ls s" using IH [OF Suc.prems(1-6)] Suc.prems(7) by simp
    fix l s' assume h: "schedule k < length ls" "step (schedule k) (ls ! schedule k) s = Some (l, s')" "ok (ls[schedule k := l]) s'"
    note w = work_step [OF Suc.prems(1) h(1,2)]
    consider "load l s' + backlog s' < load (ls ! schedule k) s + backlog s"
      | "load l s' + backlog s' = load (ls ! schedule k) s + backlog s" "idle (ls ! schedule k)"
      using busy [OF Suc.prems(1) h(1,2)] looking [OF Suc.prems(1) h(1,2)] by blast
    then show "returns schedule (Suc k) (ls[schedule k := l]) s'"
    proof cases
      case 1
      then show ?thesis using w h(3) Suc.prems by (intro less) auto
    next
      case 2
      then have "schedule k \<noteq> i" using Suc.prems(6) by auto
      then show ?thesis using IH [OF h(3)] 2 w Suc.prems by simp
    qed
  qed
qed

text \<open>While all threads are idle: the patience of thread \<open>i\<close> decreases at each of its turns.\<close>

lemma idle_turn:
  assumes less: "\<And>k ls' s'. work ls' s' < n \<Longrightarrow> ok ls' s' \<Longrightarrow> length ls' = N \<Longrightarrow> returns schedule k ls' s'"
    and ok: "ok ls s" "length ls = N" "work ls s = n" and idle: "list_all (\<lambda>l. finished l \<or> idle l) ls"
    and i: "i < length ls" "\<not> finished (ls ! i)"
    and wasted: "schedule k \<noteq> i \<Longrightarrow> returns schedule (Suc k) ls s"
    and same: "\<And>ls' s'. ok ls' s' \<Longrightarrow> length ls' = N \<Longrightarrow> work ls' s' = n \<Longrightarrow> \<not> finished (ls' ! i) \<Longrightarrow>
      list_all (\<lambda>l. finished l \<or> idle l) ls' \<Longrightarrow>
      (if schedule k = i then patience (ls' ! i) s' < patience (ls ! i) s else patience (ls' ! i) s' = patience (ls ! i) s) \<Longrightarrow>
      returns schedule (Suc k) ls' s'"
  shows "returns schedule k ls s"
proof (rule returns_turn [OF ok(1)])
  show "returns schedule (Suc k) ls s" if "schedule k < length ls \<longrightarrow> finished (ls ! schedule k)"
    using that i by (intro wasted) auto
  fix l s' assume h: "schedule k < length ls" "\<not> finished (ls ! schedule k)" "step (schedule k) (ls ! schedule k) s = Some (l, s')"
    "ok (ls[schedule k := l]) s'"
  note w = work_step [OF ok(1) h(1,3)]
  have "idle (ls ! schedule k)" using idle h(1,2) by (auto simp: list_all_length)
  with looking [OF ok(1) h(1,3)] idle consider "load l s' + backlog s' < load (ls ! schedule k) s + backlog s"
    | "load l s' + backlog s' = load (ls ! schedule k) s + backlog s" "idle l" "\<forall>l. patience l s' = patience l s"
      "patience l s < patience (ls ! schedule k) s" by blast
  then show "returns schedule (Suc k) (ls[schedule k := l]) s'"
  proof cases
    case 1
    then show ?thesis using w h(4) ok by (intro less) auto
  next
    case 2
    have "list_all (\<lambda>l. finished l \<or> idle l) (ls[schedule k := l])"
      using idle 2(2) h(1) by (simp add: list_all_length nth_list_update)
    then show ?thesis
      using w h ok 2 i idle_unfinished by (intro same) (auto simp: nth_list_update)
  qed
qed

lemma returns_idle:
  assumes fair: "fair N schedule"
    and less: "\<And>k ls' s'. work ls' s' < n \<Longrightarrow> ok ls' s' \<Longrightarrow> length ls' = N \<Longrightarrow> returns schedule k ls' s'"
    and i: "i < N"
    and "ok ls s" and "length ls = N" and "work ls s = n" and "\<not> finished (ls ! i)"
    and "list_all (\<lambda>l. finished l \<or> idle l) ls" and "patience (ls ! i) s = p" and "schedule (k + d) = i"
  shows "returns schedule k ls s"
  using assms(4-)
proof (induction p arbitrary: k d ls s rule: less_induct)
  case outer: (less p)
  have again: "returns schedule (Suc k) ls' s'"
    if "ok ls' s'" "length ls' = N" "work ls' s' = n" "\<not> finished (ls' ! i)" "list_all (\<lambda>l. finished l \<or> idle l) ls'"
      "patience (ls' ! i) s' < p" for k ls' s'
  proof -
    obtain d' where "schedule (Suc k + d') = i" using gap [OF fair i] by blast
    then show ?thesis using outer.IH [OF that(6,1-5) refl] by blast
  qed
  show ?case
    using outer.prems
  proof (induction d arbitrary: k ls s)
    case (0 k ls s)
    show ?case
      by (rule idle_turn [OF less 0(1-3) 0(5) _ 0(4)]) (use 0 i again in auto)
  next
    case (Suc d k ls s)
    show ?case
    proof (rule idle_turn [OF less Suc.prems(1-3) Suc.prems(5) _ Suc.prems(4)])
      show "returns schedule (Suc k) ls s" using Suc.IH [of ls s "Suc k"] Suc.prems by simp
      fix ls' s'
      assume h: "ok ls' s'" "length ls' = N" "work ls' s' = n" "\<not> finished (ls' ! i)" "list_all (\<lambda>l. finished l \<or> idle l) ls'"
        "if schedule k = i then patience (ls' ! i) s' < patience (ls ! i) s else patience (ls' ! i) s' = patience (ls ! i) s"
      show "returns schedule (Suc k) ls' s'"
        using again [OF h(1-5)] Suc.IH [OF h(1-5), of "Suc k"] h(6) Suc.prems(6,7) by (auto split: if_splits)
    qed (use Suc.prems i in auto)
  qed
qed

theorem fair_run_returns:
  assumes fair: "fair (length ls) schedule" and "ok ls s"
  shows "\<exists>ls' s'. run_threads step finished schedule k ls s = Some (ls', s')"
proof -
  have "returns schedule k ls s" if "ok ls s" "length ls = N" "fair N schedule" for ls s N k
    using that
  proof (induction "work ls s" arbitrary: ls s k rule: less_induct)
    case less
    have rec: "returns schedule k ls' s'" if "work ls' s' < work ls s" "ok ls' s'" "length ls' = N" for k ls' s'
      using less.hyps that less.prems(3) by blast
    consider (fin) "list_all finished ls" | (busy) i where "i < N" "\<not> finished (ls ! i)" "\<not> idle (ls ! i)"
      | (idle) i where "i < N" "\<not> finished (ls ! i)" "list_all (\<lambda>l. finished l \<or> idle l) ls"
      using less.prems(2) by (auto simp: list_all_length)
    then show ?case
    proof cases
      case fin
      then show ?thesis unfolding returns_def by (subst run_threads_simp) simp
    next
      case busy
      obtain d where "schedule (k + d) = i" using gap [OF less.prems(3) busy(1)] by blast
      then show ?thesis using returns_busy [OF rec less.prems(1,2) refl busy] by blast
    next
      case idle
      obtain d where "schedule (k + d) = i" using gap [OF less.prems(3) idle(1)] by blast
      then show ?thesis using returns_idle [OF less.prems(3) rec idle(1) less.prems(1,2) refl idle(2,3) refl] by blast
    qed
  qed
  then show ?thesis using assms by (auto simp: returns_def)
qed

end

end
