(* ===== verification/IO_Walk_Par.thy ===== *)
theory IO_Walk_Par
  imports IO_Walk_Seq IO_Interleave "HOL-Library.Multiset"
begin

text \<open>
  \<^verbatim>\<open>src/walk/bc_io_walk_parallel.c\<close>: the walk of a directory tree by several workers that share a queue of directories.
  A worker is a small machine whose state is the place in the code it has reached with its local variables; one of its
  actions is one access to the shared atomic variables, one operation on the queue, one call of a callback or of the
  system, or one operation of the directory reader. The actions of the workers are interleaved in any order
  (sequentially consistent: an atomic load sees the last store). \<open>None\<close> is undefined behaviour.
\<close>

section \<open>Model\<close>

definition BC_IO_WALK_DEFAULT_QUEUE_CAPACITY :: size_t where "BC_IO_WALK_DEFAULT_QUEUE_CAPACITY = 16384"

definition sizeof_bc_io_walk_queue_entry :: size_t where "sizeof_bc_io_walk_queue_entry = 4112"

record bc_io_walk_queue_entry =
  queue_absolute_path :: bytes
  queue_absolute_path_length :: size_t
  queue_depth :: size_t

text \<open>The operations made on the queue, with their answers; \<open>Queue_made\<close> carries the capacity.\<close>

datatype queue_op =
    Queue_made size_t
  | Pushed bc_io_walk_queue_entry bool
  | Popped "bc_io_walk_queue_entry option"

text \<open>
  What the walk uses of bc-concurrency: the queue, whose answers depend on the operations made on it so far; the memory
  context of a worker; the number of workers; how many of the submitted tasks \<^verbatim>\<open>bc_concurrency_dispatch_and_wait\<close> runs, what it
  returns, and in which order the actions of the tasks happen (the number of the task that acts at each instant).
\<close>

record bc_concurrency =
  conc_queue_create :: "history \<Rightarrow> addr \<Rightarrow> size_t \<Rightarrow> size_t \<Rightarrow> addr option"
  conc_queue_push :: "queue_op list \<Rightarrow> bc_io_walk_queue_entry \<Rightarrow> bool"
  conc_queue_pop :: "queue_op list \<Rightarrow> bc_io_walk_queue_entry option"
  conc_worker_memory :: "nat \<Rightarrow> addr"
  conc_effective_worker_count :: "addr \<Rightarrow> size_t"
  conc_tasks_run :: "addr \<Rightarrow> size_t \<Rightarrow> nat"
  conc_dispatch_and_wait :: "addr \<Rightarrow> bool"
  conc_schedule :: "nat \<Rightarrow> nat"

text \<open>\<^verbatim>\<open>_Atomic int\<close> arithmetic wraps at 32 bits; the flag \<^verbatim>\<open>visit_failed\<close> only holds 0 and 1.\<close>

record bc_io_walk_shared =
  directory_queue :: "queue_op list"
  outstanding_directory_count :: u32
  shared_stats :: bc_io_walk_stats
  shared_visit_failed :: bool

type_synonym 'w sharing = "bc_io_walk_shared \<times> 'w walk_world_scheme"

definition bc_io_walk_should_stop :: "bc_io_walk_config \<Rightarrow> 'w walk_world_scheme \<Rightarrow> bool \<times> 'w walk_world_scheme" where
  "bc_io_walk_should_stop config w =
     (case config_should_stop_check config of
        None \<Rightarrow> (False, w)
      | Some f \<Rightarrow> let stop = f (trace w) (walk_calls w) in (stop, log_call (Stop_called stop) w))"

definition bc_io_walk_entry_passes_filter :: "bc_io_walk_config \<Rightarrow> bc_io_walk_entry \<Rightarrow> 'w walk_world_scheme \<Rightarrow>
    bool \<times> 'w walk_world_scheme" where
  "bc_io_walk_entry_passes_filter config entry w =
     (case config_filter config of
        None \<Rightarrow> (True, w)
      | Some f \<Rightarrow> let accepted = f (trace w) (walk_calls w) entry in (accepted, log_call (Filter_called entry accepted) w))"

text \<open>
  The places of \<^verbatim>\<open>bc_io_walk_process_directory\<close>, in the order of the code. The two halves of \<^verbatim>\<open>bc_io_walk_report_error\<close> are places too,
  with what the code does after the report.
\<close>

datatype onward = Then_return | Then_continue | Then_break

datatype place =
    Load_failed
  | Open_directory
  | Count_directory
  | Load_failed_again
  | Next_entry_of_reader
  | Stat_entry bc_io_dirent_entry bytes size_t
  | Ask_filter bytes bc_io_walk_entry
  | Count_skipped
  | Count_file bytes bc_io_walk_entry
  | Call_visit bytes bc_io_walk_entry
  | Store_failed
  | Ask_descend bytes bc_io_walk_entry
  | Add_outstanding bc_io_walk_queue_entry
  | Push_directory bc_io_walk_queue_entry
  | Sub_outstanding bc_io_walk_queue_entry
  | Create_fallback bc_io_walk_queue_entry
  | Destroy_fallback addr bc_io_dirent_reader
  | Count_error bytes string int onward
  | Call_on_error bytes string int onward
  | Close_directory
  | Return_directory

definition place_after :: "onward \<Rightarrow> place" where
  "place_after next = (case next of Then_return \<Rightarrow> Return_directory | Then_continue \<Rightarrow> Load_failed_again | Then_break \<Rightarrow> Close_directory)"

text \<open>A call of \<^verbatim>\<open>bc_io_walk_process_directory\<close>: arguments, local variables, place.\<close>

record activation =
  act_reader :: bc_io_dirent_reader
  act_path :: bytes
  act_path_length :: size_t
  act_depth :: size_t
  act_fd :: int
  act_place :: place

definition count_stats :: "(bc_io_walk_stats \<Rightarrow> bc_io_walk_stats) \<Rightarrow> bc_io_walk_shared \<Rightarrow> bc_io_walk_shared" where
  "count_stats f shared = shared\<lparr>shared_stats := f (shared_stats shared)\<rparr>"

definition bc_io_walk_report_error :: "bytes \<Rightarrow> string \<Rightarrow> int \<Rightarrow> onward \<Rightarrow> activation \<Rightarrow> activation" where
  "bc_io_walk_report_error path stage errno_value next a = a\<lparr>act_place := Count_error path stage errno_value next\<rparr>"

text \<open>The entry for a directory to be queued; a path that fills the buffer has no room for its terminator.\<close>

definition queue_entry_for :: "io_env \<Rightarrow> bytes \<Rightarrow> size_t \<Rightarrow> size_t \<Rightarrow> bc_io_walk_queue_entry option" where
  "queue_entry_for env path path_length dep =
     (if path_length < BC_IO_MAX_PATH_LENGTH
      then
        let zeros = snd (core_zero env sizeof_bc_io_walk_queue_entry);
            buffer = overwrite 0 (core_copy env (take (unat path_length) path)) (take (unat BC_IO_MAX_PATH_LENGTH) zeros)
        in Some \<lparr>queue_absolute_path = buffer[unat path_length := 0], queue_absolute_path_length = path_length, queue_depth = dep\<rparr>
      else None)"

definition start_activation :: "bc_io_dirent_reader \<Rightarrow> bc_io_walk_queue_entry \<Rightarrow> activation" where
  "start_activation reader entry =
     \<lparr>act_reader = reader, act_path = queue_absolute_path entry, act_path_length = queue_absolute_path_length entry,
      act_depth = queue_depth entry, act_fd = -1, act_place = Load_failed\<rparr>"

definition task_memory :: "bc_concurrency \<Rightarrow> bc_io_walk_config \<Rightarrow> nat \<Rightarrow> addr" where
  "task_memory conc config i =
     (if conc_worker_memory conc i = NULL then config_main_memory_context config else conc_worker_memory conc i)"

text \<open>The record the reader handed out: the test for hidden names and the path of the entry.\<close>

definition begin_entry :: "io_env \<Rightarrow> bc_io_walk_config \<Rightarrow> activation \<Rightarrow> bc_io_dirent_entry \<Rightarrow> history \<Rightarrow> activation option" where
  "begin_entry env config a e h =
     do {
       c0 \<leftarrow> load_byte (reader_buffer (act_reader a)) (entry_name e);
       if c0 = 0x2E \<and> \<not> config_include_hidden config then Some (a\<lparr>act_place := Load_failed_again\<rparr>)
       else do {
         (child_path_length, child_path) \<leftarrow> bc_io_file_path_join env
           (fresh_memory env h BC_IO_MAX_PATH_LENGTH) BC_IO_MAX_PATH_LENGTH (act_path a) (act_path_length a)
           (drop (entry_name e) (reader_buffer (act_reader a))) (entry_name_length e);
         case child_path_length of
           None \<Rightarrow> Some (bc_io_walk_report_error (c_text (act_path a) 0) ''path-too-long'' ENAMETOOLONG Then_continue a)
         | Some child_path_length \<Rightarrow> Some (a\<lparr>act_place := Stat_entry e child_path child_path_length\<rparr>)
       }
     }"

text \<open>
  One action of \<^verbatim>\<open>bc_io_walk_process_directory\<close>. The result is what replaces the activation on the worker's stack: the activation at
  its next place, or above it the activation of the call it makes.
\<close>

definition bc_io_walk_process_directory :: "io_env \<Rightarrow> bc_concurrency \<Rightarrow> bc_io_walk_config \<Rightarrow> nat \<Rightarrow> activation \<Rightarrow> 'w sharing \<Rightarrow>
    (activation list \<times> 'w sharing) option" where
  "bc_io_walk_process_directory env conc config i a = (\<lambda>(shared, w).
     let go = (\<lambda>place shared w. Some ([a\<lparr>act_place := place\<rparr>], shared, w));
         directory_path = c_text (act_path a) 0
     in case act_place a of
       Load_failed \<Rightarrow> go (if shared_visit_failed shared then Return_directory else Open_directory) shared w
     | Open_directory \<Rightarrow>
         let open_flags = O_RDONLY OR O_DIRECTORY OR O_CLOEXEC;
             open_flags = (if \<not> config_follow_symlinks config then open_flags OR O_NOFOLLOW else open_flags);
             (fd, w) = sys_open env directory_path open_flags 0 w
         in if fd < 0
            then Some ([bc_io_walk_report_error directory_path ''open'' (errno w) Then_return a], shared, w)
            else Some ([a\<lparr>act_fd := fd, act_place := Count_directory\<rparr>], shared, w)
     | Count_directory \<Rightarrow>
         Some ([a\<lparr>act_reader := bc_io_dirent_reader_reset (act_reader a) (act_fd a), act_place := Load_failed_again\<rparr>],
               count_stats (\<lambda>st. st\<lparr>directories_visited := directories_visited st + 1\<rparr>) shared, w)
     | Load_failed_again \<Rightarrow> go (if shared_visit_failed shared then Close_directory else Next_entry_of_reader) shared w
     | Next_entry_of_reader \<Rightarrow> do {
         (result, reader, w) \<leftarrow> bc_io_dirent_reader_next env (act_reader a) w;
         let a = a\<lparr>act_reader := reader\<rparr>;
         case result of
           Next_failed \<Rightarrow> Some ([bc_io_walk_report_error directory_path ''getdents64'' (bc_io_dirent_reader_last_errno reader)
                              Then_break a], shared, w)
         | Next_end \<Rightarrow> Some ([a\<lparr>act_place := Close_directory\<rparr>], shared, w)
         | Next_entry e \<Rightarrow> do { a \<leftarrow> begin_entry env config a e (trace w); Some ([a], shared, w) }
       }
     | Stat_entry e child_path child_path_length \<Rightarrow>
         (case resolve_entry env (config_follow_symlinks config) (act_fd a) (entry_d_type e)
                 (c_text (reader_buffer (act_reader a)) (entry_name e)) w of
            (None, w) \<Rightarrow> Some ([bc_io_walk_report_error (c_text child_path 0) ''stat'' (errno w) Then_continue a], shared, w)
          | (Some res, w) \<Rightarrow> go (Ask_filter child_path (walk_entry_of child_path child_path_length (act_depth a + 1) res)) shared w)
     | Ask_filter child_path entry \<Rightarrow>
         let (accepted, w) = bc_io_walk_entry_passes_filter config entry w
         in if \<not> accepted then go Count_skipped shared w
            else if entry_kind entry = BC_IO_WALK_ENTRY_FILE then go (Count_file child_path entry) shared w
            else if entry_kind entry = BC_IO_WALK_ENTRY_DIRECTORY then go (Call_visit child_path entry) shared w
            else go Load_failed_again shared w
     | Count_skipped \<Rightarrow> go Load_failed_again (count_stats (\<lambda>st. st\<lparr>files_skipped := files_skipped st + 1\<rparr>) shared) w
     | Count_file child_path entry \<Rightarrow>
         go (Call_visit child_path entry) (count_stats (\<lambda>st. st\<lparr>files_visited := files_visited st + 1\<rparr>) shared) w
     | Call_visit child_path entry \<Rightarrow>
         if config_visit config = None \<and> entry_kind entry = BC_IO_WALK_ENTRY_FILE then None
         else
           let (ok, w) = ask (config_visit config) Visit_called entry w
           in if \<not> ok then go Store_failed shared w
              else if entry_kind entry = BC_IO_WALK_ENTRY_FILE then go Load_failed_again shared w
              else go (Ask_descend child_path entry) shared w
     | Store_failed \<Rightarrow> go Close_directory (shared\<lparr>shared_visit_failed := True\<rparr>) w
     | Ask_descend child_path entry \<Rightarrow>
         let (descend, w) = ask (config_should_descend config) Descend_called entry w
         in if \<not> descend then go Load_failed_again shared w
            else do {
              sub_entry \<leftarrow> queue_entry_for env child_path (absolute_path_length entry) (depth entry);
              go (Add_outstanding sub_entry) shared w
            }
     | Add_outstanding sub_entry \<Rightarrow>
         go (Push_directory sub_entry) (shared\<lparr>outstanding_directory_count := outstanding_directory_count shared + 1\<rparr>) w
     | Push_directory sub_entry \<Rightarrow>
         let pushed = conc_queue_push conc (directory_queue shared) sub_entry
         in go (if pushed then Load_failed_again else Sub_outstanding sub_entry)
               (shared\<lparr>directory_queue := directory_queue shared @ [Pushed sub_entry pushed]\<rparr>) w
     | Sub_outstanding sub_entry \<Rightarrow>
         go (Create_fallback sub_entry) (shared\<lparr>outstanding_directory_count := outstanding_directory_count shared - 1\<rparr>) w
     | Create_fallback sub_entry \<Rightarrow>
         let fallback_memory = task_memory conc config i
         in (case bc_io_dirent_reader_create env fallback_memory (-1) w of
               (Some fallback_reader, w) \<Rightarrow>
                 Some ([start_activation fallback_reader sub_entry, a\<lparr>act_place := Destroy_fallback fallback_memory fallback_reader\<rparr>],
                       shared, w)
             | (None, w) \<Rightarrow>
                 Some ([bc_io_walk_report_error (c_text (queue_absolute_path sub_entry) 0) ''dirent-reader-alloc'' ENOMEM
                          Then_continue a], shared, w))
     | Destroy_fallback fallback_memory fallback_reader \<Rightarrow>
         go Load_failed_again shared (bc_io_dirent_reader_destroy fallback_memory (Some fallback_reader) w)
     | Count_error path stage errno_value next \<Rightarrow>
         go (Call_on_error path stage errno_value next)
            (count_stats (\<lambda>st. st\<lparr>errors_encountered := errors_encountered st + 1\<rparr>) shared) w
     | Call_on_error path stage errno_value next \<Rightarrow> go (place_after next) shared (tell_error config path stage errno_value w)
     | Close_directory \<Rightarrow> go Return_directory shared (sys_close env (act_fd a) w)
     | Return_directory \<Rightarrow> Some ([], shared, w))"

text \<open>The places of \<^verbatim>\<open>bc_io_walk_worker_task\<close>. While it processes a directory its stack of activations is not empty, the innermost first.\<close>

datatype walk_worker =
    Create_reader
  | Count_alloc_error
  | Store_alloc_failed
  | Call_alloc_error
  | Check_stop bc_io_dirent_reader
  | Check_failed bc_io_dirent_reader
  | Pop_directory bc_io_dirent_reader
  | Processing "activation list"
  | Directory_done bc_io_dirent_reader
  | Load_outstanding bc_io_dirent_reader
  | Destroy_reader bc_io_dirent_reader
  | Worker_done

definition bc_io_walk_worker_task :: "io_env \<Rightarrow> bc_concurrency \<Rightarrow> bc_io_walk_config \<Rightarrow> (walk_worker, 'w sharing) actions" where
  "bc_io_walk_worker_task env conc config i worker = (\<lambda>(shared, w).
     let worker_memory = task_memory conc config i
     in case worker of
       Create_reader \<Rightarrow>
         (case bc_io_dirent_reader_create env worker_memory (-1) w of
            (None, w) \<Rightarrow> Some (Count_alloc_error, shared, w)
          | (Some reader, w) \<Rightarrow> Some (Check_stop reader, shared, w))
     | Count_alloc_error \<Rightarrow>
         Some (Store_alloc_failed, count_stats (\<lambda>st. st\<lparr>errors_encountered := errors_encountered st + 1\<rparr>) shared, w)
     | Store_alloc_failed \<Rightarrow> Some (Call_alloc_error, shared\<lparr>shared_visit_failed := True\<rparr>, w)
     | Call_alloc_error \<Rightarrow>
         (case config_root config of
            None \<Rightarrow> None
          | Some root \<Rightarrow> Some (Worker_done, shared, tell_error config (c_text root 0) ''dirent-reader-alloc'' ENOMEM w))
     | Check_stop reader \<Rightarrow>
         let (stop, w) = bc_io_walk_should_stop config w
         in Some (if stop then Destroy_reader reader else Check_failed reader, shared, w)
     | Check_failed reader \<Rightarrow>
         Some (if shared_visit_failed shared then Destroy_reader reader else Pop_directory reader, shared, w)
     | Pop_directory reader \<Rightarrow>
         let popped = conc_queue_pop conc (directory_queue shared);
             shared = shared\<lparr>directory_queue := directory_queue shared @ [Popped popped]\<rparr>
         in (case popped of
               Some entry \<Rightarrow> Some (Processing [start_activation reader entry], shared, w)
             | None \<Rightarrow> Some (Load_outstanding reader, shared, w))
     | Processing acts \<Rightarrow>
         (case acts of
            [] \<Rightarrow> None
          | a # outer \<Rightarrow> do {
              (inner, shared, w) \<leftarrow> bc_io_walk_process_directory env conc config i a (shared, w);
              Some (if inner @ outer = [] then Directory_done (act_reader a) else Processing (inner @ outer), shared, w)
            })
     | Directory_done reader \<Rightarrow>
         Some (Check_stop reader, shared\<lparr>outstanding_directory_count := outstanding_directory_count shared - 1\<rparr>, w)
     | Load_outstanding reader \<Rightarrow>
         Some (if outstanding_directory_count shared = 0 then Destroy_reader reader else Check_stop reader, shared, w)
     | Destroy_reader reader \<Rightarrow> Some (Worker_done, shared, bc_io_dirent_reader_destroy worker_memory (Some reader) w)
     | Worker_done \<Rightarrow> None)"

definition worker_finished :: "walk_worker \<Rightarrow> bool" where
  "worker_finished worker \<longleftrightarrow> worker = Worker_done"

text \<open>The root directory as the first entry of the queue; its depth is what \<^verbatim>\<open>bc_core_zero\<close> left there.\<close>

definition root_queue_entry :: "io_env \<Rightarrow> bytes \<Rightarrow> size_t \<Rightarrow> bc_io_walk_queue_entry option" where
  "root_queue_entry env root root_length =
     queue_entry_for env root root_length (load_le (drop 4104 (snd (core_zero env sizeof_bc_io_walk_queue_entry))))"

definition initial_shared :: "size_t \<Rightarrow> bc_io_walk_shared" where
  "initial_shared queue_capacity =
     \<lparr>directory_queue = [Queue_made queue_capacity], outstanding_directory_count = 0,
      shared_stats = \<lparr>files_visited = 0, directories_visited = 0, files_skipped = 0, errors_encountered = 0\<rparr>,
      shared_visit_failed = False\<rparr>"

definition push_root :: "bc_concurrency \<Rightarrow> size_t \<Rightarrow> bc_io_walk_queue_entry \<Rightarrow> bool \<times> bc_io_walk_shared" where
  "push_root conc queue_capacity root_entry =
     (let shared = (initial_shared queue_capacity)\<lparr>outstanding_directory_count := 1\<rparr>;
          pushed = conc_queue_push conc (directory_queue shared) root_entry
      in (pushed, shared\<lparr>directory_queue := directory_queue shared @ [Pushed root_entry pushed]\<rparr>))"

definition effective_capacity :: "bc_io_walk_config \<Rightarrow> size_t" where
  "effective_capacity config =
     (if config_queue_capacity config > 0 then config_queue_capacity config else BC_IO_WALK_DEFAULT_QUEUE_CAPACITY)"

text \<open>
  The configuration is not tested for the null pointer. The result is the returned flag and, where the walk was made,
  \<^verbatim>\<open>*out_stats\<close>; \<open>None\<close> is undefined behaviour or a walk that does not return.
\<close>

definition bc_io_walk_parallel :: "io_env \<Rightarrow> bc_concurrency \<Rightarrow> bc_io_walk_config \<Rightarrow> 'w walk_world_scheme \<Rightarrow>
    ((bool \<times> bc_io_walk_stats option) \<times> 'w walk_world_scheme) option" where
  "bc_io_walk_parallel env conc config w =
     (case config_root config of
        None \<Rightarrow> Some ((False, None), w)
      | Some root \<Rightarrow>
          if config_root_length config = 0 \<or> config_root_length config \<ge> BC_IO_MAX_PATH_LENGTH then Some ((False, None), w)
          else if config_visit config = None then Some ((False, None), w)
          else if config_main_memory_context config = NULL \<or> config_concurrency_context config = NULL then Some ((False, None), w)
          else
            let queue_capacity = effective_capacity config;
                created = conc_queue_create conc (trace w) (config_main_memory_context config) sizeof_bc_io_walk_queue_entry queue_capacity;
                w = log_event (Ev_queue_create (config_main_memory_context config) sizeof_bc_io_walk_queue_entry queue_capacity created) w
            in case created of
                 None \<Rightarrow> Some ((False, None), w)
               | Some queue \<Rightarrow> do {
                   root_entry \<leftarrow> root_queue_entry env root (config_root_length config);
                   let (pushed, shared) = push_root conc queue_capacity root_entry;
                   if \<not> pushed then Some ((False, None), log_event (Ev_queue_destroy queue) w)
                   else do {
                     let tasks = conc_tasks_run conc (config_concurrency_context config)
                                   (conc_effective_worker_count conc (config_concurrency_context config));
                     (_, shared, w) \<leftarrow> run_threads (bc_io_walk_worker_task env conc config) worker_finished (conc_schedule conc) 0
                       (replicate tasks Create_reader) (shared, w);
                     let w = log_event (Ev_queue_destroy queue) w;
                     Some ((conc_dispatch_and_wait conc (config_concurrency_context config) \<and> \<not> shared_visit_failed shared,
                            Some (shared_stats shared)), w)
                   }
                 })"

section \<open>Actions\<close>

named_theorems par_defs \<open>what an action of the parallel walk is made of\<close>

lemmas [par_defs] = bc_io_walk_process_directory_def bc_io_walk_report_error_def count_stats_def start_activation_def
  bc_io_walk_entry_passes_filter_def ask_def tell_error_def bc_io_dirent_reader_reset_def
  bc_io_dirent_reader_create_def bc_io_dirent_reader_destroy_def place_after_def Let_def bind_eq_Some_conv

text \<open>The two places whose action depends on what the operating system stored.\<close>

lemma begin_entry_place:
  assumes "begin_entry env config a e h = Some b"
  shows "\<exists>pl. b = a\<lparr>act_place := pl\<rparr> \<and> (pl = Load_failed_again \<or> (\<exists>q st x. pl = Count_error q st x Then_continue) \<or>
    (\<exists>c l. pl = Stat_entry e c l))"
  using assms by (auto simp: begin_entry_def bc_io_walk_report_error_def bind_eq_Some_conv split: if_splits option.splits prod.splits)

lemma process_next:
  assumes "bc_io_walk_process_directory env conc config i a (sh, w) = Some (inner, sh', w')" and "act_place a = Next_entry_of_reader"
  obtains res rd b where "bc_io_dirent_reader_next env (act_reader a) w = Some (res, rd, w')" and "sh' = sh" and "inner = [b]"
    and "case res of
        Next_failed \<Rightarrow> b = a\<lparr>act_reader := rd, act_place := Count_error (c_text (act_path a) 0) ''getdents64''
          (bc_io_dirent_reader_last_errno rd) Then_break\<rparr>
      | Next_end \<Rightarrow> b = a\<lparr>act_reader := rd, act_place := Close_directory\<rparr>
      | Next_entry e \<Rightarrow> begin_entry env config (a\<lparr>act_reader := rd\<rparr>) e (trace w') = Some b"
proof -
  obtain res rd w1 where n: "bc_io_dirent_reader_next env (act_reader a) w = Some (res, rd, w1)"
    using assms by (auto simp: bc_io_walk_process_directory_def Let_def bind_eq_Some_conv)
  then show thesis
    using assms that [of res rd] by (cases res) (auto simp: bc_io_walk_process_directory_def bc_io_walk_report_error_def Let_def bind_eq_Some_conv)
qed

lemma next_place:
  assumes "bc_io_walk_process_directory env conc config i a (sh, w) = Some (inner, sh', w')" and "act_place a = Next_entry_of_reader"
  obtains rd pl where "reader_frame (act_reader a) w rd w'" and "sh' = sh" and "inner = [a\<lparr>act_reader := rd, act_place := pl\<rparr>]"
    and "pl = Close_directory \<or> pl = Load_failed_again \<or> (\<exists>q st x n. pl = Count_error q st x n \<and> n \<noteq> Then_return) \<or>
      (\<exists>e c l. pl = Stat_entry e c l)"
proof (rule process_next [OF assms])
  fix res rd b
  assume n: "bc_io_dirent_reader_next env (act_reader a) w = Some (res, rd, w')" "sh' = sh" "inner = [b]"
    and b: "case res of
        Next_failed \<Rightarrow> b = a\<lparr>act_reader := rd, act_place := Count_error (c_text (act_path a) 0) ''getdents64''
          (bc_io_dirent_reader_last_errno rd) Then_break\<rparr>
      | Next_end \<Rightarrow> b = a\<lparr>act_reader := rd, act_place := Close_directory\<rparr>
      | Next_entry e \<Rightarrow> begin_entry env config (a\<lparr>act_reader := rd\<rparr>) e (trace w') = Some b"
  from b have "\<exists>pl. b = a\<lparr>act_reader := rd, act_place := pl\<rparr> \<and> (pl = Close_directory \<or> pl = Load_failed_again \<or>
      (\<exists>q st x n. pl = Count_error q st x n \<and> n \<noteq> Then_return) \<or> (\<exists>e c l. pl = Stat_entry e c l))"
    by (cases res) (fastforce dest: begin_entry_place)+
  then show thesis using that next_frame [OF n(1)] n(2,3) by blast
qed

section \<open>Resources\<close>

text \<open>The places where the descriptor of the directory is open.\<close>

fun open_place :: "place \<Rightarrow> bool" where
  "open_place Load_failed \<longleftrightarrow> False"
| "open_place Open_directory \<longleftrightarrow> False"
| "open_place Return_directory \<longleftrightarrow> False"
| "open_place (Count_error _ _ _ next) \<longleftrightarrow> next \<noteq> Then_return"
| "open_place (Call_on_error _ _ _ next) \<longleftrightarrow> next \<noteq> Then_return"
| "open_place _ \<longleftrightarrow> True"

definition act_holds :: "resource \<Rightarrow> activation \<Rightarrow> int" where
  "act_holds r a = of_bool (open_place (act_place a) \<and> r = Descriptor (act_fd a)) +
     (case act_place a of Destroy_fallback _ reader \<Rightarrow> of_bool (r = Block (reader_self reader)) | _ \<Rightarrow> 0)"

definition reader_held :: "resource \<Rightarrow> bc_io_dirent_reader \<Rightarrow> int" where
  "reader_held r reader = of_bool (r = Block (reader_self reader))"

fun worker_holds :: "resource \<Rightarrow> walk_worker \<Rightarrow> int" where
  "worker_holds r (Check_stop reader) = reader_held r reader"
| "worker_holds r (Check_failed reader) = reader_held r reader"
| "worker_holds r (Pop_directory reader) = reader_held r reader"
| "worker_holds r (Processing acts) = reader_held r (act_reader (last acts)) + sum_list (map (act_holds r) acts)"
| "worker_holds r (Directory_done reader) = reader_held r reader"
| "worker_holds r (Load_outstanding reader) = reader_held r reader"
| "worker_holds r (Destroy_reader reader) = reader_held r reader"
| "worker_holds r _ = 0"

lemma process_reader:
  assumes "bc_io_walk_process_directory env conc config i a (sh, w) = Some (inner, sh', w')" and "inner \<noteq> []"
  shows "reader_self (act_reader (last inner)) = reader_self (act_reader a)"
proof (cases "act_place a = Next_entry_of_reader")
  case True
  then show ?thesis by (rule next_place [OF assms(1)]) (auto simp: reader_frame_def)
next
  case False
  then show ?thesis
    using assms by (cases "act_place a") (auto simp: par_defs split: if_splits prod.splits option.splits)
qed

lemma process_balance:
  assumes "bc_io_walk_process_directory env conc config i a (sh, w) = Some (inner, sh', w')"
  shows "balance (trace w') r - sum_list (map (act_holds r) inner) = balance (trace w) r - act_holds r a"
proof (cases "act_place a = Next_entry_of_reader")
  case True
  from assms True obtain rd pl where n: "reader_frame (act_reader a) w rd w'" "inner = [a\<lparr>act_reader := rd, act_place := pl\<rparr>]"
    "pl = Close_directory \<or> pl = Load_failed_again \<or> (\<exists>q st x n. pl = Count_error q st x n \<and> n \<noteq> Then_return) \<or> (\<exists>e c l. pl = Stat_entry e c l)"
    by (rule next_place)
  have "act_holds r (a\<lparr>act_reader := rd, act_place := pl\<rparr>) = of_bool (r = Descriptor (act_fd a))"
    using n(3) by (elim disjE exE conjE) (simp_all add: act_holds_def)
  moreover have "act_holds r a = of_bool (r = Descriptor (act_fd a))" using True by (simp add: act_holds_def)
  moreover have "balance (trace w') r = balance (trace w) r" using n(1) by (auto simp: reader_frame_def lists_only_def getdents_effect)
  ultimately show ?thesis by (simp add: n(2))
next
  case False
  then show ?thesis
    using assms
    by (cases "act_place a") (auto simp: par_defs act_holds_def sys_open_def sys_close_def pool_allocate_def
      pool_free_def answer_def stats_only_def fstatat_effect dest!: resolve_entry_stats_only
      split: if_splits prod.splits option.splits sum.splits onward.splits)
qed

text \<open>
  An amount that an action of an activation moves is moved by the action of the worker too, when it is the sum over
  the activations of a worker, with one amount for the worker as a whole.
\<close>

lemma worker_cases:
  assumes "bc_io_walk_worker_task env conc config i (Processing acts) (sh, w) = Some (l, sh', w')"
  obtains a outer inner where "acts = a # outer" and "bc_io_walk_process_directory env conc config i a (sh, w) = Some (inner, sh', w')"
    and "l = (if inner @ outer = [] then Directory_done (act_reader a) else Processing (inner @ outer))"
  using assms by (cases acts) (auto simp: bc_io_walk_worker_task_def bind_eq_Some_conv)

lemma worker_balance:
  assumes "bc_io_walk_worker_task env conc config i l (sh, w) = Some (l', sh', w')"
  shows "balance (trace w') r - worker_holds r l' = balance (trace w) r - worker_holds r l"
proof (cases "\<exists>acts. l = Processing acts")
  case True
  then obtain acts where l: "l = Processing acts" by blast
  with assms obtain a outer inner where w: "acts = a # outer" "bc_io_walk_process_directory env conc config i a (sh, w) = Some (inner, sh', w')"
    "l' = (if inner @ outer = [] then Directory_done (act_reader a) else Processing (inner @ outer))" by (blast elim: worker_cases)
  have "worker_holds r l' = reader_held r (act_reader (last acts)) + sum_list (map (act_holds r) (inner @ outer))"
    using w(1,3) process_reader [OF w(2)] by (auto simp: reader_held_def)
  then show ?thesis using process_balance [OF w(2), of r] l w(1) by simp
next
  case False
  then show ?thesis
    using assms
    by (cases l) (auto simp: bc_io_walk_worker_task_def bc_io_walk_should_stop_def bc_io_dirent_reader_create_def
        bc_io_dirent_reader_destroy_def pool_allocate_def pool_free_def answer_def reader_held_def count_stats_def tell_error_def
        act_holds_def start_activation_def Let_def split: if_splits prod.splits option.splits sum.splits)
qed

interpretation resources: exact_account "bc_io_walk_worker_task env conc config" "\<lambda>_ _. True"
  "\<lambda>(sh, w). balance (trace w) r" "\<lambda>l. - worker_holds r l" for env conc config r
  by unfold_locales (use worker_balance in \<open>fastforce split: prod.splits\<close>)+

end
