(* ===== verification/IO_Walk_Par_Count.thy ===== *)
theory IO_Walk_Par_Count
  imports IO_Walk_Par
begin

text \<open>
  The shared counters of the parallel walk, as accounts: a worker is between counting something and doing it (or the
  other way round) only at a few places, so at every moment each counter differs from what happened by what the
  workers have open. The same argument gives the meaning of \<^verbatim>\<open>outstanding_directory_count\<close>, on which the workers rely to
  find out that the walk is over.
\<close>

section \<open>From activations to workers\<close>

definition worker_amount :: "(activation \<Rightarrow> 'm) \<Rightarrow> (walk_worker \<Rightarrow> 'm) \<Rightarrow> walk_worker \<Rightarrow> 'm::comm_monoid_add" where
  "worker_amount f g l = g l + (case l of Processing acts \<Rightarrow> sum_list (map f acts) | _ \<Rightarrow> 0)"

lemmas task_defs = bc_io_walk_worker_task_def bc_io_walk_should_stop_def worker_amount_def

lemma lift_account:
  fixes total :: "'w sharing \<Rightarrow> 'm::comm_monoid_add"
  assumes act: "\<And>a inner sh w sh' w'. bc_io_walk_process_directory env conc config i a (sh, w) = Some (inner, sh', w') \<Longrightarrow>
      total (sh', w') + sum_list (map f inner) = total (sh, w) + f a"
    and g: "\<And>acts acts'. g (Processing acts) = g (Processing acts')" "\<And>rd acts. g (Directory_done rd) = g (Processing acts)"
    and rest: "\<And>sh w l' sh' w'. \<nexists>acts. l = Processing acts \<Longrightarrow>
      bc_io_walk_worker_task env conc config i l (sh, w) = Some (l', sh', w') \<Longrightarrow>
      total (sh', w') + worker_amount f g l' = total (sh, w) + worker_amount f g l"
    and task: "bc_io_walk_worker_task env conc config i l s = Some (l', s')"
  shows "total s' + worker_amount f g l' = total s + worker_amount f g l"
proof -
  obtain sh w sh' w' where s: "s = (sh, w)" "s' = (sh', w')" by fastforce
  show ?thesis
  proof (cases "\<exists>acts. l = Processing acts")
    case True
    then obtain acts where l: "l = Processing acts" by blast
    with task s obtain a outer inner where w: "acts = a # outer" "bc_io_walk_process_directory env conc config i a (sh, w) = Some (inner, sh', w')"
      "l' = (if inner @ outer = [] then Directory_done (act_reader a) else Processing (inner @ outer))" by (blast elim: worker_cases)
    have "worker_amount f g l' = g (Processing acts) + sum_list (map f (inner @ outer))"
      using w(3) g(2) g(1) [of "inner @ outer" acts] by (auto simp: worker_amount_def)
    then have "total s' + worker_amount f g l' = (total (sh', w') + sum_list (map f inner)) + (g (Processing acts) + sum_list (map f outer))"
      using s by (simp add: ac_simps)
    also have "\<dots> = total s + worker_amount f g l" unfolding act [OF w(2)] using l w(1) s by (simp add: worker_amount_def ac_simps)
    finally show ?thesis .
  next
    case False
    then show ?thesis using rest task s by blast
  qed
qed

section \<open>The statistics\<close>

text \<open>The four counters, each less what it counts, and what an activation and a worker have open of it.\<close>

datatype ledger = Files | Skips | Directories | Errors

fun ledger_total :: "ledger \<Rightarrow> 'w sharing \<Rightarrow> size_t" where
  "ledger_total Files (sh, w) = files_visited (shared_stats sh) - tally is_file_visit (walk_calls w)"
| "ledger_total Skips (sh, w) = files_skipped (shared_stats sh) - tally is_rejection (walk_calls w)"
| "ledger_total Directories (sh, w) = directories_visited (shared_stats sh) - tally is_opening (trace w)"
| "ledger_total Errors (sh, w) = errors_encountered (shared_stats sh) - tally is_error_call (walk_calls w)"

fun ledger_at :: "ledger \<Rightarrow> place \<Rightarrow> size_t" where
  "ledger_at Files (Count_file _ e) = 1 - of_bool (entry_kind e = BC_IO_WALK_ENTRY_FILE)"
| "ledger_at Files (Call_visit _ e) = - of_bool (entry_kind e = BC_IO_WALK_ENTRY_FILE)"
| "ledger_at Skips Count_skipped = 1"
| "ledger_at Directories Count_directory = 1"
| "ledger_at Errors (Call_on_error _ _ _ _) = - 1"
| "ledger_at _ _ = 0"

fun ledger_of :: "ledger \<Rightarrow> walk_worker \<Rightarrow> size_t" where
  "ledger_of Errors Store_alloc_failed = - 1"
| "ledger_of Errors Call_alloc_error = - 1"
| "ledger_of _ _ = 0"

lemma quiet_calls:
  "stats_only w w' \<Longrightarrow> walk_calls w' = walk_calls w" "stats_only w w' \<Longrightarrow> tally is_opening (trace w') = tally is_opening (trace w)"
  "lists_only fd w w' \<Longrightarrow> walk_calls w' = walk_calls w" "lists_only fd w w' \<Longrightarrow> tally is_opening (trace w') = tally is_opening (trace w)"
proof -
  have "tally is_opening h = 0" if "\<forall>ev \<in> set h. \<not> is_opening ev" for h using that by (induction h) auto
  then show "stats_only w w' \<Longrightarrow> tally is_opening (trace w') = tally is_opening (trace w)"
    "lists_only fd w w' \<Longrightarrow> tally is_opening (trace w') = tally is_opening (trace w)"
    by (fastforce simp: stats_only_def lists_only_def)+
qed (auto simp: stats_only_def lists_only_def dest: walk_calls_more)

lemma process_ledger:
  assumes "bc_io_walk_process_directory env conc config i a (sh, w) = Some (inner, sh', w')" and "config_on_error config"
  shows "ledger_total k (sh', w') + sum_list (map (\<lambda>a. ledger_at k (act_place a)) inner) = ledger_total k (sh, w) + ledger_at k (act_place a)"
proof (cases "act_place a = Next_entry_of_reader")
  case True
  with assms(1) show ?thesis
    by (rule next_place) (use True in \<open>cases k; auto simp: reader_frame_def quiet_calls\<close>)
next
  case False
  then show ?thesis
    using assms
    by (cases "act_place a"; clarsimp simp: par_defs sys_open_def sys_close_def pool_allocate_def pool_free_def answer_def
        split: if_splits prod.splits option.splits sum.splits onward.splits;
      cases k; auto simp: quiet_calls dest!: resolve_entry_stats_only)
qed

lemma worker_ledger:
  assumes "config_on_error config" and "bc_io_walk_worker_task env conc config i l s = Some (l', s')"
  shows "ledger_total k s' + worker_amount (\<lambda>a. ledger_at k (act_place a)) (ledger_of k) l' =
    ledger_total k s + worker_amount (\<lambda>a. ledger_at k (act_place a)) (ledger_of k) l"
proof (rule lift_account [OF _ _ _ _ assms(2)])
  show "ledger_total k (sh', w') + sum_list (map (\<lambda>a. ledger_at k (act_place a)) inner) = ledger_total k (sh, w) + ledger_at k (act_place a)"
    if "bc_io_walk_process_directory env conc config i a (sh, w) = Some (inner, sh', w')" for a inner sh w sh' w'
    using process_ledger [OF that assms(1)] .
  show "ledger_of k (Processing acts) = ledger_of k (Processing acts')" "ledger_of k (Directory_done rd) = ledger_of k (Processing acts)"
    for acts acts' rd by (cases k; simp)+
  show "ledger_total k (sh', w') + worker_amount (\<lambda>a. ledger_at k (act_place a)) (ledger_of k) l' =
      ledger_total k (sh, w) + worker_amount (\<lambda>a. ledger_at k (act_place a)) (ledger_of k) l"
    if "\<nexists>acts. l = Processing acts" "bc_io_walk_worker_task env conc config i l (sh, w) = Some (l', sh', w')" for sh w l' sh' w'
    using that assms(1)
    by (cases l; clarsimp simp: task_defs par_defs pool_allocate_def pool_free_def answer_def
        split: if_splits prod.splits option.splits sum.splits; cases k; auto)
qed

interpretation ledgers: exact_account "bc_io_walk_worker_task env conc config" "\<lambda>_ _. config_on_error config" "ledger_total k"
  "worker_amount (\<lambda>a. ledger_at k (act_place a)) (ledger_of k)" for env conc config k
  by unfold_locales (auto intro: worker_ledger)

section \<open>Refused readers\<close>

text \<open>
  A reader that could not be allocated is reported, once: by the worker that has none, with the path of the root, or for a
  directory that was to be processed in place, with its path. In between, a refused allocation is open.
\<close>

fun alloc_report :: "walk_call \<Rightarrow> bool" where
  "alloc_report (Error_called _ stage _) \<longleftrightarrow> stage = ''dirent-reader-alloc''"
| "alloc_report _ \<longleftrightarrow> False"

fun reader_refused :: "event \<Rightarrow> bool" where
  "reader_refused (Ev_pool_allocate _ _ (Inl _)) \<longleftrightarrow> True"
| "reader_refused _ \<longleftrightarrow> False"

definition refused_total :: "'w sharing \<Rightarrow> int" where
  "refused_total = (\<lambda>(sh, w). int (length (filter reader_refused (trace w))) - int (length (filter alloc_report (walk_calls w))))"

definition refused_at :: "activation \<Rightarrow> int" where
  "refused_at a = (case act_place a of
     Count_error _ stage _ _ \<Rightarrow> - of_bool (stage = ''dirent-reader-alloc'')
   | Call_on_error _ stage _ _ \<Rightarrow> - of_bool (stage = ''dirent-reader-alloc'')
   | _ \<Rightarrow> 0)"

definition refused_of :: "walk_worker \<Rightarrow> int" where
  "refused_of l = - of_bool (l = Count_alloc_error \<or> l = Store_alloc_failed \<or> l = Call_alloc_error)"

lemmas refused_defs = refused_total_def refused_at_def refused_of_def

lemma quiet_refused:
  "stats_only w w' \<Longrightarrow> filter reader_refused (trace w') = filter reader_refused (trace w)"
  "lists_only fd w w' \<Longrightarrow> filter reader_refused (trace w') = filter reader_refused (trace w)"
  by (auto simp: stats_only_def lists_only_def filter_empty_conv) fastforce+

text \<open>The reader of a directory reports its errors under other names.\<close>

lemma begin_entry_stage:
  assumes "begin_entry env config a e h = Some b" and "act_place b = Count_error q st x n"
  shows "st \<noteq> ''dirent-reader-alloc''"
  using assms by (auto simp: begin_entry_def bc_io_walk_report_error_def bind_eq_Some_conv split: if_splits option.splits)

lemma next_stage:
  assumes "bc_io_walk_process_directory env conc config i a (sh, w) = Some (inner, sh', w')" and "act_place a = Next_entry_of_reader"
  shows "\<forall>b \<in> set inner. \<forall>q st x n. act_place b = Count_error q st x n \<longrightarrow> st \<noteq> ''dirent-reader-alloc''"
  by (rule process_next [OF assms]) (auto dest: begin_entry_stage split: next_result.splits)

lemma process_refused:
  assumes "bc_io_walk_process_directory env conc config i a (sh, w) = Some (inner, sh', w')" and "config_on_error config"
  shows "refused_total (sh', w') + sum_list (map refused_at inner) = refused_total (sh, w) + refused_at a"
proof (cases "act_place a = Next_entry_of_reader")
  case True
  note st = next_stage [OF assms(1) True]
  from assms(1) True show ?thesis
    by (rule next_place) (use True st in \<open>auto simp: reader_frame_def quiet_calls quiet_refused refused_defs\<close>)
next
  case False
  then show ?thesis
    using assms
    by (cases "act_place a"; clarsimp simp: par_defs sys_open_def sys_close_def pool_allocate_def pool_free_def answer_def
        split: if_splits prod.splits option.splits sum.splits onward.splits;
      auto simp: quiet_calls quiet_refused refused_defs dest!: resolve_entry_stats_only)
qed

lemma worker_refused:
  assumes "config_on_error config" and "bc_io_walk_worker_task env conc config i l s = Some (l', s')"
  shows "refused_total s' + worker_amount refused_at refused_of l' = refused_total s + worker_amount refused_at refused_of l"
proof (rule lift_account [OF _ _ _ _ assms(2)])
  show "refused_total (sh', w') + worker_amount refused_at refused_of l' = refused_total (sh, w) + worker_amount refused_at refused_of l"
    if "\<nexists>acts. l = Processing acts" "bc_io_walk_worker_task env conc config i l (sh, w) = Some (l', sh', w')" for sh w l' sh' w'
    using that assms(1)
    by (cases l; clarsimp simp: task_defs par_defs pool_allocate_def pool_free_def answer_def
        split: if_splits prod.splits option.splits sum.splits; auto simp: refused_defs)
qed (use process_refused assms(1) in \<open>auto simp: refused_of_def\<close>)

interpretation refused: exact_account "bc_io_walk_worker_task env conc config" "\<lambda>_ _. config_on_error config" refused_total
  "worker_amount refused_at refused_of" for env conc config
  by unfold_locales (auto intro: worker_refused)

section \<open>Outstanding directories\<close>

text \<open>
  The number of directories in the queue, and the directories counted as outstanding that are not there: the one a
  worker processes, and one it is about to push or failed to push.
\<close>

fun queue_change :: "queue_op \<Rightarrow> u32" where
  "queue_change (Pushed _ ok) = of_bool ok"
| "queue_change (Popped e) = - of_bool (e \<noteq> None)"
| "queue_change (Queue_made _) = 0"

definition queue_count :: "queue_op list \<Rightarrow> u32" where
  "queue_count ops = sum_list (map queue_change ops)"

definition open_pushes :: "activation \<Rightarrow> u32" where
  "open_pushes a = (case act_place a of Push_directory _ \<Rightarrow> - 1 | Sub_outstanding _ \<Rightarrow> - 1 | _ \<Rightarrow> 0)"

definition open_process :: "walk_worker \<Rightarrow> u32" where
  "open_process l = (case l of Processing _ \<Rightarrow> - 1 | Directory_done _ \<Rightarrow> - 1 | _ \<Rightarrow> 0)"

lemmas outstanding_defs = open_pushes_def open_process_def queue_count_def

lemma process_outstanding:
  assumes "bc_io_walk_process_directory env conc config i a (sh, w) = Some (inner, sh', w')"
  shows "outstanding_directory_count sh' - queue_count (directory_queue sh') + sum_list (map open_pushes inner) =
    outstanding_directory_count sh - queue_count (directory_queue sh) + open_pushes a"
proof (cases "act_place a = Next_entry_of_reader")
  case True
  with assms show ?thesis by (rule next_place) (use True in \<open>auto simp: outstanding_defs\<close>)
next
  case False
  then show ?thesis
    using assms
    by (cases "act_place a") (auto simp: par_defs outstanding_defs split: if_splits prod.splits option.splits onward.splits)
qed

lemma worker_outstanding:
  assumes "bc_io_walk_worker_task env conc config i l s = Some (l', s')"
  shows "(\<lambda>(sh, w). outstanding_directory_count sh - queue_count (directory_queue sh)) s' + worker_amount open_pushes open_process l' =
    (\<lambda>(sh, w). outstanding_directory_count sh - queue_count (directory_queue sh)) s + worker_amount open_pushes open_process l"
proof (rule lift_account [OF _ _ _ _ assms])
  show "(\<lambda>(sh, w). outstanding_directory_count sh - queue_count (directory_queue sh)) (sh', w') + worker_amount open_pushes open_process l' =
      (\<lambda>(sh, w). outstanding_directory_count sh - queue_count (directory_queue sh)) (sh, w) + worker_amount open_pushes open_process l"
    if "\<nexists>acts. l = Processing acts" "bc_io_walk_worker_task env conc config i l (sh, w) = Some (l', sh', w')" for sh w l' sh' w'
    using that
    by (cases l) (auto simp: task_defs par_defs outstanding_defs split: if_splits prod.splits option.splits)
qed (use process_outstanding in \<open>auto simp: open_process_def\<close>)

interpretation outstanding: exact_account "bc_io_walk_worker_task env conc config" "\<lambda>_ _. True"
  "\<lambda>(sh, w). outstanding_directory_count sh - queue_count (directory_queue sh)" "worker_amount open_pushes open_process" for env conc config
  by unfold_locales (auto dest: worker_outstanding)

end
