(* ===== verification/IO_Walk_Par_Inv.thy ===== *)
theory IO_Walk_Par_Inv
  imports IO_Walk_Par_Count
begin

text \<open>
  The invariant of the parallel walk: where the directories in the queue and in the hands of the workers lie, which
  descriptors the workers hold (no two the same one), and where their readers stand in the listings.
\<close>

section \<open>The queue\<close>

text \<open>What a queue holds after the operations made on it.\<close>

fun queue_effect :: "bc_io_walk_queue_entry multiset \<Rightarrow> queue_op \<Rightarrow> bc_io_walk_queue_entry multiset" where
  "queue_effect M (Pushed e ok) = (if ok then add_mset e M else M)"
| "queue_effect M (Popped (Some e)) = M - {#e#}"
| "queue_effect M _ = M"

definition pending :: "queue_op list \<Rightarrow> bc_io_walk_queue_entry multiset" where
  "pending ops = foldl queue_effect {#} ops"

lemma pending_simps [simp]: "pending [] = {#}" "pending (ops @ [op]) = queue_effect (pending ops) op"
  by (simp_all add: pending_def)

fun queue_capacity :: "queue_op list \<Rightarrow> nat" where
  "queue_capacity (Queue_made n # _) = unat n"
| "queue_capacity _ = 0"

text \<open>
  What the walk relies on in the queue of bc-concurrency: an entry that is popped was pushed and not popped before, only an empty queue
  has nothing to pop, and the queue never holds more entries than its capacity.
\<close>

definition queue_ok :: "bc_concurrency \<Rightarrow> bool" where
  "queue_ok conc \<longleftrightarrow>
     (\<forall>ops e. conc_queue_pop conc ops = Some e \<longrightarrow> e \<in># pending ops) \<and>
     (\<forall>ops. conc_queue_pop conc ops = None \<longrightarrow> pending ops = {#}) \<and>
     (\<forall>ops e. conc_queue_push conc ops e \<longrightarrow> size (pending ops) < queue_capacity ops)"

lemma queue_okD:
  assumes "queue_ok conc"
  shows "conc_queue_pop conc ops = Some e \<Longrightarrow> e \<in># pending ops" and "conc_queue_pop conc ops = None \<Longrightarrow> pending ops = {#}"
    and "conc_queue_push conc ops e \<Longrightarrow> size (pending ops) < queue_capacity ops"
  using assms by (auto simp: queue_ok_def)

section \<open>The invariant\<close>

definition below :: "bc_io_walk_config \<Rightarrow> bytes \<Rightarrow> bytes \<Rightarrow> size_t \<Rightarrow> bool" where
  "below config root p dep \<longleftrightarrow> (\<exists>names. p = foldl joined root names \<and> (\<forall>n \<in> set names. name_ok config n) \<and> dep = of_nat (length names))"

definition queued_at :: "bc_io_walk_queue_entry \<Rightarrow> bytes \<Rightarrow> size_t \<Rightarrow> bool" where
  "queued_at e p dep \<longleftrightarrow> holds_path (queue_absolute_path e) (queue_absolute_path_length e) p \<and> queue_depth e = dep"

text \<open>An entry of the directory \<open>p\<close> with the buffer of its path.\<close>

definition entry_at :: "bc_io_walk_config \<Rightarrow> bytes \<Rightarrow> size_t \<Rightarrow> bytes \<Rightarrow> bc_io_walk_entry \<Rightarrow> bool" where
  "entry_at config p dep c e \<longleftrightarrow> depth e = dep + 1 \<and> absolute_path_length e = of_nat (length (absolute_path e)) \<and>
     (\<exists>n. name_ok config n \<and> absolute_path e = joined p n \<and> holds_path c (absolute_path_length e) (joined p n))"

definition place_ok :: "bc_io_walk_config \<Rightarrow> bytes \<Rightarrow> size_t \<Rightarrow> bc_io_dirent_reader \<Rightarrow> place \<Rightarrow> bool" where
  "place_ok config p dep reader place \<longleftrightarrow>
     (let sub_ok = (\<lambda>sub. \<exists>n. name_ok config n \<and> queued_at sub (joined p n) (dep + 1));
          error_ok = (\<lambda>q. \<exists>names. q = foldl joined p names \<and> (\<forall>n \<in> set names. name_ok config n))
      in case place of
        Stat_entry e c l \<Rightarrow> \<exists>d. entry_is reader e d \<and> name_ok config (dirent_name d) \<and> holds_path c l (joined p (dirent_name d))
      | Ask_filter c e \<Rightarrow> entry_at config p dep c e
      | Count_file c e \<Rightarrow> entry_at config p dep c e \<and> entry_kind e = BC_IO_WALK_ENTRY_FILE
      | Call_visit c e \<Rightarrow> entry_at config p dep c e \<and>
          (entry_kind e = BC_IO_WALK_ENTRY_FILE \<or> entry_kind e = BC_IO_WALK_ENTRY_DIRECTORY)
      | Ask_descend c e \<Rightarrow> entry_at config p dep c e \<and> entry_kind e = BC_IO_WALK_ENTRY_DIRECTORY
      | Add_outstanding sub \<Rightarrow> sub_ok sub
      | Push_directory sub \<Rightarrow> sub_ok sub
      | Sub_outstanding sub \<Rightarrow> sub_ok sub
      | Create_fallback sub \<Rightarrow> sub_ok sub
      | Count_error q _ _ _ \<Rightarrow> error_ok q
      | Call_on_error q _ _ _ \<Rightarrow> error_ok q
      | _ \<Rightarrow> True)"

text \<open>The descriptor of an activation, and whether its reader was set up for it.\<close>

definition act_fds :: "activation \<Rightarrow> int list" where
  "act_fds a = (if open_place (act_place a) then [act_fd a] else [])"

definition listing_place :: "place \<Rightarrow> bool" where
  "listing_place place \<longleftrightarrow> open_place place \<and> place \<noteq> Count_directory"

definition act_ok :: "bc_io_walk_config \<Rightarrow> bytes \<Rightarrow> nat \<Rightarrow> activation \<Rightarrow> 'w walk_world_scheme \<Rightarrow> bool" where
  "act_ok config root B a w \<longleftrightarrow> (\<exists>p. holds_path (act_path a) (act_path_length a) p \<and> below config root p (act_depth a) \<and>
     length (reader_buffer (act_reader a)) = 8192 \<and>
     (\<forall>fd \<in> set (act_fds a). \<exists>k. listing fd (trace w) = Some (p, k) \<and> (act_place a = Count_directory \<longrightarrow> k = 0)) \<and>
     (listing_place (act_place a) \<longrightarrow> reader_dir_fd (act_reader a) = act_fd a \<and> (\<exists>n. reads_left B (act_reader a) w n)) \<and>
     place_ok config p (act_depth a) (act_reader a) (act_place a))"

definition waiting :: "activation \<Rightarrow> bool" where
  "waiting a \<longleftrightarrow> (\<exists>m rd. act_place a = Destroy_fallback m rd)"

definition reader_ok :: "bc_io_dirent_reader \<Rightarrow> bool" where
  "reader_ok rd \<longleftrightarrow> length (reader_buffer rd) = 8192"

fun worker_ok :: "bc_io_walk_config \<Rightarrow> bytes \<Rightarrow> nat \<Rightarrow> 'w walk_world_scheme \<Rightarrow> walk_worker \<Rightarrow> bool" where
  "worker_ok config root B w (Check_stop reader) \<longleftrightarrow> reader_ok reader"
| "worker_ok config root B w (Check_failed reader) \<longleftrightarrow> reader_ok reader"
| "worker_ok config root B w (Pop_directory reader) \<longleftrightarrow> reader_ok reader"
| "worker_ok config root B w (Processing acts) \<longleftrightarrow> acts \<noteq> [] \<and> (\<forall>a \<in> set acts. act_ok config root B a w) \<and> (\<forall>a \<in> set (tl acts). waiting a)"
| "worker_ok config root B w (Directory_done reader) \<longleftrightarrow> reader_ok reader"
| "worker_ok config root B w (Load_outstanding reader) \<longleftrightarrow> reader_ok reader"
| "worker_ok config root B w (Destroy_reader reader) \<longleftrightarrow> reader_ok reader"
| "worker_ok config root B w _ \<longleftrightarrow> True"

fun worker_fds :: "walk_worker \<Rightarrow> int list" where
  "worker_fds (Processing acts) = concat (map act_fds acts)"
| "worker_fds _ = []"

text \<open>What the environment and the configuration provide.\<close>

definition par_env_ok :: "io_env \<Rightarrow> bc_concurrency \<Rightarrow> bc_io_walk_config \<Rightarrow> bytes \<Rightarrow> nat \<Rightarrow> bool" where
  "par_env_ok env conc config root B \<longleftrightarrow> bc_core_ok env \<and> getdents_wellformed env \<and> listings_bounded B env \<and> descriptors_fresh env \<and>
     queue_ok conc \<and> config_ok config root"

definition queue_entries_ok :: "bc_io_walk_config \<Rightarrow> bytes \<Rightarrow> queue_op list \<Rightarrow> bool" where
  "queue_entries_ok config root ops \<longleftrightarrow> (\<forall>e \<in># pending ops. \<exists>p. queued_at e p (queue_depth e) \<and> below config root p (queue_depth e))"

definition calls_ok :: "bc_io_walk_config \<Rightarrow> bytes \<Rightarrow> walk_call list \<Rightarrow> walk_call list \<Rightarrow> bool" where
  "calls_ok config root cs0 calls \<longleftrightarrow> (\<exists>cs. calls = cs0 @ cs \<and> (\<forall>c \<in> set cs. call_ok config root 0 c))"

definition par_ok :: "io_env \<Rightarrow> bc_concurrency \<Rightarrow> bc_io_walk_config \<Rightarrow> bytes \<Rightarrow> nat \<Rightarrow> walk_call list \<Rightarrow> walk_worker list \<Rightarrow>
    'w sharing \<Rightarrow> bool" where
  "par_ok env conc config root B cs0 ls = (\<lambda>(sh, w). par_env_ok env conc config root B \<and>
     (\<forall>l \<in> set ls. worker_ok config root B w l) \<and> distinct (concat (map worker_fds ls)) \<and>
     queue_entries_ok config root (directory_queue sh) \<and> calls_ok config root cs0 (walk_calls w))"

section \<open>Actions of an activation\<close>

lemma below_child: "below config root p dep \<Longrightarrow> name_ok config n \<Longrightarrow> below config root (joined p n) (dep + 1)"
  unfolding below_def by (elim exE conjE, rule_tac x = "names @ [n]" in exI) auto

lemma calls_ok_append: "calls_ok config root cs0 calls \<Longrightarrow> (\<forall>c \<in> set cs. call_ok config root 0 c) \<Longrightarrow> calls_ok config root cs0 (calls @ cs)"
  unfolding calls_ok_def by (elim exE conjE, rule_tac x = "csa @ cs" in exI) auto

lemma entry_at_located:
  assumes "entry_at config p dep c e" and "below config root p dep"
  shows "located config root 0 e"
proof -
  obtain n where n: "name_ok config n" "absolute_path e = joined p n" "holds_path c (absolute_path_length e) (joined p n)"
    using assms(1) by (auto simp: entry_at_def)
  obtain names where names: "p = foldl joined root names" "\<forall>n \<in> set names. name_ok config n" "dep = of_nat (length names)"
    using assms(2) by (auto simp: below_def)
  show ?thesis
    unfolding located_def using n names assms(1)
    by (auto simp: entry_at_def holds_path_def intro!: exI [of _ "names @ [n]"])
qed

lemma queue_entry_for_holds:
  assumes "bc_core_ok env" and "holds_path c len q"
  obtains sub where "queue_entry_for env c len dep = Some sub" and "queued_at sub q dep"
proof -
  have q: "take (unat len) c = q" "unat len = length q" "length q < 4096" using holds_pathD [OF assms(2)] assms(2) by (auto simp: holds_path_def)
  then have lt: "len < BC_IO_MAX_PATH_LENGTH" by (simp add: BC_IO_MAX_PATH_LENGTH_def word_less_nat_alt)
  let ?buf = "(overwrite 0 q (replicate 4096 0))[length q := (0 :: u8)]"
  obtain m where "4096 - length q = Suc m" using q(3) by (cases "4096 - length q") auto
  then have "?buf = q @ 0 # replicate m 0" by (simp add: overwrite_def list_update_append)
  then have "holds_path ?buf len q" using assms(2) by (auto simp: holds_path_def)
  moreover have "queue_entry_for env c len dep = Some \<lparr>queue_absolute_path = ?buf, queue_absolute_path_length = len, queue_depth = dep\<rparr>"
    using lt q by (simp add: queue_entry_for_def Let_def bc_core_okD(1,3) [OF assms(1)] sizeof_bc_io_walk_queue_entry_def BC_IO_MAX_PATH_LENGTH_def)
  ultimately show thesis by (intro that) (auto simp: queued_at_def)
qed

text \<open>The invariant of an activation only depends on the listing of its own descriptor.\<close>

lemma act_ok_cong:
  assumes "act_ok config root B a w" and "\<forall>fd \<in> set (act_fds a). listing fd (trace w') = listing fd (trace w)"
  shows "act_ok config root B a w'"
proof -
  have "reads_left B (act_reader a) w' n" if "reads_left B (act_reader a) w n" "listing_place (act_place a)" "reader_dir_fd (act_reader a) = act_fd a" for n
    using that assms(2) reads_left_cong [of "act_reader a" w' w] by (simp add: listing_place_def act_fds_def)
  then show ?thesis using assms unfolding act_ok_def by fastforce
qed

lemma act_ok_go:
  assumes a: "act_ok config root B a w" and "\<And>fd. listing fd (trace w') = listing fd (trace w)"
    and pl: "\<And>p. holds_path (act_path a) (act_path_length a) p \<Longrightarrow> below config root p (act_depth a) \<Longrightarrow>
      place_ok config p (act_depth a) (act_reader a) (act_place a) \<Longrightarrow> place_ok config p (act_depth a) (act_reader a) pl"
    and o: "open_place pl \<longrightarrow> listing_place (act_place a)" and c: "pl \<noteq> Count_directory"
  shows "act_ok config root B (a\<lparr>act_place := pl\<rparr>) w'"
proof (rule act_ok_cong)
  show "act_ok config root B (a\<lparr>act_place := pl\<rparr>) w"
  proof -
    obtain p where p: "holds_path (act_path a) (act_path_length a) p" "below config root p (act_depth a)"
      "length (reader_buffer (act_reader a)) = 8192" "place_ok config p (act_depth a) (act_reader a) (act_place a)"
      "\<forall>fd \<in> set (act_fds a). \<exists>k. listing fd (trace w) = Some (p, k)"
      "listing_place (act_place a) \<longrightarrow> reader_dir_fd (act_reader a) = act_fd a \<and> (\<exists>n. reads_left B (act_reader a) w n)"
      using a unfolding act_ok_def by blast
    then show ?thesis
      using pl [OF p(1,2,4)] o c unfolding act_ok_def
      by (intro exI [of _ p]) (auto simp: act_fds_def listing_place_def split: if_splits)
  qed
qed (use assms in auto)

text \<open>What a whole action of an activation guarantees.\<close>

definition act_step_ok :: "bc_io_walk_config \<Rightarrow> bytes \<Rightarrow> nat \<Rightarrow> walk_call list \<Rightarrow> activation \<Rightarrow> 'w walk_world_scheme \<Rightarrow> activation list \<Rightarrow>
    'w sharing \<Rightarrow> bool" where
  "act_step_ok config root B cs0 a w inner = (\<lambda>(sh', w').
     (\<forall>b \<in> set inner. act_ok config root B b w') \<and> (\<forall>b \<in> set (tl inner). waiting b) \<and>
     queue_entries_ok config root (directory_queue sh') \<and> calls_ok config root cs0 (walk_calls w') \<and>
     untouched (set (act_fds a)) (trace w) (trace w') \<and> distinct (concat (map act_fds inner)) \<and>
     (\<forall>fd \<in> set (concat (map act_fds inner)). fd \<in> set (act_fds a) \<or> listing fd (trace w) = None))"

lemma act_step_go:
  assumes "act_ok config root B a w" and "\<And>fd. listing fd (trace w') = listing fd (trace w)"
    and "\<And>p. holds_path (act_path a) (act_path_length a) p \<Longrightarrow> below config root p (act_depth a) \<Longrightarrow>
      place_ok config p (act_depth a) (act_reader a) (act_place a) \<Longrightarrow> place_ok config p (act_depth a) (act_reader a) pl"
    and "open_place pl \<longrightarrow> listing_place (act_place a)" and "pl \<noteq> Count_directory"
    and "queue_entries_ok config root (directory_queue sh')" and "calls_ok config root cs0 (walk_calls w')"
  shows "act_step_ok config root B cs0 a w [a\<lparr>act_place := pl\<rparr>] (sh', w')"
  using act_ok_go [OF assms(1-5)] assms(2,4,6,7)
  by (auto simp: act_step_ok_def untouched_def act_fds_def listing_place_def)

lemma open_flags_directory_flags:
  "(let open_flags = O_RDONLY OR O_DIRECTORY OR O_CLOEXEC
    in if \<not> config_follow_symlinks config then open_flags OR O_NOFOLLOW else open_flags) = directory_flags config"
  by (simp add: directory_flags_def)

lemma open_directory_ok:
  assumes fresh: "descriptors_fresh env" and a: "act_ok config root B a w" "act_place a = Open_directory"
    and q: "queue_entries_ok config root (directory_queue sh)" and c: "calls_ok config root cs0 (walk_calls w)"
  shows "\<exists>inner sh' w'. bc_io_walk_process_directory env conc config i a (sh, w) = Some (inner, sh', w') \<and>
    act_step_ok config root B cs0 a w inner (sh', w')"
proof -
  obtain p where p: "holds_path (act_path a) (act_path_length a) p" "below config root p (act_depth a)"
    "length (reader_buffer (act_reader a)) = 8192" using a by (auto simp: act_ok_def)
  obtain fd w1 where op: "sys_open env p (directory_flags config) 0 w = (fd, w1)" by fastforce
  have step: "bc_io_walk_process_directory env conc config i a (sh, w) = Some (if fd < 0
      then [bc_io_walk_report_error p ''open'' (errno w1) Then_return a] else [a\<lparr>act_fd := fd, act_place := Count_directory\<rparr>], sh, w1)"
    using op a(2) holds_pathD(2) [OF p(1)] by (auto simp: bc_io_walk_process_directory_def Let_def directory_flags_def)
  let ?a = "env_open env (trace w) p (directory_flags config) 0"
  have w1: "trace w1 = trace w @ [Ev_open p (directory_flags config) 0 ?a]" "walk_calls w1 = walk_calls w"
    "fd = (case ?a of Inl _ \<Rightarrow> -1 | Inr fd \<Rightarrow> int fd)"
    using op by (auto simp: sys_open_def Let_def answer_def split: sum.splits)
  show ?thesis
  proof (cases ?a)
    case (Inl e)
    have "place_ok config p (act_depth a) (act_reader a) (Count_error p ''open'' (errno w1) Then_return)"
      by (auto simp: place_ok_def intro!: exI [of _ "[]"])
    then have "act_step_ok config root B cs0 a w [a\<lparr>act_place := Count_error p ''open'' (errno w1) Then_return\<rparr>] (sh, w1)"
      using a q c w1 Inl holds_pathD(2) [OF p(1)] by (intro act_step_go) (auto dest!: holds_pathD(2))
    then show ?thesis using step w1(3) Inl by (simp add: bc_io_walk_report_error_def)
  next
    case (Inr k)
    then have fd: "fd = int k" "listing fd (trace w) = None" using w1(3) fresh by (auto simp: descriptors_fresh_def)
    have "listing fd (trace w1) = Some (p, 0)" using w1(1) Inr fd(1) by simp
    then have "act_ok config root B (a\<lparr>act_fd := fd, act_place := Count_directory\<rparr>) w1"
      using p by (auto simp: act_ok_def act_fds_def listing_place_def place_ok_def intro!: exI [of _ p])
    moreover have "untouched {} (trace w) (trace w1)" using w1(1) Inr fd by (auto simp: untouched_def)
    ultimately have "act_step_ok config root B cs0 a w [a\<lparr>act_fd := fd, act_place := Count_directory\<rparr>] (sh, w1)"
      using q c w1(2) fd(2) a(2) by (auto simp: act_step_ok_def act_fds_def)
    then show ?thesis using step fd(1) by simp
  qed
qed

lemma count_directory_ok:
  assumes a: "act_ok config root B a w" "act_place a = Count_directory"
    and q: "queue_entries_ok config root (directory_queue sh)" and c: "calls_ok config root cs0 (walk_calls w)"
  shows "\<exists>inner sh' w'. bc_io_walk_process_directory env conc config i a (sh, w) = Some (inner, sh', w') \<and>
    act_step_ok config root B cs0 a w inner (sh', w')"
proof -
  let ?b = "a\<lparr>act_reader := bc_io_dirent_reader_reset (act_reader a) (act_fd a), act_place := Load_failed_again\<rparr>"
  let ?sh = "count_stats (\<lambda>st. st\<lparr>directories_visited := directories_visited st + 1\<rparr>) sh"
  obtain p where p: "holds_path (act_path a) (act_path_length a) p" "below config root p (act_depth a)"
    "length (reader_buffer (act_reader a)) = 8192" "listing (act_fd a) (trace w) = Some (p, 0)"
    using a by (auto simp: act_ok_def act_fds_def)
  have "reads_left B (act_reader ?b) w (B * 8193)"
    using p(3,4) by (auto simp: reads_left_def buffered_def bc_io_dirent_reader_reset_def intro!: exI [of _ "[]"])
  then have "act_ok config root B ?b w"
    using p by (auto simp: act_ok_def act_fds_def listing_place_def place_ok_def bc_io_dirent_reader_reset_def intro!: exI [of _ p])
  then have "act_step_ok config root B cs0 a w [?b] (?sh, w)"
    using q c a(2) by (auto simp: act_step_ok_def act_fds_def count_stats_def)
  then show ?thesis using a(2) by (simp add: bc_io_walk_process_directory_def)
qed

lemma begin_entry_eq:
  assumes core: "bc_core_ok env" and dir: "holds_path (act_path a) (act_path_length a) p" and e: "entry_is (act_reader a) e d"
    and q: "q = joined p (dirent_name d)" and c: "c = overwrite 0 (q @ [0]) (fresh_memory env h BC_IO_MAX_PATH_LENGTH)"
  shows "begin_entry env config a e h = Some (a\<lparr>act_place :=
    (if hd (dirent_name d) = 0x2E \<and> \<not> config_include_hidden config then Load_failed_again
     else if \<not> length q < 4096 then Count_error p ''path-too-long'' ENAMETOOLONG Then_continue
     else Stat_entry e c (of_nat (length q)))\<rparr>)"
  unfolding begin_entry_def entry_isD(4) [OF e] child_path [OF core dir e, of h]
  using holds_pathD(2) [OF dir] by (simp add: q c bc_io_walk_report_error_def)

lemma next_entry_ok:
  assumes env: "par_env_ok env conc config root B" and a: "act_ok config root B a w" "act_place a = Next_entry_of_reader"
    and q: "queue_entries_ok config root (directory_queue sh)" and c: "calls_ok config root cs0 (walk_calls w)"
  shows "\<exists>inner sh' w'. bc_io_walk_process_directory env conc config i a (sh, w) = Some (inner, sh', w') \<and>
    act_step_ok config root B cs0 a w inner (sh', w')"
proof -
  have h: "bc_core_ok env" "getdents_wellformed env" "listings_bounded B env" using env by (simp_all add: par_env_ok_def)
  obtain p n where p: "holds_path (act_path a) (act_path_length a) p" "below config root p (act_depth a)"
    "length (reader_buffer (act_reader a)) = 8192" "\<exists>k. listing (act_fd a) (trace w) = Some (p, k)"
    "reader_dir_fd (act_reader a) = act_fd a" "reads_left B (act_reader a) w n"
    using a by (auto simp: act_ok_def act_fds_def listing_place_def)
  from next_total [OF h p(6)] obtain res rd w' m where
    n: "bc_io_dirent_reader_next env (act_reader a) w = Some (res, rd, w')" "reads_left B rd w' m"
      "\<And>e. res = Next_entry e \<Longrightarrow> m < n \<and> (\<exists>d. entry_is rd e d \<and> \<not> dot_entry d)" by blast
  note fr = next_frame [OF n(1)]
  have rd: "reader_dir_fd rd = act_fd a" "lists_only (act_fd a) w w'" "length (reader_buffer rd) = 8192" "walk_calls w' = walk_calls w"
    using fr p(5) n(2) by (auto simp: reader_frame_def reads_left_def buffered_def quiet_calls)
  have l: "\<exists>k. listing (act_fd a) (trace w') = Some (p, k)"
    using rd(2) p(4) getdents_effect(3) by (fastforce simp: lists_only_def listing_append)
  have ut: "untouched {act_fd a} (trace w) (trace w')" by (rule lists_only_effect [OF rd(2)]) (auto simp: untouched_def)
  have ok: "act_step_ok config root B cs0 a w [a\<lparr>act_reader := rd, act_place := pl\<rparr>] (sh, w')"
    if "place_ok config p (act_depth a) rd pl" "open_place pl" "pl \<noteq> Count_directory" for pl
  proof -
    have "act_ok config root B (a\<lparr>act_reader := rd, act_place := pl\<rparr>) w'"
      using p(1,2) rd l n(2) that by (auto simp: act_ok_def act_fds_def listing_place_def intro!: exI [of _ p])
    then show ?thesis using q c rd(4) ut that(2) a(2) by (auto simp: act_step_ok_def act_fds_def)
  qed
  have "\<exists>pl. bc_io_walk_process_directory env conc config i a (sh, w) = Some ([a\<lparr>act_reader := rd, act_place := pl\<rparr>], sh, w') \<and>
    place_ok config p (act_depth a) rd pl \<and> open_place pl \<and> pl \<noteq> Count_directory"
  proof (cases res)
    case (Next_entry e)
    then obtain d where d: "entry_is rd e d" "\<not> dot_entry d" using n(3) by blast
    have dok: "dirent_ok d" using d(1) by (simp add: entry_is_def)
    let ?a = "a\<lparr>act_reader := rd\<rparr>" and ?q = "joined p (dirent_name d)"
    have "begin_entry env config ?a e (trace w') = Some (?a\<lparr>act_place :=
      (if hd (dirent_name d) = 0x2E \<and> \<not> config_include_hidden config then Load_failed_again
       else if \<not> length ?q < 4096 then Count_error p ''path-too-long'' ENAMETOOLONG Then_continue
       else Stat_entry e (overwrite 0 (?q @ [0]) (fresh_memory env (trace w') BC_IO_MAX_PATH_LENGTH)) (of_nat (length ?q)))\<rparr>)"
      by (rule begin_entry_eq [OF h(1)]) (use p(1) d(1) in simp_all)
    moreover have "place_ok config p (act_depth a) rd (Stat_entry e (overwrite 0 (?q @ [0]) mem) (of_nat (length ?q)))"
      if "\<not> (hd (dirent_name d) = 0x2E \<and> \<not> config_include_hidden config)" "length ?q < 4096" for mem
      using that d dok dirent_okD(1,2) [OF dok] child_holds_path [OF p(1) dok that(2), of mem]
      unfolding place_ok_def Let_def place.case by (intro exI [of _ d]) (auto simp: name_ok_def dot_entry_def)
    moreover have "place_ok config p (act_depth a) rd (Count_error p ''path-too-long'' ENAMETOOLONG Then_continue)"
      "place_ok config p (act_depth a) rd Load_failed_again"
      by (auto simp: place_ok_def intro!: exI [of _ "[]"])
    ultimately show ?thesis
      using n(1) Next_entry a(2) by (auto simp: bc_io_walk_process_directory_def)
  next
    case Next_failed
    have "place_ok config p (act_depth a) rd (Count_error p ''getdents64'' x Then_break)" for x
      by (auto simp: place_ok_def intro!: exI [of _ "[]"])
    then show ?thesis
      using n(1) Next_failed a(2) holds_pathD(2) [OF p(1)] by (auto simp: bc_io_walk_process_directory_def bc_io_walk_report_error_def)
  next
    case Next_end
    then show ?thesis using n(1) a(2) by (auto simp: bc_io_walk_process_directory_def place_ok_def)
  qed
  then show ?thesis using ok by blast
qed

lemma create_fallback_ok:
  assumes env: "par_env_ok env conc config root B" and a: "act_ok config root B a w" "act_place a = Create_fallback sub"
    and q: "queue_entries_ok config root (directory_queue sh)" and c: "calls_ok config root cs0 (walk_calls w)"
  shows "\<exists>inner sh' w'. bc_io_walk_process_directory env conc config i a (sh, w) = Some (inner, sh', w') \<and>
    act_step_ok config root B cs0 a w inner (sh', w')"
proof -
  let ?m = "task_memory conc config i"
  obtain p n where p: "below config root p (act_depth a)" and n: "name_ok config n" "queued_at sub (joined p n) (act_depth a + 1)"
    "holds_path (act_path a) (act_path_length a) p"
    using a by (auto simp: act_ok_def place_ok_def)
  obtain cr w1 where cr: "bc_io_dirent_reader_create env ?m (-1) w = (cr, w1)" by fastforce
  have l: "listing fd (trace w1) = listing fd (trace w)" and cl: "walk_calls w1 = walk_calls w" for fd
    using cr by (auto simp: bc_io_dirent_reader_create_def pool_allocate_def answer_def split: sum.splits)
  have sub: "holds_path (queue_absolute_path sub) (queue_absolute_path_length sub) (joined p n)" "queue_depth sub = act_depth a + 1"
    using n(2) by (simp_all add: queued_at_def)
  show ?thesis
  proof (cases cr)
    case None
    have "place_ok config p' (act_depth a) (act_reader a) (Count_error (joined p n) ''dirent-reader-alloc'' ENOMEM Then_continue)"
      if "holds_path (act_path a) (act_path_length a) p'" for p'
    proof -
      have "p' = p" using that n(3) holds_pathD(2) by metis
      then show ?thesis using n(1) by (auto simp: place_ok_def intro!: exI [of _ "[n]"])
    qed
    then have "act_step_ok config root B cs0 a w [a\<lparr>act_place := Count_error (joined p n) ''dirent-reader-alloc'' ENOMEM Then_continue\<rparr>] (sh, w1)"
      using a q c l cl by (intro act_step_go) (auto simp: listing_place_def)
    then show ?thesis
      using cr None a(2) holds_pathD(2) [OF sub(1)]
      by (simp add: bc_io_walk_process_directory_def bc_io_walk_report_error_def Let_def)
  next
    case (Some rd)
    have "length (reader_buffer rd) = 8192"
      using cr Some by (auto simp: bc_io_dirent_reader_create_def pool_allocate_def answer_def BC_IO_DIRENT_READER_BUFFER_SIZE_def
          split: sum.splits)
    then have "act_ok config root B (start_activation rd sub) w1"
      using sub below_child [OF p n(1)]
      by (auto simp: act_ok_def start_activation_def act_fds_def listing_place_def place_ok_def intro!: exI [of _ "joined p n"])
    moreover have "act_ok config root B (a\<lparr>act_place := Destroy_fallback ?m rd\<rparr>) w1"
      using a l by (intro act_ok_go) (auto simp: listing_place_def place_ok_def)
    ultimately have "act_step_ok config root B cs0 a w [start_activation rd sub, a\<lparr>act_place := Destroy_fallback ?m rd\<rparr>] (sh, w1)"
      using q c l cl a(2) by (auto simp: act_step_ok_def waiting_def untouched_def act_fds_def start_activation_def)
    then show ?thesis using cr Some a(2) by (simp add: bc_io_walk_process_directory_def Let_def)
  qed
qed

lemma call_on_error_ok:
  assumes a: "act_ok config root B a w" "act_place a = Call_on_error qp st x next"
    and q: "queue_entries_ok config root (directory_queue sh)" and c: "calls_ok config root cs0 (walk_calls w)"
  shows "\<exists>inner sh' w'. bc_io_walk_process_directory env conc config i a (sh, w) = Some (inner, sh', w') \<and>
    act_step_ok config root B cs0 a w inner (sh', w')"
proof -
  obtain p names where p: "below config root p (act_depth a)" "qp = foldl joined p names" "\<forall>n \<in> set names. name_ok config n"
    using a by (auto simp: act_ok_def place_ok_def)
  obtain names' where "p = foldl joined root names'" "\<forall>n \<in> set names'. name_ok config n" using p(1) by (auto simp: below_def)
  then have "call_ok config root 0 (Error_called qp st x)" using p(2,3) by (auto intro!: exI [of _ "names' @ names"])
  then have "calls_ok config root cs0 (walk_calls (tell_error config qp st x w))"
    using c calls_ok_append [OF c, of "[Error_called qp st x]"] by (auto simp: tell_error_def)
  then have "act_step_ok config root B cs0 a w [a\<lparr>act_place := place_after next\<rparr>] (sh, tell_error config qp st x w)"
    using a q by (intro act_step_go) (auto simp: tell_error_def listing_place_def place_after_def place_ok_def split: onward.splits)
  then show ?thesis using a(2) by (simp add: bc_io_walk_process_directory_def)
qed

lemma callback_ok:
  assumes env: "par_env_ok env conc config root B" and a: "act_ok config root B a w"
    and pl: "act_place a = Ask_filter ch e \<or> act_place a = Call_visit ch e \<or> act_place a = Ask_descend ch e"
    and q: "queue_entries_ok config root (directory_queue sh)" and c: "calls_ok config root cs0 (walk_calls w)"
  shows "\<exists>inner sh' w'. bc_io_walk_process_directory env conc config i a (sh, w) = Some (inner, sh', w') \<and>
    act_step_ok config root B cs0 a w inner (sh', w')"
proof -
  have env': "bc_core_ok env" "config_visit config \<noteq> None" using env by (simp_all add: par_env_ok_def config_ok_def)
  obtain p where p: "holds_path (act_path a) (act_path_length a) p" "below config root p (act_depth a)"
    and e: "entry_at config p (act_depth a) ch e" using a pl by (auto simp: act_ok_def place_ok_def)
  note loc = entry_at_located [OF e p(2)]
  have same: "p' = p" if "holds_path (act_path a) (act_path_length a) p'" for p' using that p(1) holds_pathD(2) by metis
  have go: "act_step_ok config root B cs0 a w [a\<lparr>act_place := pl'\<rparr>] (sh, w')"
    if "place_ok config p (act_depth a) (act_reader a) pl'" "open_place pl'" "pl' \<noteq> Count_directory" "trace w' = trace w"
      "walk_calls w' = walk_calls w @ cs" "\<forall>c \<in> set cs. call_ok config root 0 c" for pl' w' cs
    using a q that calls_ok_append [OF c that(6)] pl same
    by (intro act_step_go) (auto simp: listing_place_def)
  from pl show ?thesis
  proof (elim disjE)
    assume pl: "act_place a = Ask_filter ch e"
    obtain ok w1 where f: "bc_io_walk_entry_passes_filter config e w = (ok, w1)" by fastforce
    then have w1: "trace w1 = trace w" "walk_calls w1 = walk_calls w @ (if config_filter config = None then [] else [Filter_called e ok])"
      by (auto simp: bc_io_walk_entry_passes_filter_def Let_def split: option.splits)
    let ?pl = "if \<not> ok then Count_skipped else if entry_kind e = BC_IO_WALK_ENTRY_FILE then Count_file ch e
      else if entry_kind e = BC_IO_WALK_ENTRY_DIRECTORY then Call_visit ch e else Load_failed_again"
    have "act_step_ok config root B cs0 a w [a\<lparr>act_place := ?pl\<rparr>] (sh, w1)"
      by (rule go [OF _ _ _ w1]) (use e loc in \<open>auto simp: place_ok_def\<close>)
    then show ?thesis using f pl by (auto simp: bc_io_walk_process_directory_def Let_def)
  next
    assume pl: "act_place a = Call_visit ch e"
    then have k: "entry_kind e = BC_IO_WALK_ENTRY_FILE \<or> entry_kind e = BC_IO_WALK_ENTRY_DIRECTORY" using a by (auto simp: act_ok_def place_ok_def)
    obtain ok w1 where f: "ask (config_visit config) Visit_called e w = (ok, w1)" by fastforce
    note w1 = ask_calls [OF f]
    let ?pl = "if \<not> ok then Store_failed else if entry_kind e = BC_IO_WALK_ENTRY_FILE then Load_failed_again else Ask_descend ch e"
    have "act_step_ok config root B cs0 a w [a\<lparr>act_place := ?pl\<rparr>] (sh, w1)"
      by (rule go [OF _ _ _ w1(1,2)]) (use e loc k in \<open>auto simp: place_ok_def\<close>)
    then show ?thesis using f pl env'(2) by (auto simp: bc_io_walk_process_directory_def Let_def)
  next
    assume pl: "act_place a = Ask_descend ch e"
    obtain n where n: "name_ok config n" "holds_path ch (absolute_path_length e) (joined p n)" "depth e = act_depth a + 1"
      using e by (auto simp: entry_at_def)
    obtain sub where sub: "queue_entry_for env ch (absolute_path_length e) (depth e) = Some sub" "queued_at sub (joined p n) (depth e)"
      using queue_entry_for_holds [OF env'(1) n(2)] by blast
    have k: "entry_kind e = BC_IO_WALK_ENTRY_DIRECTORY" using a pl by (auto simp: act_ok_def place_ok_def)
    obtain ok w1 where f: "ask (config_should_descend config) Descend_called e w = (ok, w1)" by fastforce
    note w1 = ask_calls [OF f]
    have "act_step_ok config root B cs0 a w [a\<lparr>act_place := if ok then Add_outstanding sub else Load_failed_again\<rparr>] (sh, w1)"
      by (rule go [OF _ _ _ w1(1,2)]) (use n sub k loc in \<open>auto simp: place_ok_def\<close>)
    then show ?thesis using f pl sub(1) by (auto simp: bc_io_walk_process_directory_def Let_def)
  qed
qed

lemma stat_entry_ok:
  assumes a: "act_ok config root B a w" "act_place a = Stat_entry e ch l"
    and q: "queue_entries_ok config root (directory_queue sh)" and c: "calls_ok config root cs0 (walk_calls w)"
  shows "\<exists>inner sh' w'. bc_io_walk_process_directory env conc config i a (sh, w) = Some (inner, sh', w') \<and>
    act_step_ok config root B cs0 a w inner (sh', w')"
proof -
  obtain p d where p: "holds_path (act_path a) (act_path_length a) p" and d: "entry_is (act_reader a) e d" "name_ok config (dirent_name d)"
    "holds_path ch l (joined p (dirent_name d))" using a unfolding act_ok_def place_ok_def by auto
  have same: "p' = p" if "holds_path (act_path a) (act_path_length a) p'" for p' using that p holds_pathD(2) by metis
  obtain res w1 where r: "resolve_entry env (config_follow_symlinks config) (act_fd a) (entry_d_type e)
      (c_text (reader_buffer (act_reader a)) (entry_name e)) w = (res, w1)" by fastforce
  note so = resolve_entry_stats_only [OF r]
  have l1: "listing fd (trace w1) = listing fd (trace w)" and cl: "walk_calls w1 = walk_calls w" for fd
    using so fstatat_effect(2) by (auto simp: stats_only_def listing_append quiet_calls)
  let ?pl = "case res of None \<Rightarrow> Count_error (joined p (dirent_name d)) ''stat'' (errno w1) Then_continue
    | Some rs \<Rightarrow> Ask_filter ch (walk_entry_of ch l (act_depth a + 1) rs)"
  have "entry_at config p (act_depth a) ch (walk_entry_of ch l (act_depth a + 1) rs)" for rs
    using d holds_pathD(1) [OF d(3)] holds_pathD(4) [OF d(3), symmetric]
    by (auto simp: entry_at_def walk_entry_of_def intro!: exI [of _ "dirent_name d"])
  then have "place_ok config p (act_depth a) (act_reader a) ?pl"
    using d(2) by (auto simp: place_ok_def intro!: exI [of _ "[dirent_name d]"] split: option.splits)
  then have "act_step_ok config root B cs0 a w [a\<lparr>act_place := ?pl\<rparr>] (sh, w1)"
    using a q c l1 cl same by (intro act_step_go) (auto simp: listing_place_def split: option.splits)
  then show ?thesis
    using r a(2) holds_pathD(2) [OF d(3)]
    by (auto simp: bc_io_walk_process_directory_def bc_io_walk_report_error_def split: option.splits)
qed

lemma push_directory_ok:
  assumes a: "act_ok config root B a w" "act_place a = Push_directory sub"
    and q: "queue_entries_ok config root (directory_queue sh)" and c: "calls_ok config root cs0 (walk_calls w)"
  shows "\<exists>inner sh' w'. bc_io_walk_process_directory env conc config i a (sh, w) = Some (inner, sh', w') \<and>
    act_step_ok config root B cs0 a w inner (sh', w')"
proof -
  let ?ok = "conc_queue_push conc (directory_queue sh) sub"
  let ?sh = "sh\<lparr>directory_queue := directory_queue sh @ [Pushed sub ?ok]\<rparr>"
  obtain p n where p: "below config root p (act_depth a)" "name_ok config n" "queued_at sub (joined p n) (act_depth a + 1)"
    using a by (auto simp: act_ok_def place_ok_def)
  then have "queued_at sub (joined p n) (queue_depth sub)" "below config root (joined p n) (queue_depth sub)"
    using below_child [OF p(1,2)] by (auto simp: queued_at_def)
  then have "queue_entries_ok config root (directory_queue ?sh)" using q by (auto simp: queue_entries_ok_def)
  then have "act_step_ok config root B cs0 a w [a\<lparr>act_place := if ?ok then Load_failed_again else Sub_outstanding sub\<rparr>] (?sh, w)"
    using a c by (intro act_step_go) (auto simp: listing_place_def place_ok_def)
  then show ?thesis using a(2) by (simp add: bc_io_walk_process_directory_def Let_def)
qed

lemma close_directory_ok:
  assumes a: "act_ok config root B a w" "act_place a = Close_directory"
    and q: "queue_entries_ok config root (directory_queue sh)" and c: "calls_ok config root cs0 (walk_calls w)"
  shows "\<exists>inner sh' w'. bc_io_walk_process_directory env conc config i a (sh, w) = Some (inner, sh', w') \<and>
    act_step_ok config root B cs0 a w inner (sh', w')"
proof -
  have "act_ok config root B (a\<lparr>act_place := Return_directory\<rparr>) (sys_close env (act_fd a) w)"
    using a by (auto simp: act_ok_def act_fds_def listing_place_def place_ok_def)
  then have "act_step_ok config root B cs0 a w [a\<lparr>act_place := Return_directory\<rparr>] (sh, sys_close env (act_fd a) w)"
    using a(2) q c by (auto simp: act_step_ok_def act_fds_def untouched_def sys_close_def)
  then show ?thesis using a(2) by (simp add: bc_io_walk_process_directory_def)
qed

lemma process_ok:
  assumes env: "par_env_ok env conc config root B" and a: "act_ok config root B a w"
    and q: "queue_entries_ok config root (directory_queue sh)" and c: "calls_ok config root cs0 (walk_calls w)"
  shows "\<exists>inner sh' w'. bc_io_walk_process_directory env conc config i a (sh, w) = Some (inner, sh', w') \<and>
    act_step_ok config root B cs0 a w inner (sh', w')"
proof -
  have go: ?thesis
    if "bc_io_walk_process_directory env conc config i a (sh, w) = Some ([a\<lparr>act_place := pl\<rparr>], sh', w')"
      "directory_queue sh' = directory_queue sh" "walk_calls w' = walk_calls w" "\<And>fd. listing fd (trace w') = listing fd (trace w)"
      "\<And>p. place_ok config p (act_depth a) (act_reader a) (act_place a) \<Longrightarrow> place_ok config p (act_depth a) (act_reader a) pl"
      "open_place pl \<longrightarrow> listing_place (act_place a)" "pl \<noteq> Count_directory" for pl sh' w'
  proof -
    have "act_step_ok config root B cs0 a w [a\<lparr>act_place := pl\<rparr>] (sh', w')"
      by (rule act_step_go [OF a that(4) _ that(6,7)]) (use that(2,3,5) q c in auto)
    then show ?thesis using that(1) by blast
  qed
  note simps = bc_io_walk_process_directory_def Let_def listing_place_def place_ok_def count_stats_def bc_io_dirent_reader_destroy_def
    pool_free_def
  have fresh: "descriptors_fresh env" using env by (simp add: par_env_ok_def)
  show ?thesis
  proof (cases "act_place a")
    case Load_failed show ?thesis by (rule go, simp add: Load_failed bc_io_walk_process_directory_def Let_def) (auto simp: Load_failed simps split: if_splits)
  next
    case Open_directory then show ?thesis using open_directory_ok [OF fresh a _ q c] by blast
  next
    case Count_directory then show ?thesis using count_directory_ok [OF a _ q c] by blast
  next
    case Load_failed_again show ?thesis by (rule go, simp add: Load_failed_again bc_io_walk_process_directory_def Let_def) (auto simp: Load_failed_again simps split: if_splits)
  next
    case Next_entry_of_reader then show ?thesis using next_entry_ok [OF env a _ q c] by blast
  next
    case (Stat_entry e ch l) then show ?thesis using stat_entry_ok [OF a _ q c] by blast
  next
    case Count_skipped show ?thesis by (rule go, simp add: Count_skipped bc_io_walk_process_directory_def Let_def) (auto simp: Count_skipped simps split: if_splits)
  next
    case (Count_file ch e) show ?thesis by (rule go, simp add: Count_file bc_io_walk_process_directory_def Let_def) (auto simp: Count_file simps split: if_splits)
  next
    case Store_failed show ?thesis by (rule go, simp add: Store_failed bc_io_walk_process_directory_def Let_def) (auto simp: Store_failed simps split: if_splits)
  next
    case (Add_outstanding sub) show ?thesis by (rule go, simp add: Add_outstanding bc_io_walk_process_directory_def Let_def) (auto simp: Add_outstanding simps split: if_splits)
  next
    case (Push_directory sub) then show ?thesis using push_directory_ok [OF a _ q c] by blast
  next
    case (Sub_outstanding sub) show ?thesis by (rule go, simp add: Sub_outstanding bc_io_walk_process_directory_def Let_def) (auto simp: Sub_outstanding simps split: if_splits)
  next
    case (Create_fallback sub) then show ?thesis using create_fallback_ok [OF env a _ q c] by blast
  next
    case (Destroy_fallback m rd) show ?thesis by (rule go, simp add: Destroy_fallback bc_io_walk_process_directory_def Let_def) (auto simp: Destroy_fallback simps split: if_splits)
  next
    case (Count_error p st x n) show ?thesis by (rule go, simp add: Count_error bc_io_walk_process_directory_def Let_def) (auto simp: Count_error simps split: if_splits)
  next
    case (Call_on_error p st x n) then show ?thesis using call_on_error_ok [OF a _ q c] by blast
  next
    case Close_directory then show ?thesis using close_directory_ok [OF a _ q c] by blast
  next
    case Return_directory
    then show ?thesis using q c by (auto simp: bc_io_walk_process_directory_def act_step_ok_def)
  qed (use callback_ok [OF env a _ q c] in blast)+
qed

section \<open>Actions of a worker\<close>

lemma act_fds_listed: "act_ok config root B a w \<Longrightarrow> fd \<in> set (act_fds a) \<Longrightarrow> listing fd (trace w) \<noteq> None"
  by (auto simp: act_ok_def)

lemma worker_fds_listed: "worker_ok config root B w l \<Longrightarrow> fd \<in> set (worker_fds l) \<Longrightarrow> listing fd (trace w) \<noteq> None"
proof (induction l)
  case (Processing acts)
  then obtain a where "a \<in> set acts" "fd \<in> set (act_fds a)" "act_ok config root B a w" by auto
  then show ?case using act_fds_listed by blast
qed auto

lemma untouchedD: "untouched F h h' \<Longrightarrow> fd \<notin> F \<Longrightarrow> listing fd h \<noteq> None \<Longrightarrow> listing fd h' = listing fd h"
  by (auto simp: untouched_def)

text \<open>Another worker's actions leave the invariant of a worker alone.\<close>

lemma worker_ok_cong:
  assumes "worker_ok config root B w l" and "untouched F (trace w) (trace w')" and "F \<inter> set (worker_fds l) = {}"
  shows "worker_ok config root B w' l"
proof (cases l)
  case (Processing acts)
  have "act_ok config root B a w'" if a: "a \<in> set acts" for a
  proof (rule act_ok_cong)
    show "act_ok config root B a w" using assms(1) a Processing by simp
    show "\<forall>fd \<in> set (act_fds a). listing fd (trace w') = listing fd (trace w)"
    proof
      fix fd assume "fd \<in> set (act_fds a)"
      then have "fd \<in> set (worker_fds l)" using a Processing by auto
      then show "listing fd (trace w') = listing fd (trace w)"
        by (intro untouchedD [OF assms(2)] worker_fds_listed [OF assms(1)]) (use assms(3) in auto)
    qed
  qed
  then show ?thesis using assms(1) Processing by simp
qed (use assms(1) in auto)

definition task_step_ok :: "bc_io_walk_config \<Rightarrow> bytes \<Rightarrow> nat \<Rightarrow> walk_call list \<Rightarrow> walk_worker \<Rightarrow> 'w walk_world_scheme \<Rightarrow> walk_worker \<Rightarrow>
    'w sharing \<Rightarrow> bool" where
  "task_step_ok config root B cs0 l w l' = (\<lambda>(sh', w').
     worker_ok config root B w' l' \<and> queue_entries_ok config root (directory_queue sh') \<and> calls_ok config root cs0 (walk_calls w') \<and>
     untouched (set (worker_fds l)) (trace w) (trace w') \<and> distinct (worker_fds l') \<and>
     (\<forall>fd \<in> set (worker_fds l'). fd \<in> set (worker_fds l) \<or> listing fd (trace w) = None))"

lemma processing_ok:
  assumes env: "par_env_ok env conc config root B" and l: "worker_ok config root B w (Processing acts)" "distinct (worker_fds (Processing acts))"
    and q: "queue_entries_ok config root (directory_queue sh)" and c: "calls_ok config root cs0 (walk_calls w)"
  shows "\<exists>l' sh' w'. bc_io_walk_worker_task env conc config i (Processing acts) (sh, w) = Some (l', sh', w') \<and>
    task_step_ok config root B cs0 (Processing acts) w l' (sh', w')"
proof -
  obtain a outer where acts: "acts = a # outer" using l(1) by (cases acts) auto
  have a: "act_ok config root B a w" and o: "\<forall>b \<in> set outer. act_ok config root B b w" "\<forall>b \<in> set outer. waiting b"
    using l(1) acts by auto
  from process_ok [OF env a q c] obtain inner sh' w' where
    p: "bc_io_walk_process_directory env conc config i a (sh, w) = Some (inner, sh', w')" "act_step_ok config root B cs0 a w inner (sh', w')"
    by blast
  have s: "\<forall>b \<in> set inner. act_ok config root B b w'" "\<forall>b \<in> set (tl inner). waiting b" "queue_entries_ok config root (directory_queue sh')"
      "calls_ok config root cs0 (walk_calls w')"
    and ut: "untouched (set (act_fds a)) (trace w) (trace w')" and fi: "distinct (concat (map act_fds inner))"
      "\<forall>fd \<in> set (concat (map act_fds inner)). fd \<in> set (act_fds a) \<or> listing fd (trace w) = None"
    using p(2) by (simp_all add: act_step_ok_def)
  have fd: "set (act_fds a) \<inter> set (concat (map act_fds outer)) = {}" "distinct (concat (map act_fds outer))"
    using l(2) acts by auto
  have listed: "listing fd (trace w) \<noteq> None" if "fd \<in> set (concat (map act_fds outer))" for fd
    using that o(1) act_fds_listed by fastforce
  have o': "act_ok config root B b w'" if b: "b \<in> set outer" for b
  proof (rule act_ok_cong)
    show "act_ok config root B b w" using o(1) b by blast
    show "\<forall>fd \<in> set (act_fds b). listing fd (trace w') = listing fd (trace w)"
    proof
      fix x assume "x \<in> set (act_fds b)"
      then have "x \<in> set (concat (map act_fds outer))" using b by auto
      then show "listing x (trace w') = listing x (trace w)" using fd(1) by (intro untouchedD [OF ut] listed) auto
    qed
  qed
  let ?l = "if inner @ outer = [] then Directory_done (act_reader a) else Processing (inner @ outer)"
  have fds: "worker_fds ?l = concat (map act_fds inner) @ concat (map act_fds outer)" by auto
  have rd: "reader_ok (act_reader a)" using a by (auto simp: act_ok_def reader_ok_def)
  have "worker_ok config root B w' ?l"
  proof (cases inner)
    case Nil
    then show ?thesis using o' o(2) rd by (cases outer) auto
  next
    case (Cons b rest)
    then have "act_ok config root B b w'" "\<forall>x \<in> set rest. act_ok config root B x w' \<and> waiting x" using s by auto
    then show ?thesis using Cons o' o(2) by auto
  qed
  moreover have "distinct (worker_fds ?l)"
    unfolding fds distinct_append using fi fd listed by blast
  moreover have "untouched (set (worker_fds (Processing acts))) (trace w) (trace w')"
    using ut acts by (simp add: untouched_def)
  moreover have "\<forall>fd \<in> set (worker_fds ?l). fd \<in> set (worker_fds (Processing acts)) \<or> listing fd (trace w) = None"
    unfolding fds set_append ball_Un using fi(2) acts by force
  ultimately have "task_step_ok config root B cs0 (Processing acts) w ?l (sh', w')"
    unfolding task_step_ok_def prod.case using s(3,4) by blast
  moreover have "bc_io_walk_worker_task env conc config i (Processing acts) (sh, w) = Some (?l, sh', w')"
    using p(1) acts by (simp add: bc_io_walk_worker_task_def Let_def)
  ultimately show ?thesis by blast
qed

lemma pop_directory_ok:
  assumes env: "par_env_ok env conc config root B" and rd: "reader_ok rd"
    and q: "queue_entries_ok config root (directory_queue sh)" and c: "calls_ok config root cs0 (walk_calls w)"
  shows "\<exists>l' sh' w'. bc_io_walk_worker_task env conc config i (Pop_directory rd) (sh, w) = Some (l', sh', w') \<and>
    task_step_ok config root B cs0 (Pop_directory rd) w l' (sh', w')"
proof -
  let ?p = "conc_queue_pop conc (directory_queue sh)"
  let ?sh = "sh\<lparr>directory_queue := directory_queue sh @ [Popped ?p]\<rparr>"
  let ?l = "case ?p of Some e \<Rightarrow> Processing [start_activation rd e] | None \<Rightarrow> Load_outstanding rd"
  have q': "queue_entries_ok config root (directory_queue ?sh)"
    using q by (cases ?p) (auto simp: queue_entries_ok_def dest: in_diffD)
  have fds: "worker_fds ?l = []" by (auto simp: start_activation_def act_fds_def split: option.split)
  have "act_ok config root B (start_activation rd e) w" if "?p = Some e" for e
  proof -
    have "e \<in># pending (directory_queue sh)" using queue_okD(1) env that by (auto simp: par_env_ok_def)
    then obtain p where "queued_at e p (queue_depth e)" "below config root p (queue_depth e)" using q by (auto simp: queue_entries_ok_def)
    then show ?thesis
      using rd by (auto simp: act_ok_def start_activation_def act_fds_def listing_place_def place_ok_def queued_at_def reader_ok_def)
  qed
  then have "worker_ok config root B w ?l" using rd by (auto split: option.split)
  then have "task_step_ok config root B cs0 (Pop_directory rd) w ?l (?sh, w)" using q' c fds by (auto simp: task_step_ok_def)
  then show ?thesis by (auto simp: bc_io_walk_worker_task_def Let_def split: option.splits)
qed

lemma worker_task_ok:
  assumes env: "par_env_ok env conc config root B" and l: "worker_ok config root B w l" "distinct (worker_fds l)" "\<not> worker_finished l"
    and q: "queue_entries_ok config root (directory_queue sh)" and c: "calls_ok config root cs0 (walk_calls w)"
  shows "\<exists>l' sh' w'. bc_io_walk_worker_task env conc config i l (sh, w) = Some (l', sh', w') \<and>
    task_step_ok config root B cs0 l w l' (sh', w')"
proof -
  have quiet: "task_step_ok config root B cs0 l w l' (sh', w')"
    if "worker_fds l' = []" "worker_ok config root B w' l'" "directory_queue sh' = directory_queue sh" "walk_calls w' = walk_calls w @ cs"
      "\<forall>c \<in> set cs. call_ok config root 0 c" "\<And>fd. listing fd (trace w') = listing fd (trace w)" for l' sh' w' cs
    using that q calls_ok_append [OF c that(5)] by (auto simp: task_step_ok_def untouched_def)
  note simps = bc_io_walk_worker_task_def Let_def count_stats_def
  obtain r where root: "config_root config = Some r" "holds_path r (config_root_length config) root"
    using env by (auto simp: par_env_ok_def config_ok_def)
  note w = bc_io_dirent_reader_create_def bc_io_dirent_reader_destroy_def pool_allocate_def pool_free_def answer_def
  have go: ?thesis if "bc_io_walk_worker_task env conc config i l (sh, w) = Some (l', sh', w')" "worker_fds l' = []" "worker_ok config root B w' l'"
    "directory_queue sh' = directory_queue sh" "walk_calls w' = walk_calls w @ cs" "\<forall>c \<in> set cs. call_ok config root 0 c"
    "\<And>fd. listing fd (trace w') = listing fd (trace w)" for l' sh' w' cs
    using that(1) quiet [OF that(2-)] by blast
  show ?thesis
  proof (cases l)
    case Create_reader
    obtain cr w1 where cr: "bc_io_dirent_reader_create env (task_memory conc config i) (-1) w = (cr, w1)" by fastforce
    show ?thesis
      by (rule go [of "case cr of None \<Rightarrow> Count_alloc_error | Some rd \<Rightarrow> Check_stop rd" sh w1 "[]"])
        (use cr Create_reader in \<open>auto simp: simps w reader_ok_def BC_IO_DIRENT_READER_BUFFER_SIZE_def split: option.splits sum.splits\<close>)
  next
    case Call_alloc_error
    have "call_ok config root 0 (Error_called root st x)" for st x by (auto intro!: exI [of _ "[]"])
    then show ?thesis
      using root Call_alloc_error holds_pathD(2) [OF root(2)]
      by (intro go [of Worker_done sh "tell_error config root ''dirent-reader-alloc'' ENOMEM w" "if config_on_error config then [Error_called root ''dirent-reader-alloc'' ENOMEM] else []"])
        (auto simp: simps tell_error_def)
  next
    case (Check_stop rd)
    obtain stop w1 where st: "bc_io_walk_should_stop config w = (stop, w1)" by fastforce
    show ?thesis
      by (rule go [of "if stop then Destroy_reader rd else Check_failed rd" sh w1 "if config_should_stop_check config = None then [] else [Stop_called stop]"])
        (use st Check_stop l(1) in \<open>auto simp: simps bc_io_walk_should_stop_def split: option.splits\<close>)
  next
    case (Pop_directory rd)
    then show ?thesis using pop_directory_ok [OF env _ q c] l(1) by simp
  next
    case (Processing acts)
    then show ?thesis using processing_ok [OF env l(1,2) [unfolded Processing] q c] by blast
  next
    case (Destroy_reader rd)
    show ?thesis
      by (rule go [of Worker_done sh "bc_io_dirent_reader_destroy (task_memory conc config i) (Some rd) w" "[]"]) (use Destroy_reader in \<open>auto simp: simps w\<close>)
  next
    case Count_alloc_error
    show ?thesis
      by (rule go [of Store_alloc_failed "count_stats (\<lambda>st. st\<lparr>errors_encountered := errors_encountered st + 1\<rparr>) sh" w "[]"]) (use Count_alloc_error in \<open>auto simp: simps\<close>)
  next
    case Store_alloc_failed
    show ?thesis by (rule go [of Call_alloc_error "sh\<lparr>shared_visit_failed := True\<rparr>" w "[]"]) (use Store_alloc_failed in \<open>auto simp: simps\<close>)
  next
    case (Check_failed rd)
    show ?thesis
      by (rule go [of "if shared_visit_failed sh then Destroy_reader rd else Pop_directory rd" sh w "[]"]) (use l Check_failed in \<open>auto simp: simps\<close>)
  next
    case (Directory_done rd)
    show ?thesis
      by (rule go [of "Check_stop rd" "sh\<lparr>outstanding_directory_count := outstanding_directory_count sh - 1\<rparr>" w "[]"]) (use l Directory_done in \<open>auto simp: simps\<close>)
  next
    case (Load_outstanding rd)
    show ?thesis
      by (rule go [of "if outstanding_directory_count sh = 0 then Destroy_reader rd else Check_stop rd" sh w "[]"])
        (use l Load_outstanding in \<open>auto simp: simps\<close>)
  qed (use l(3) in \<open>simp add: worker_finished_def\<close>)
qed

section \<open>The invariant is kept\<close>

lemma concat_map_update:
  assumes "i < length ls"
  shows "concat (map f ls) = concat (map f (take i ls)) @ f (ls ! i) @ concat (map f (drop (Suc i) ls))"
  by (subst id_take_nth_drop [OF assms]) simp

lemma distinct_update:
  assumes d: "distinct (concat (map f ls))" and i: "i < length ls" and "distinct (f l)"
    and new: "\<And>x j. x \<in> set (f l) \<Longrightarrow> j < length ls \<Longrightarrow> j \<noteq> i \<Longrightarrow> x \<notin> set (f (ls ! j))"
  shows "distinct (concat (map f (ls[i := l])))"
proof -
  let ?A = "concat (map f (take i ls))" and ?B = "concat (map f (drop (Suc i) ls))"
  have "set (f l) \<inter> set ?A = {}" "set (f l) \<inter> set ?B = {}"
    using new i by (fastforce simp: in_set_conv_nth)+
  then show ?thesis
    using assms(1-3) unfolding concat_map_update [OF i, of f] upd_conv_take_nth_drop [OF i] by auto
qed

lemma distinct_across:
  assumes "distinct (concat (map f ls))" and "i < length ls" and "j < length ls" and "j \<noteq> i"
  shows "set (f (ls ! i)) \<inter> set (f (ls ! j)) = {}"
proof (cases "i < j")
  case True
  then have "ls ! j \<in> set (drop (Suc i) ls)" using assms(3) by (auto simp: in_set_conv_nth intro!: exI [of _ "j - Suc i"])
  then show ?thesis using assms(1) unfolding concat_map_update [OF assms(2), of f] by auto
next
  case False
  then have "ls ! i \<in> set (drop (Suc j) ls)" using assms(2,4) by (auto simp: in_set_conv_nth intro!: exI [of _ "i - Suc j"])
  then show ?thesis using assms(1) unfolding concat_map_update [OF assms(3), of f] by auto
qed

lemma par_ok_turn:
  assumes ok: "par_ok env conc config root B cs0 ls (sh, w)" and i: "i < length ls" and l: "\<not> worker_finished (ls ! i)"
  obtains l' sh' w' where "bc_io_walk_worker_task env conc config i (ls ! i) (sh, w) = Some (l', sh', w')"
    and "task_step_ok config root B cs0 (ls ! i) w l' (sh', w')"
    and "\<And>j. j < length ls \<Longrightarrow> j \<noteq> i \<Longrightarrow> worker_ok config root B w' (ls ! j) \<and>
      (\<forall>fd \<in> set (worker_fds (ls ! j)). listing fd (trace w') = listing fd (trace w))"
    and "par_ok env conc config root B cs0 (ls[i := l']) (sh', w')"
proof -
  have h: "par_env_ok env conc config root B" "\<And>j. j < length ls \<Longrightarrow> worker_ok config root B w (ls ! j)" "distinct (concat (map worker_fds ls))"
    "queue_entries_ok config root (directory_queue sh)" "calls_ok config root cs0 (walk_calls w)"
    using ok by (auto simp: par_ok_def)
  have "distinct (worker_fds (ls ! i))" using h(3) unfolding concat_map_update [OF i] by simp
  from worker_task_ok [OF h(1) h(2) [OF i] this l h(4,5)] obtain l' sh' w' where
    t: "bc_io_walk_worker_task env conc config i (ls ! i) (sh, w) = Some (l', sh', w')" "task_step_ok config root B cs0 (ls ! i) w l' (sh', w')"
    by blast
  have ts: "worker_ok config root B w' l'" "untouched (set (worker_fds (ls ! i))) (trace w) (trace w')" "distinct (worker_fds l')"
    "\<forall>fd \<in> set (worker_fds l'). fd \<in> set (worker_fds (ls ! i)) \<or> listing fd (trace w) = None"
    using t(2) by (simp_all add: task_step_ok_def)
  have others: "worker_ok config root B w' (ls ! j) \<and> (\<forall>fd \<in> set (worker_fds (ls ! j)). listing fd (trace w') = listing fd (trace w))"
    if j: "j < length ls" "j \<noteq> i" for j
    using worker_ok_cong [OF h(2) [OF j(1)] ts(2)] distinct_across [OF h(3) i j] untouchedD [OF ts(2)] worker_fds_listed [OF h(2) [OF j(1)]] by blast
  have "distinct (concat (map worker_fds (ls[i := l'])))"
    by (rule distinct_update [OF h(3) i ts(3)])
      (use ts(4) distinct_across [OF h(3) i] worker_fds_listed [OF h(2)] in blast)
  moreover have "worker_ok config root B w' x" if "x \<in> set (ls[i := l'])" for x
    using that others ts(1) i by (auto simp: in_set_conv_nth nth_list_update split: if_splits)
  ultimately have "par_ok env conc config root B cs0 (ls[i := l']) (sh', w')"
    using t(2) h(1) by (simp add: par_ok_def task_step_ok_def)
  then show thesis using that t others by blast
qed

lemma finished_no_action: "bc_io_walk_worker_task env conc config i l s = Some x \<Longrightarrow> \<not> worker_finished l"
  by (cases s) (auto simp: worker_finished_def bc_io_walk_worker_task_def)

lemma par_ok_step:
  assumes "par_ok env conc config root B cs0 ls s" and "i < length ls" and "bc_io_walk_worker_task env conc config i (ls ! i) s = Some (l, s')"
  shows "par_ok env conc config root B cs0 (ls[i := l]) s'"
proof -
  obtain sh w where s: "s = (sh, w)" by fastforce
  show ?thesis
    by (rule par_ok_turn [OF assms(1) [unfolded s] assms(2) finished_no_action [OF assms(3)]]) (use assms(3) s in auto)
qed

interpretation par: invariant_steps "bc_io_walk_worker_task env conc config" "par_ok env conc config root B cs0"
  for env conc config root B cs0
  by unfold_locales (rule par_ok_step)

end
