(* ===== verification/IO_Walk_Par_Live.thy ===== *)
theory IO_Walk_Par_Live
  imports IO_Walk_Par_Inv
begin

text \<open>
  The workers of the parallel walk finish: what \<^verbatim>\<open>outstanding_directory_count\<close> says at every moment, a bound on the actions
  that are left, and from both the progress that makes every fair schedule end.
\<close>

section \<open>Outstanding directories\<close>

lemma process_queue:
  assumes "bc_io_walk_process_directory env conc config i a (sh, w) = Some (inner, sh', w')"
  shows "directory_queue sh' = directory_queue sh \<or> (\<exists>sub. act_place a = Push_directory sub \<and>
    directory_queue sh' = directory_queue sh @ [Pushed sub (conc_queue_push conc (directory_queue sh) sub)])"
proof (cases "act_place a = Next_entry_of_reader")
  case True
  with assms show ?thesis by (rule next_place) simp
next
  case False
  then show ?thesis
    using assms by (cases "act_place a") (auto simp: par_defs split: if_splits prod.splits option.splits onward.splits)
qed

lemma worker_queue:
  assumes "bc_io_walk_worker_task env conc config i l (sh, w) = Some (l', sh', w')"
  shows "directory_queue sh' = directory_queue sh \<or>
    (\<exists>sub. directory_queue sh' = directory_queue sh @ [Pushed sub (conc_queue_push conc (directory_queue sh) sub)]) \<or>
    directory_queue sh' = directory_queue sh @ [Popped (conc_queue_pop conc (directory_queue sh))]"
proof (cases "\<exists>acts. l = Processing acts")
  case True
  then show ?thesis using assms by (blast elim: worker_cases dest: process_queue)
next
  case False
  then show ?thesis
    using assms by (cases l) (auto simp: bc_io_walk_worker_task_def Let_def count_stats_def split: if_splits prod.splits option.splits)
qed

text \<open>The shared count is the number of queued directories and of those in the hands of the workers.\<close>

definition outstanding_ok :: "walk_worker list \<Rightarrow> bc_io_walk_shared \<Rightarrow> bool" where
  "outstanding_ok ls sh \<longleftrightarrow> queue_count (directory_queue sh) = of_nat (size (pending (directory_queue sh))) \<and>
     outstanding_directory_count sh - queue_count (directory_queue sh) + (\<Sum>l \<leftarrow> ls. worker_amount open_pushes open_process l) = 0"

lemma outstanding_ok_step:
  assumes "queue_ok conc" and "outstanding_ok ls sh" and "i < length ls"
    and "bc_io_walk_worker_task env conc config i (ls ! i) (sh, w) = Some (l, sh', w')"
  shows "outstanding_ok (ls[i := l]) sh'"
proof -
  let ?ops = "directory_queue sh"
  have "queue_count (directory_queue sh') = of_nat (size (pending (directory_queue sh')))"
  proof -
    have pop: "queue_count (?ops @ [Popped (conc_queue_pop conc ?ops)]) = of_nat (size (pending (?ops @ [Popped (conc_queue_pop conc ?ops)])))"
    proof (cases "conc_queue_pop conc ?ops")
      case (Some e)
      then have "size (pending ?ops) = Suc (size (pending ?ops - {#e#}))" using queue_okD(1) [OF assms(1)] by (metis size_Suc_Diff1)
      then show ?thesis using Some assms(2) by (simp add: outstanding_ok_def queue_count_def)
    qed (use assms(2) in \<open>simp add: outstanding_ok_def queue_count_def\<close>)
    from worker_queue [OF assms(4)] show ?thesis
      using pop assms(2) by (auto simp: outstanding_ok_def queue_count_def)
  qed
  moreover have "(outstanding_directory_count sh' - queue_count (directory_queue sh')) +
      sum_list ((map (worker_amount open_pushes open_process) ls)[i := worker_amount open_pushes open_process l]) =
    (outstanding_directory_count sh - queue_count (directory_queue sh)) + sum_list (map (worker_amount open_pushes open_process) ls)"
    using worker_outstanding [OF assms(4)] assms(3) by (intro outstanding.sum_list_update_amount) simp_all
  ultimately show ?thesis using assms(2) unfolding outstanding_ok_def map_update by metis
qed

text \<open>How many directories a worker accounts for: none while it looks for work, else one or two.\<close>

definition in_hand :: "walk_worker \<Rightarrow> nat" where
  "in_hand l = (case l of
     Processing acts \<Rightarrow> 1 + (case acts of a # _ \<Rightarrow>
        (case act_place a of Push_directory _ \<Rightarrow> 1 | Sub_outstanding _ \<Rightarrow> 1 | _ \<Rightarrow> 0) | [] \<Rightarrow> 0)
   | Directory_done _ \<Rightarrow> 1
   | _ \<Rightarrow> 0)"

lemma worker_amount_in_hand:
  assumes "worker_ok config root B w l"
  shows "worker_amount open_pushes open_process l = - of_nat (in_hand l)"
proof (cases l)
  case (Processing acts)
  then obtain a outer where acts: "acts = a # outer" "\<forall>b \<in> set outer. waiting b" using assms by (cases acts) auto
  have "(\<Sum>b \<leftarrow> outer. open_pushes b) = 0"
    using acts(2) by (induction outer) (auto simp: open_pushes_def waiting_def)
  then show ?thesis
    using Processing acts(1) by (simp add: worker_amount_def in_hand_def open_process_def) (simp add: open_pushes_def split: place.split)
qed (auto simp: worker_amount_def in_hand_def open_process_def)

lemma in_hand_le: "in_hand l \<le> 2"
  by (auto simp: in_hand_def split: walk_worker.split list.split place.split)

lemma outstanding_exact:
  assumes "outstanding_ok ls sh" and "\<forall>l \<in> set ls. worker_ok config root B w l"
  shows "outstanding_directory_count sh = of_nat (size (pending (directory_queue sh)) + (\<Sum>l \<leftarrow> ls. in_hand l))"
proof -
  have "(\<Sum>l \<leftarrow> ls. worker_amount open_pushes open_process l) = - of_nat (\<Sum>l \<leftarrow> ls. in_hand l)"
    using assms(2) by (induction ls) (auto simp: worker_amount_in_hand)
  then show ?thesis using assms(1) by (simp add: outstanding_ok_def algebra_simps)
qed

lemma nothing_outstanding:
  assumes "outstanding_ok ls sh" and "\<forall>l \<in> set ls. worker_ok config root B w l" and "outstanding_directory_count sh = 0"
    and "size (pending (directory_queue sh)) + 2 * length ls < 2 ^ 32"
  shows "pending (directory_queue sh) = {#} \<and> (\<forall>l \<in> set ls. in_hand l = 0)"
proof -
  have "(\<Sum>l \<leftarrow> ls. in_hand l) \<le> 2 * length ls" using in_hand_le by (induction ls) (simp_all, metis add_mono add_2_eq_Suc)
  then have "size (pending (directory_queue sh)) + (\<Sum>l \<leftarrow> ls. in_hand l) < 2 ^ 32" using assms(4) by linarith
  moreover have "of_nat (size (pending (directory_queue sh)) + (\<Sum>l \<leftarrow> ls. in_hand l)) = (0 :: u32)"
    using outstanding_exact [OF assms(1,2)] assms(3) by simp
  ultimately have "size (pending (directory_queue sh)) + (\<Sum>l \<leftarrow> ls. in_hand l) = 0"
    using unat_of_nat_small [of "size (pending (directory_queue sh)) + (\<Sum>l \<leftarrow> ls. in_hand l)", where 'a = 32] by simp
  then show ?thesis by simp
qed

section \<open>The work that is left\<close>

text \<open>
  A bound on the actions that processing a directory can still cause, its subdirectories included: paths are shorter than
  4096 bytes and grow by every level, and a listing has at most \<open>N\<close> entries.
\<close>

primrec dir_cost :: "nat \<Rightarrow> nat \<Rightarrow> nat" where
  "dir_cost N 0 = 100"
| "dir_cost N (Suc d) = 100 + N * (100 + dir_cost N d)"

lemma dir_cost_mono: "d \<le> d' \<Longrightarrow> dir_cost N d \<le> dir_cost N d'"
proof (induction d' arbitrary: d)
  case (Suc d')
  show ?case
  proof (cases d)
    case (Suc e)
    then have "dir_cost N e \<le> dir_cost N d'" using Suc.IH Suc.prems by simp
    then show ?thesis using Suc by (simp add: mult_le_mono2)
  qed simp
qed simp

definition path_cost :: "nat \<Rightarrow> size_t \<Rightarrow> nat" where
  "path_cost N len = dir_cost N (4096 - unat len)"

definition child_cost :: "nat \<Rightarrow> size_t \<Rightarrow> nat" where
  "child_cost N len = dir_cost N (4095 - unat len)"

lemma path_cost_eq: "unat len < 4096 \<Longrightarrow> path_cost N len = 100 + N * (100 + child_cost N len)"
proof -
  assume "unat len < 4096"
  then have "4096 - unat len = Suc (4095 - unat len)" by simp
  then show ?thesis by (simp add: path_cost_def child_cost_def)
qed

lemma path_cost_child: "unat len < unat len' \<Longrightarrow> path_cost N len' \<le> child_cost N len"
  by (simp add: path_cost_def child_cost_def dir_cost_mono)

text \<open>The bound at each place, where the reader can still hand out \<open>n\<close> entries.\<close>

definition place_load :: "nat \<Rightarrow> size_t \<Rightarrow> nat \<Rightarrow> place \<Rightarrow> nat" where
  "place_load N len n place =
     (let child = child_cost N len; rounds = (\<lambda>n. n * (100 + child)); after = (\<lambda>next. case next of
            Then_return \<Rightarrow> 1 | Then_continue \<Rightarrow> 20 + rounds n | Then_break \<Rightarrow> 5)
      in case place of
        Load_failed \<Rightarrow> 90 + rounds N
      | Open_directory \<Rightarrow> 80 + rounds N
      | Count_directory \<Rightarrow> 70 + rounds N
      | Load_failed_again \<Rightarrow> 20 + rounds n
      | Next_entry_of_reader \<Rightarrow> 19 + rounds n
      | Stat_entry _ _ _ \<Rightarrow> 80 + child + rounds n
      | Ask_filter _ _ \<Rightarrow> 79 + child + rounds n
      | Count_skipped \<Rightarrow> 30 + rounds n
      | Count_file _ _ \<Rightarrow> 78 + child + rounds n
      | Call_visit _ _ \<Rightarrow> 77 + child + rounds n
      | Store_failed \<Rightarrow> 10
      | Ask_descend _ _ \<Rightarrow> 76 + child + rounds n
      | Add_outstanding sub \<Rightarrow> 75 + path_cost N (queue_absolute_path_length sub) + rounds n
      | Push_directory sub \<Rightarrow> 74 + path_cost N (queue_absolute_path_length sub) + rounds n
      | Sub_outstanding sub \<Rightarrow> 73 + path_cost N (queue_absolute_path_length sub) + rounds n
      | Create_fallback sub \<Rightarrow> 72 + path_cost N (queue_absolute_path_length sub) + rounds n
      | Destroy_fallback _ _ \<Rightarrow> 21 + rounds n
      | Count_error _ _ _ next \<Rightarrow> 2 + after next
      | Call_on_error _ _ _ next \<Rightarrow> 1 + after next
      | Close_directory \<Rightarrow> 5
      | Return_directory \<Rightarrow> 1)"

definition reads_bound :: "nat \<Rightarrow> bc_io_dirent_reader \<Rightarrow> 'w io_world_scheme \<Rightarrow> nat" where
  "reads_bound B r w = (LEAST n. reads_left B r w n)"

lemma reads_bound: "reads_left B r w n \<Longrightarrow> reads_left B r w (reads_bound B r w)" "reads_left B r w n \<Longrightarrow> reads_bound B r w \<le> n"
  by (auto simp: reads_bound_def intro: LeastI Least_le)

definition act_load :: "nat \<Rightarrow> 'w walk_world_scheme \<Rightarrow> activation \<Rightarrow> nat" where
  "act_load B w a = place_load (B * 8193) (act_path_length a) (reads_bound B (act_reader a) w) (act_place a)"

definition queue_load :: "nat \<Rightarrow> queue_op list \<Rightarrow> nat" where
  "queue_load B ops = (\<Sum>e \<in># pending ops. path_cost (B * 8193) (queue_absolute_path_length e))"

lemma act_load_cong:
  assumes "act_ok config root B a w" and "\<forall>fd \<in> set (act_fds a). listing fd (trace w') = listing fd (trace w)"
  shows "act_load B w' a = act_load B w a"
proof (cases "listing_place (act_place a)")
  case True
  then have "reader_dir_fd (act_reader a) = act_fd a" "act_fd a \<in> set (act_fds a)"
    using assms(1) by (auto simp: act_ok_def listing_place_def act_fds_def)
  then have "reads_left B (act_reader a) w' = reads_left B (act_reader a) w" using assms(2) by (intro ext reads_left_cong) simp
  then show ?thesis by (simp add: act_load_def reads_bound_def)
next
  case False
  then show ?thesis
    by (cases "act_place a") (auto simp: act_load_def place_load_def listing_place_def Let_def split: onward.splits)
qed

lemma next_load:
  assumes env: "par_env_ok env conc config root B" and a: "act_ok config root B a w" "act_place a = Next_entry_of_reader"
    and p: "bc_io_walk_process_directory env conc config i a (sh, w) = Some (inner, sh', w')"
  shows "sum_list (map (act_load B w') inner) < act_load B w a"
proof -
  have h: "bc_core_ok env" "getdents_wellformed env" "listings_bounded B env" using env by (simp_all add: par_env_ok_def)
  obtain n where "reads_left B (act_reader a) w n" using a by (auto simp: act_ok_def listing_place_def)
  note left = reads_bound(1) [OF this]
  obtain res rd b where n: "bc_io_dirent_reader_next env (act_reader a) w = Some (res, rd, w')" "inner = [b]"
    "case res of
        Next_failed \<Rightarrow> b = a\<lparr>act_reader := rd, act_place := Count_error (c_text (act_path a) 0) ''getdents64''
          (bc_io_dirent_reader_last_errno rd) Then_break\<rparr>
      | Next_end \<Rightarrow> b = a\<lparr>act_reader := rd, act_place := Close_directory\<rparr>
      | Next_entry e \<Rightarrow> begin_entry env config (a\<lparr>act_reader := rd\<rparr>) e (trace w') = Some b"
    by (rule process_next [OF p a(2)])
  show ?thesis
  proof (cases res)
    case (Next_entry e)
    then obtain m where m: "reads_left B rd w' m" "m < reads_bound B (act_reader a) w"
      using next_total [OF h left] n(1) by auto
    have "Suc (reads_bound B rd w') \<le> reads_bound B (act_reader a) w" using reads_bound(2) [OF m(1)] m(2) by simp
    then have "Suc (reads_bound B rd w') * (100 + child_cost (B * 8193) (act_path_length a)) \<le>
      reads_bound B (act_reader a) w * (100 + child_cost (B * 8193) (act_path_length a))" by (rule mult_le_mono1)
    moreover obtain pl where "b = a\<lparr>act_reader := rd, act_place := pl\<rparr>"
      "pl = Load_failed_again \<or> (\<exists>q st x. pl = Count_error q st x Then_continue) \<or> (\<exists>c l. pl = Stat_entry e c l)"
      using begin_entry_place [of env config "a\<lparr>act_reader := rd\<rparr>" e "trace w'" b] n(3) Next_entry by auto
    ultimately show ?thesis using n(2) a(2) by (auto simp: act_load_def place_load_def Let_def algebra_simps)
  qed (use n a(2) in \<open>auto simp: act_load_def place_load_def Let_def\<close>)
qed

lemma reads_bound_cong:
  "listing (reader_dir_fd r) (trace w') = listing (reader_dir_fd r) (trace w) \<Longrightarrow> reads_bound B r w' = reads_bound B r w"
  unfolding reads_bound_def using reads_left_cong by metis

lemma reads_bound_log [simp]: "reads_bound B r (log_call c w) = reads_bound B r w"
  "reads_bound B r (log_event (Ev_pool_free m x) w) = reads_bound B r w"
  by (auto intro: reads_bound_cong)

lemma count_directory_load:
  assumes a: "act_ok config root B a w" "act_place a = Count_directory"
    and p: "bc_io_walk_process_directory env conc config i a (sh, w) = Some (inner, sh', w')"
  shows "sum_list (map (act_load B w') inner) < act_load B w a"
proof -
  let ?rd = "bc_io_dirent_reader_reset (act_reader a) (act_fd a)"
  obtain q where "listing (act_fd a) (trace w) = Some (q, 0)" "length (reader_buffer (act_reader a)) = 8192"
    using a by (auto simp: act_ok_def act_fds_def)
  then have "reads_left B ?rd w (B * 8193)"
    by (auto simp: reads_left_def buffered_def bc_io_dirent_reader_reset_def intro!: exI [of _ "[]"])
  then have "reads_bound B ?rd w * (100 + child_cost (B * 8193) (act_path_length a)) \<le>
      B * 8193 * (100 + child_cost (B * 8193) (act_path_length a))" by (intro mult_le_mono1 reads_bound(2))
  moreover from p a(2) have "inner = [a\<lparr>act_reader := ?rd, act_place := Load_failed_again\<rparr>]" "w' = w"
    by (auto simp: bc_io_walk_process_directory_def)
  then have "sum_list (map (act_load B w') inner) = 20 + reads_bound B ?rd w * (100 + child_cost (B * 8193) (act_path_length a))"
    by (simp add: act_load_def place_load_def)
  moreover have "act_load B w a = 70 + B * 8193 * (100 + child_cost (B * 8193) (act_path_length a))"
    using a(2) by (simp add: act_load_def place_load_def)
  ultimately show ?thesis by linarith
qed

lemma queue_load_push:
  "queue_load B (ops @ [Pushed sub ok]) = queue_load B ops + (if ok then path_cost (B * 8193) (queue_absolute_path_length sub) else 0)"
  by (simp add: queue_load_def)

lemma queue_load_pop:
  "e \<in># pending ops \<Longrightarrow> queue_load B ops = path_cost (B * 8193) (queue_absolute_path_length e) + queue_load B (ops @ [Popped (Some e)])"
  by (auto simp: queue_load_def dest!: multi_member_split)

lemma create_fallback_load:
  assumes a: "act_ok config root B a w" "act_place a = Create_fallback sub"
    and p: "bc_io_walk_process_directory env conc config i a (sh, w) = Some (inner, sh', w')"
  shows "sum_list (map (act_load B w') inner) < act_load B w a"
proof -
  obtain q where "queued_at sub q (act_depth a + 1)" using a by (auto simp: act_ok_def place_ok_def)
  then have "unat (queue_absolute_path_length sub) < 4096" by (auto simp: queued_at_def holds_path_def)
  note pc = path_cost_eq [OF this, of "B * 8193"]
  have "\<And>fd. listing fd (trace w') = listing fd (trace w)"
    using p a(2) by (auto simp: bc_io_walk_process_directory_def bc_io_dirent_reader_create_def pool_allocate_def answer_def Let_def
        split: sum.splits prod.splits option.splits)
  then have "reads_bound B (act_reader a) w' = reads_bound B (act_reader a) w" by (intro reads_bound_cong)
  then show ?thesis
    using p a(2) pc by (auto simp: bc_io_walk_process_directory_def bc_io_walk_report_error_def start_activation_def act_load_def
        place_load_def Let_def split: prod.splits option.splits)
qed

lemma queue_entry_for_length: "queue_entry_for env c len dep = Some sub \<Longrightarrow> queue_absolute_path_length sub = len"
  by (auto simp: queue_entry_for_def Let_def split: if_splits)

lemma ask_descend_load:
  assumes a: "act_ok config root B a w" "act_place a = Ask_descend c e"
    and p: "bc_io_walk_process_directory env conc config i a (sh, w) = Some (inner, sh', w')"
  shows "sum_list (map (act_load B w') inner) < act_load B w a"
proof -
  obtain p0 n where "holds_path (act_path a) (act_path_length a) p0" "holds_path c (absolute_path_length e) (joined p0 n)"
    using a by (auto simp: act_ok_def place_ok_def entry_at_def)
  then have "unat (act_path_length a) < unat (absolute_path_length e)" using joined_longer [of p0 n] by (simp add: holds_path_def)
  note pc = path_cost_child [OF this, of "B * 8193"]
  obtain ok w1 where f: "ask (config_should_descend config) Descend_called e w = (ok, w1)" by fastforce
  have step: "w' = w1 \<and> (inner = [a\<lparr>act_place := Load_failed_again\<rparr>] \<or> (\<exists>sub. inner = [a\<lparr>act_place := Add_outstanding sub\<rparr>] \<and>
      queue_absolute_path_length sub = absolute_path_length e))"
    using p a(2) f by (cases "queue_entry_for env c (absolute_path_length e) (depth e)")
      (auto simp: bc_io_walk_process_directory_def dest: queue_entry_for_length split: if_splits)
  moreover have "reads_bound B (act_reader a) w1 = reads_bound B (act_reader a) w" using ask_calls(1) [OF f] by (intro reads_bound_cong) simp
  ultimately show ?thesis using a(2) pc by (auto simp: act_load_def place_load_def Let_def)
qed

lemma process_load:
  assumes env: "par_env_ok env conc config root B" and a: "act_ok config root B a w"
    and p: "bc_io_walk_process_directory env conc config i a (sh, w) = Some (inner, sh', w')"
  shows "sum_list (map (act_load B w') inner) + queue_load B (directory_queue sh') < act_load B w a + queue_load B (directory_queue sh)"
proof -
  have q: "directory_queue sh' = directory_queue sh" if "\<nexists>sub. act_place a = Push_directory sub" using process_queue [OF p] that by blast
  note simps = par_defs act_load_def place_load_def queue_load_push
  consider (read) "act_place a = Next_entry_of_reader" | (count) "act_place a = Count_directory"
    | (fallback) sub where "act_place a = Create_fallback sub" | (descend) c e where "act_place a = Ask_descend c e"
    | (stat) e c l where "act_place a = Stat_entry e c l"
    | (other) "act_place a \<noteq> Next_entry_of_reader" "act_place a \<noteq> Count_directory" "\<nexists>sub. act_place a = Create_fallback sub"
        "\<nexists>c e. act_place a = Ask_descend c e" "\<nexists>e c l. act_place a = Stat_entry e c l" by blast
  then show ?thesis
  proof cases
    case read then show ?thesis using next_load [OF env a _ p] q by simp
  next
    case count then show ?thesis using count_directory_load [OF a _ p] q by simp
  next
    case fallback then show ?thesis using create_fallback_load [OF a _ p] q by simp
  next
    case descend then show ?thesis using ask_descend_load [OF a _ p] q by simp
  next
    case stat
    obtain res w1 where r: "resolve_entry env (config_follow_symlinks config) (act_fd a) (entry_d_type e)
      (c_text (reader_buffer (act_reader a)) (entry_name e)) w = (res, w1)" by fastforce
    have "listing fd (trace w1) = listing fd (trace w)" for fd
      using resolve_entry_stats_only [OF r] fstatat_effect(2) by (auto simp: stats_only_def listing_append)
    then have "reads_bound B (act_reader a) w1 = reads_bound B (act_reader a) w" by (intro reads_bound_cong)
    then show ?thesis using stat p q r by (cases res) (auto simp: simps)
  next
    case other
    then show ?thesis
      using p by (cases "act_place a") (auto simp: simps sys_open_def answer_def pool_free_def
          split: if_splits prod.splits option.splits sum.splits onward.splits)
  qed
qed

section \<open>Fair schedules let all workers finish\<close>

definition worker_load :: "nat \<Rightarrow> 'w walk_world_scheme \<Rightarrow> walk_worker \<Rightarrow> nat" where
  "worker_load B w l = (case l of
     Create_reader \<Rightarrow> 20
   | Count_alloc_error \<Rightarrow> 13
   | Store_alloc_failed \<Rightarrow> 12
   | Call_alloc_error \<Rightarrow> 11
   | Processing acts \<Rightarrow> 15 + (\<Sum>a \<leftarrow> acts. act_load B w a)
   | Directory_done _ \<Rightarrow> 12
   | Destroy_reader _ \<Rightarrow> 5
   | Worker_done \<Rightarrow> 0
   | _ \<Rightarrow> 10)"

fun looking_for_work :: "walk_worker \<Rightarrow> bool" where
  "looking_for_work (Check_stop _) \<longleftrightarrow> True"
| "looking_for_work (Check_failed _) \<longleftrightarrow> True"
| "looking_for_work (Pop_directory _) \<longleftrightarrow> True"
| "looking_for_work (Load_outstanding _) \<longleftrightarrow> True"
| "looking_for_work _ \<longleftrightarrow> False"

text \<open>How many actions a worker needs to find the queued work, or that there is none.\<close>

definition patience :: "walk_worker \<Rightarrow> queue_op list \<Rightarrow> nat" where
  "patience l ops = (case l of
     Check_stop _ \<Rightarrow> 3 | Check_failed _ \<Rightarrow> 2 | Pop_directory _ \<Rightarrow> 1 | Load_outstanding _ \<Rightarrow> (if pending ops = {#} then 0 else 4) | _ \<Rightarrow> 0)"

definition live_ok :: "io_env \<Rightarrow> bc_concurrency \<Rightarrow> bc_io_walk_config \<Rightarrow> bytes \<Rightarrow> nat \<Rightarrow> walk_call list \<Rightarrow> walk_worker list \<Rightarrow>
    'w sharing \<Rightarrow> bool" where
  "live_ok env conc config root B cs0 ls s \<longleftrightarrow> par_ok env conc config root B cs0 ls s \<and> outstanding_ok ls (fst s)"

lemma live_okD:
  assumes "live_ok env conc config root B cs0 ls (sh, w)"
  shows "par_env_ok env conc config root B" and "queue_ok conc" and "\<And>j. j < length ls \<Longrightarrow> worker_ok config root B w (ls ! j)"
    and "\<forall>l \<in> set ls. worker_ok config root B w l" and "distinct (concat (map worker_fds ls))" and "outstanding_ok ls sh"
    and "queue_entries_ok config root (directory_queue sh)" and "calls_ok config root cs0 (walk_calls w)"
    and "par_ok env conc config root B cs0 ls (sh, w)"
  using assms by (auto simp: live_ok_def par_ok_def par_env_ok_def)

lemma live_ok_step:
  assumes "live_ok env conc config root B cs0 ls s" and "i < length ls" and "bc_io_walk_worker_task env conc config i (ls ! i) s = Some (l, s')"
  shows "live_ok env conc config root B cs0 (ls[i := l]) s'"
proof -
  obtain sh w sh' w' where s: "s = (sh, w)" "s' = (sh', w')" by fastforce
  note ok = live_okD [OF assms(1) [unfolded s(1)]]
  show ?thesis
    using outstanding_ok_step [OF ok(2,6) assms(2)] par_ok_step [OF ok(9) assms(2)] assms(3) by (auto simp: live_ok_def s)
qed

lemma worker_load_cong:
  assumes "worker_ok config root B w l" and "\<forall>fd \<in> set (worker_fds l). listing fd (trace w') = listing fd (trace w)"
  shows "worker_load B w' l = worker_load B w l"
proof (cases l)
  case (Processing acts)
  have "act_load B w' a = act_load B w a" if "a \<in> set acts" for a
    using act_load_cong [of config root B a w w'] assms that Processing by auto
  then have "sum_list (map (act_load B w') acts) = sum_list (map (act_load B w) acts)" by (intro arg_cong [where f = sum_list] map_cong) auto
  then show ?thesis using Processing by (simp add: worker_load_def)
qed (simp_all add: worker_load_def)

text \<open>The action of the innermost activation leaves the listings of the outer ones alone.\<close>

lemma outer_listings:
  assumes env: "par_env_ok env conc config root B"
    and l: "worker_ok config root B w (Processing (a # outer))" "distinct (worker_fds (Processing (a # outer)))"
    and q: "queue_entries_ok config root (directory_queue sh)" and c: "calls_ok config root cs0 (walk_calls w)"
    and p: "bc_io_walk_process_directory env conc config i a (sh, w) = Some (inner, sh', w')" and b: "b \<in> set outer"
  shows "\<forall>fd \<in> set (act_fds b). listing fd (trace w') = listing fd (trace w)"
proof -
  have a: "act_ok config root B a w" and "act_ok config root B b w" using l(1) b by simp_all
  have ut: "untouched (set (act_fds a)) (trace w) (trace w')"
    using process_ok [OF env a q c, of i] p by (auto simp: act_step_ok_def)
  show ?thesis using l(2) b \<open>act_ok config root B b w\<close> by (intro ballI untouchedD [OF ut] act_fds_listed) auto
qed

lemma processing_load:
  assumes env: "par_env_ok env conc config root B" and l: "worker_ok config root B w (Processing acts)" "distinct (worker_fds (Processing acts))"
    and q: "queue_entries_ok config root (directory_queue sh)" and c: "calls_ok config root cs0 (walk_calls w)"
    and t: "bc_io_walk_worker_task env conc config i (Processing acts) (sh, w) = Some (l', sh', w')"
  shows "worker_load B w' l' + queue_load B (directory_queue sh') < worker_load B w (Processing acts) + queue_load B (directory_queue sh)"
proof -
  obtain a outer inner where p: "acts = a # outer" "bc_io_walk_process_directory env conc config i a (sh, w) = Some (inner, sh', w')"
    "l' = (if inner @ outer = [] then Directory_done (act_reader a) else Processing (inner @ outer))" using t by (blast elim: worker_cases)
  have a: "act_ok config root B a w" using l(1) p(1) by simp
  have "act_load B w' b = act_load B w b" if b: "b \<in> set outer" for b
    using outer_listings [OF env l [unfolded p(1)] q c p(2) b] l(1) p(1) b by (intro act_load_cong) auto
  then have "sum_list (map (act_load B w') outer) = sum_list (map (act_load B w) outer)" by (intro arg_cong [where f = sum_list] map_cong) auto
  then have "sum_list (map (act_load B w') (inner @ outer)) + queue_load B (directory_queue sh') <
      sum_list (map (act_load B w) acts) + queue_load B (directory_queue sh)"
    using process_load [OF env a p(2)] p(1) by simp
  then show ?thesis using p(3) by (auto simp: worker_load_def)
qed

lemma worker_busy:
  assumes ok: "live_ok env conc config root B cs0 ls (sh, w)" and i: "i < length ls"
    and t: "bc_io_walk_worker_task env conc config i (ls ! i) (sh, w) = Some (l', sh', w')" and b: "\<not> looking_for_work (ls ! i)"
  shows "worker_load B w' l' + queue_load B (directory_queue sh') < worker_load B w (ls ! i) + queue_load B (directory_queue sh)"
proof (cases "\<exists>acts. ls ! i = Processing acts")
  case True
  then obtain acts where l: "ls ! i = Processing acts" by blast
  note d = live_okD [OF ok]
  have "distinct (worker_fds (ls ! i))" using d(5) unfolding concat_map_update [OF i] by simp
  then show ?thesis using processing_load [OF d(1) d(3) [OF i, unfolded l] _ d(7,8) t [unfolded l]] l by simp
next
  case False
  then show ?thesis
    using t b by (cases "ls ! i") (auto simp: bc_io_walk_worker_task_def worker_load_def count_stats_def Let_def
        split: prod.splits option.splits)
qed

lemma worker_defined:
  assumes "par_ok env conc config root B cs0 ls (sh, w)" and "i < length ls" and "\<not> worker_finished (ls ! i)"
  shows "\<exists>l sh' w'. bc_io_walk_worker_task env conc config i (ls ! i) (sh, w) = Some (l, sh', w')"
  by (rule par_ok_turn [OF assms]) blast

lemma worker_looking:
  assumes ok: "live_ok env conc config root B cs0 ls (sh, w)" and i: "i < length ls"
    and t: "bc_io_walk_worker_task env conc config i (ls ! i) (sh, w) = Some (l', sh', w')" and b: "looking_for_work (ls ! i)"
  shows "worker_load B w' l' + queue_load B (directory_queue sh') < worker_load B w (ls ! i) + queue_load B (directory_queue sh) \<or>
    worker_load B w' l' + queue_load B (directory_queue sh') = worker_load B w (ls ! i) + queue_load B (directory_queue sh) \<and>
    looking_for_work l' \<and> pending (directory_queue sh') = pending (directory_queue sh) \<and>
    (list_all (\<lambda>l. worker_finished l \<or> looking_for_work l) ls \<longrightarrow>
      patience l' (directory_queue sh) < patience (ls ! i) (directory_queue sh))"
proof (cases "ls ! i")
  case (Pop_directory rd)
  show ?thesis
  proof (cases "conc_queue_pop conc (directory_queue sh)")
    case None
    then have "pending (directory_queue sh) = {#}" using queue_okD(2) live_okD(2) [OF ok] by blast
    then show ?thesis
      using t Pop_directory None by (auto simp: bc_io_walk_worker_task_def worker_load_def patience_def queue_load_def)
  next
    case (Some e)
    then have e: "e \<in># pending (directory_queue sh)" using queue_okD(1) live_okD(2) [OF ok] by blast
    then obtain p where "queued_at e p (queue_depth e)" using live_okD(7) [OF ok] by (auto simp: queue_entries_ok_def)
    then have "unat (queue_absolute_path_length e) < 4096" by (auto simp: queued_at_def holds_path_def)
    note pc = path_cost_eq [OF this, of "B * 8193"]
    show ?thesis
      using t Pop_directory Some pc queue_load_pop [OF e, of B]
      by (auto simp: bc_io_walk_worker_task_def worker_load_def act_load_def place_load_def start_activation_def Let_def)
  qed
next
  case (Load_outstanding rd)
  have "outstanding_directory_count sh = 0" if "list_all (\<lambda>l. worker_finished l \<or> looking_for_work l) ls" "pending (directory_queue sh) = {#}"
  proof -
    have "in_hand l = 0" if "worker_finished l \<or> looking_for_work l" for l
      using that by (cases l) (auto simp: in_hand_def worker_finished_def)
    then have none: "(\<Sum>l \<leftarrow> ls. in_hand l) = 0" using that(1) by (auto simp: list_all_iff)
    show ?thesis using outstanding_exact [OF live_okD(6,4) [OF ok]] unfolding none that(2) by simp
  qed
  then show ?thesis
    using t Load_outstanding by (auto simp: bc_io_walk_worker_task_def worker_load_def patience_def split: if_splits)
next
  case (Check_stop rd)
  then show ?thesis using t by (auto simp: bc_io_walk_worker_task_def worker_load_def patience_def split: if_splits prod.splits)
next
  case (Check_failed rd)
  then show ?thesis using t by (auto simp: bc_io_walk_worker_task_def worker_load_def patience_def split: if_splits)
qed (use b in auto)

interpretation live: fair_progress "bc_io_walk_worker_task env conc config" "live_ok env conc config root B cs0" worker_finished looking_for_work
  "\<lambda>l (sh, w). worker_load B w l" "\<lambda>(sh, w). queue_load B (directory_queue sh)" "\<lambda>l (sh, w). patience l (directory_queue sh)"
  for env conc config root B cs0
proof (unfold_locales, goal_cases)
  case (1 ls s i l s')
  then show ?case by (rule live_ok_step)
next
  case (2 l)
  then show ?case by (cases l) (auto simp: worker_finished_def)
next
  case (3 ls s i)
  then show ?case using worker_defined by (cases s) (auto simp: live_ok_def)
next
  case (4 ls s i l s')
  then show ?case using worker_busy by (cases s; cases s') auto
next
  case (5 ls s i l s')
  obtain sh w sh' w' where s: "s = (sh, w)" "s' = (sh', w')" by fastforce
  have "patience l (directory_queue sh') = patience l (directory_queue sh)" if "pending (directory_queue sh') = pending (directory_queue sh)" for l
    using that by (simp add: patience_def)
  then show ?case using worker_looking [OF 5(1) [unfolded s] 5(2) 5(3) [unfolded s] 5(4)] unfolding s prod.case by blast
next
  case (6 ls s i l s' j)
  obtain sh w sh' w' where s: "s = (sh, w)" "s' = (sh', w')" by fastforce
  have ok: "par_ok env conc config root B cs0 ls (sh, w)" and t: "bc_io_walk_worker_task env conc config i (ls ! i) (sh, w) = Some (l, sh', w')"
    using 6 s by (auto simp: live_ok_def)
  have wok: "worker_ok config root B w (ls ! j)" using ok 6(4) by (auto simp: par_ok_def)
  have "\<forall>fd \<in> set (worker_fds (ls ! j)). listing fd (trace w') = listing fd (trace w)"
    by (rule par_ok_turn [OF ok 6(2) finished_no_action [OF t]]) (use t 6(4,5) in auto)
  then show ?case using worker_load_cong [OF wok] by (simp add: s)
qed

end
