(* ===== verification/IO_Walk_Par_End.thy ===== *)
theory IO_Walk_Par_End
  imports IO_Walk_Par_Live
begin

text \<open>
  The parallel walk as a whole: the state its workers start in and the state they leave, what the result, the statistics and
  the callbacks are then, and a sample of the library it runs on.
\<close>

section \<open>The walk as a whole\<close>

lemma root_entry_queued:
  assumes core: "bc_core_ok env" and buf: "holds_path buf (config_root_length config) root"
  obtains e where "root_queue_entry env buf (config_root_length config) = Some e" and "queued_at e root 0"
proof -
  have "load_le (drop 4104 (replicate 4112 0)) = 0" unfolding drop_replicate by (rule load_le_zeros)
  then have "root_queue_entry env buf (config_root_length config) = queue_entry_for env buf (config_root_length config) 0"
    by (simp add: root_queue_entry_def bc_core_okD(3) [OF core] sizeof_bc_io_walk_queue_entry_def)
  then show thesis using queue_entry_for_holds [OF core buf, of 0] that by metis
qed

text \<open>The state in which the workers start.\<close>

definition started :: "bc_concurrency \<Rightarrow> size_t \<Rightarrow> bc_io_walk_queue_entry \<Rightarrow> bc_io_walk_shared \<Rightarrow> bool" where
  "started conc cap e sh \<longleftrightarrow> push_root conc cap e = (True, sh)"

lemma started_ok:
  assumes env: "par_env_ok env conc config root B" and e: "queued_at e root 0" and sh: "started conc cap e sh"
  shows "live_ok env conc config root B (walk_calls w) (replicate n Create_reader) (sh, w)"
proof -
  have q: "directory_queue sh = [Queue_made cap, Pushed e True]" "outstanding_directory_count sh = 1"
    using sh by (auto simp: started_def push_root_def initial_shared_def Let_def)
  have p: "pending (directory_queue sh) = {#e#}" by (simp add: q pending_def)
  have "below config root root 0" unfolding below_def by (intro exI [of _ "[]"]) simp
  then have "queue_entries_ok config root (directory_queue sh)" using e by (auto simp: queue_entries_ok_def p queued_at_def)
  moreover have "worker_fds Create_reader = []" "worker_amount open_pushes open_process Create_reader = 0"
    by (simp_all add: worker_amount_def open_process_def)
  moreover have "(\<Sum>l \<leftarrow> replicate n Create_reader. worker_amount open_pushes open_process l) = 0"
    by (induction n) (simp_all add: worker_amount_def open_process_def)
  ultimately show ?thesis
    using env q p by (auto simp: live_ok_def par_ok_def outstanding_ok_def calls_ok_def queue_count_def concat_replicate_trivial)
qed

definition tasks :: "bc_concurrency \<Rightarrow> bc_io_walk_config \<Rightarrow> nat" where
  "tasks conc config = conc_tasks_run conc (config_concurrency_context config)
     (conc_effective_worker_count conc (config_concurrency_context config))"

lemma walk_parallel_eq:
  assumes ok: "config_ok config root" and ctx: "config_concurrency_context config \<noteq> NULL" and buf: "config_root config = Some buf"
    and e: "root_queue_entry env buf (config_root_length config) = Some e"
  shows "bc_io_walk_parallel env conc config w =
    (let cap = effective_capacity config; mem = config_main_memory_context config;
         created = conc_queue_create conc (trace w) mem sizeof_bc_io_walk_queue_entry cap;
         w = log_event (Ev_queue_create mem sizeof_bc_io_walk_queue_entry cap created) w
     in case created of
          None \<Rightarrow> Some ((False, None), w)
        | Some queue \<Rightarrow> (case push_root conc cap e of (pushed, sh) \<Rightarrow>
            if \<not> pushed then Some ((False, None), log_event (Ev_queue_destroy queue) w)
            else map_option (\<lambda>(ls, sh, w).
              ((conc_dispatch_and_wait conc (config_concurrency_context config) \<and> \<not> shared_visit_failed sh, Some (shared_stats sh)),
               log_event (Ev_queue_destroy queue) w))
              (run_threads (bc_io_walk_worker_task env conc config) worker_finished (conc_schedule conc) 0
                (replicate (tasks conc config) Create_reader) (sh, w))))"
proof -
  have "unat (config_root_length config) = length root" "length root < 4096" "root \<noteq> []"
    using ok by (auto simp: config_ok_def holds_path_def)
  then have "config_root_length config \<noteq> 0" "\<not> config_root_length config \<ge> BC_IO_MAX_PATH_LENGTH"
    by (auto simp: BC_IO_MAX_PATH_LENGTH_def word_le_nat_alt)
  then show ?thesis
    using assms by (auto simp: bc_io_walk_parallel_def config_ok_def tasks_def Let_def map_option_case split: option.split prod.split)
qed

text \<open>The queue can be created and takes its first entry.\<close>

definition queue_available :: "bc_concurrency \<Rightarrow> history \<Rightarrow> bc_io_walk_config \<Rightarrow> bool" where
  "queue_available conc h config \<longleftrightarrow>
     conc_queue_create conc h (config_main_memory_context config) sizeof_bc_io_walk_queue_entry (effective_capacity config) \<noteq> None \<and>
     (\<forall>e. conc_queue_push conc [Queue_made (effective_capacity config)] e)"

text \<open>A walk that returns either found no room for its queue, or its workers ran to their ends.\<close>

lemma walk_parallel_result:
  assumes env: "par_env_ok env conc config root B" and ctx: "config_concurrency_context config \<noteq> NULL"
    and res: "bc_io_walk_parallel env conc config w = Some (r, w')"
  obtains (nothing) "r = (False, None)" and "walk_calls w' = walk_calls w" and "\<And>x. balance (trace w') x = balance (trace w) x"
      and "\<not> queue_available conc (trace w) config"
  | (ran) queue e sh0 w1 ls sh w2 where "queued_at e root 0" and "started conc (effective_capacity config) e sh0"
      and "\<And>x. balance (trace w1) x = balance (trace w) x + of_bool (x = Queue queue)" and "walk_calls w1 = walk_calls w"
      and "tally is_opening (trace w1) = tally is_opening (trace w)"
      and "interleaved (bc_io_walk_worker_task env conc config) (replicate (tasks conc config) Create_reader) (sh0, w1) ls (sh, w2)"
      and "list_all worker_finished ls" and "live_ok env conc config root B (walk_calls w) ls (sh, w2)"
      and "r = (conc_dispatch_and_wait conc (config_concurrency_context config) \<and> \<not> shared_visit_failed sh, Some (shared_stats sh))"
      and "w' = log_event (Ev_queue_destroy queue) w2" and "filter reader_refused (trace w1) = filter reader_refused (trace w)"
proof -
  have core: "bc_core_ok env" and cfg: "config_ok config root" using env by (simp_all add: par_env_ok_def)
  obtain buf where buf: "config_root config = Some buf" "holds_path buf (config_root_length config) root"
    using cfg by (auto simp: config_ok_def)
  obtain e where e: "root_queue_entry env buf (config_root_length config) = Some e" "queued_at e root 0"
    by (rule root_entry_queued [OF core buf(2)])
  let ?cap = "effective_capacity config" and ?mem = "config_main_memory_context config"
  let ?created = "conc_queue_create conc (trace w) ?mem sizeof_bc_io_walk_queue_entry ?cap"
  let ?w = "log_event (Ev_queue_create ?mem sizeof_bc_io_walk_queue_entry ?cap ?created) w"
  note eq = walk_parallel_eq [where w = w and conc = conc, OF cfg ctx buf(1) e(1)]
  obtain pushed sh0 where p: "push_root conc ?cap e = (pushed, sh0)" by fastforce
  show thesis
  proof (cases "\<exists>queue. ?created = Some queue \<and> pushed")
    case False
    then show thesis
      using res unfolding eq Let_def p prod.case 
      by - (rule nothing, use p in \<open>auto simp: queue_available_def push_root_def initial_shared_def Let_def split: option.splits if_splits\<close>)
  next
    case True
    then obtain queue where q: "?created = Some queue" "pushed" by blast
    then obtain ls sh w2 where run: "run_threads (bc_io_walk_worker_task env conc config) worker_finished (conc_schedule conc) 0
        (replicate (tasks conc config) Create_reader) (sh0, ?w) = Some (ls, sh, w2)"
      and r: "r = (conc_dispatch_and_wait conc (config_concurrency_context config) \<and> \<not> shared_visit_failed sh, Some (shared_stats sh))"
        "w' = log_event (Ev_queue_destroy queue) w2"
      using res unfolding eq Let_def p prod.case by (auto split: if_splits)
    note il = run_threads_interleaved [OF run]
    have st: "started conc ?cap e sh0" using p q(2) by (simp add: started_def)
    have "live_ok env conc config root B (walk_calls ?w) (replicate (tasks conc config) Create_reader) (sh0, ?w)"
      by (rule started_ok [OF env e(2) st])
    then have "live_ok env conc config root B (walk_calls w) ls (sh, w2)"
      using live.ok_interleaved [OF il(1)] by simp
    then show thesis
      using il q(1) r e(2) st by (intro ran [of e sh0 ?w queue ls sh w2]) simp_all
  qed
qed

lemma finished_workers: "list_all worker_finished ls \<Longrightarrow> ls = replicate (length ls) Worker_done"
  by (induction ls) (auto simp: worker_finished_def)

lemma sum_finished: "list_all worker_finished ls \<Longrightarrow> f Worker_done = (0 :: 'a::comm_monoid_add) \<Longrightarrow> (\<Sum>l \<leftarrow> ls. f l) = 0"
  by (induction ls) (auto simp: worker_finished_def)

lemma sum_starting: "f Create_reader = (0 :: 'a::comm_monoid_add) \<Longrightarrow> (\<Sum>l \<leftarrow> replicate n Create_reader. f l) = 0"
  by (induction n) auto

section \<open>Failed visits\<close>

text \<open>A worker that is about to set the flag after a visit that returned false.\<close>

definition storing :: "walk_worker \<Rightarrow> bool" where
  "storing l \<longleftrightarrow> (\<exists>acts. l = Processing acts \<and> (\<exists>a \<in> set acts. act_place a = Store_failed))"

text \<open>
  The report of a worker that got no reader, told from the report of a reader refused for a directory processed in place:
  it carries the path of the root, and the paths of the directories found are longer.
\<close>

definition worker_report :: "bytes \<Rightarrow> walk_call \<Rightarrow> bool" where
  "worker_report root c \<longleftrightarrow> alloc_report c \<and> (\<exists>stage e. c = Error_called root stage e)"

lemma worker_report_simps [simp]:
  "worker_report root (Error_called path stage e) \<longleftrightarrow> path = root \<and> stage = ''dirent-reader-alloc''"
  "\<not> worker_report root (Visit_called v ok)" "\<not> worker_report root (Filter_called v ok)"
  "\<not> worker_report root (Descend_called v ok)" "\<not> worker_report root (Stop_called ok)"
  by (auto simp: worker_report_def)

definition refusals :: "'w walk_world_scheme \<Rightarrow> nat" where
  "refusals w = length (filter is_refusal (walk_calls w))"

definition worker_reports :: "bytes \<Rightarrow> 'w walk_world_scheme \<Rightarrow> nat" where
  "worker_reports root w = length (filter (worker_report root) (walk_calls w))"

text \<open>An activation is not about to make a report that looks like a worker's.\<close>

definition own_report :: "bytes \<Rightarrow> activation \<Rightarrow> bool" where
  "own_report root a \<longleftrightarrow> (case act_place a of
     Count_error path stage _ _ \<Rightarrow> path = root \<longrightarrow> stage \<noteq> ''dirent-reader-alloc''
   | Call_on_error path stage _ _ \<Rightarrow> path = root \<longrightarrow> stage \<noteq> ''dirent-reader-alloc''
   | _ \<Rightarrow> True)"

lemma foldl_joined_longer: "root \<noteq> [] \<Longrightarrow> length root \<le> length (foldl joined root names) \<and> foldl joined root names \<noteq> []"
  by (induction names rule: rev_induct) (auto dest: joined_longer [THEN less_imp_le] simp: joined_def intro: le_trans)

lemma fallback_below:
  assumes "act_ok config root B a w" and "act_place a = Create_fallback sub" and "root \<noteq> []"
  shows "c_text (queue_absolute_path sub) 0 \<noteq> root"
proof -
  obtain p names n where p: "p = foldl joined root names" "queued_at sub (joined p n) (act_depth a + 1)"
    using assms(1,2) by (auto simp: act_ok_def place_ok_def below_def)
  then have "c_text (queue_absolute_path sub) 0 = joined p n" using holds_pathD(2) by (auto simp: queued_at_def)
  moreover have "length root < length (joined p n)"
    using foldl_joined_longer [OF assms(3), of names] joined_longer [of p n] p(1) by simp
  ultimately show ?thesis by auto
qed

lemma process_own_report:
  assumes "bc_io_walk_process_directory env conc config i a (sh, w) = Some (inner, sh', w')"
    and "act_ok config root B a w" and "own_report root a" and "root \<noteq> []"
  shows "worker_reports root w' = worker_reports root w" and "\<forall>b \<in> set inner. own_report root b"
proof -
  have "worker_reports root w' = worker_reports root w \<and> (\<forall>b \<in> set inner. own_report root b)"
  proof (cases "act_place a = Next_entry_of_reader")
    case True
    note st = next_stage [OF assms(1) True]
    from assms(1) True show ?thesis
      by (rule next_place) (use True st in \<open>auto simp: reader_frame_def quiet_calls worker_reports_def own_report_def\<close>)
  next
    case False
    then show ?thesis
      using assms(1,3) fallback_below [OF assms(2) _ assms(4)]
      by (cases "act_place a"; clarsimp simp: par_defs sys_open_def sys_close_def pool_allocate_def pool_free_def answer_def
          split: if_splits prod.splits option.splits sum.splits onward.splits;
        auto simp: worker_reports_def own_report_def quiet_calls dest!: resolve_entry_stats_only)
  qed
  then show "worker_reports root w' = worker_reports root w" and "\<forall>b \<in> set inner. own_report root b" by auto
qed

lemma process_refusals:
  assumes "bc_io_walk_process_directory env conc config i a (sh, w) = Some (inner, sh', w')"
  shows "refusals w' = refusals w + of_bool (act_place a \<noteq> Store_failed \<and> (\<exists>b \<in> set inner. act_place b = Store_failed))"
    and "shared_visit_failed sh' \<longleftrightarrow> shared_visit_failed sh \<or> act_place a = Store_failed"
    and "act_place a = Store_failed \<Longrightarrow> \<forall>b \<in> set inner. act_place b \<noteq> Store_failed"
proof -
  have "refusals w' = refusals w + of_bool (act_place a \<noteq> Store_failed \<and> (\<exists>b \<in> set inner. act_place b = Store_failed)) \<and>
    (shared_visit_failed sh' \<longleftrightarrow> shared_visit_failed sh \<or> act_place a = Store_failed) \<and>
    (act_place a = Store_failed \<longrightarrow> (\<forall>b \<in> set inner. act_place b \<noteq> Store_failed))"
  proof (cases "act_place a = Next_entry_of_reader")
    case True
    with assms show ?thesis
      by (rule next_place) (use True in \<open>auto simp: reader_frame_def quiet_calls refusals_def\<close>)
  next
    case False
    then show ?thesis
      using assms
      by (cases "act_place a"; clarsimp simp: par_defs sys_open_def sys_close_def pool_allocate_def pool_free_def answer_def
          split: if_splits prod.splits option.splits sum.splits onward.splits;
        auto simp: refusals_def quiet_calls dest!: resolve_entry_stats_only)
  qed
  then show "refusals w' = refusals w + of_bool (act_place a \<noteq> Store_failed \<and> (\<exists>b \<in> set inner. act_place b = Store_failed))"
    and "shared_visit_failed sh' \<longleftrightarrow> shared_visit_failed sh \<or> act_place a = Store_failed"
    and "act_place a = Store_failed \<Longrightarrow> \<forall>b \<in> set inner. act_place b \<noteq> Store_failed" by auto
qed

text \<open>What an action of a worker does to the flag and to what the flag stands for.\<close>

definition own_reports :: "bytes \<Rightarrow> walk_worker \<Rightarrow> bool" where
  "own_reports root l \<longleftrightarrow> (\<forall>acts. l = Processing acts \<longrightarrow> (\<forall>a \<in> set acts. own_report root a))"

definition failure_step :: "bytes \<Rightarrow> walk_worker \<Rightarrow> 'w sharing \<Rightarrow> walk_worker \<Rightarrow> 'w sharing \<Rightarrow> bool" where
  "failure_step root l = (\<lambda>(sh, w) l' (sh', w').
     own_reports root l' \<and> refusals w \<le> refusals w' \<and> (refusals w' \<noteq> refusals w \<longrightarrow> storing l') \<and>
     (storing l \<longrightarrow> storing l' \<or> shared_visit_failed sh') \<and> (storing l' \<longrightarrow> storing l \<or> refusals w < refusals w') \<and>
     (shared_visit_failed sh \<longrightarrow> shared_visit_failed sh') \<and>
     (shared_visit_failed sh' \<longrightarrow> shared_visit_failed sh \<or> storing l \<or> l' = Call_alloc_error) \<and>
     (l' = Call_alloc_error \<longrightarrow> shared_visit_failed sh') \<and>
     worker_reports root w' = worker_reports root w + of_bool (l = Call_alloc_error))"

lemma worker_failure_step:
  assumes "bc_io_walk_worker_task env conc config i l s = Some (l', s')" and "worker_ok config root B (snd s) l"
    and "own_reports root l" and cfg: "config_ok config root" "config_on_error config"
  shows "failure_step root l s l' s'"
proof -
  obtain sh w sh' w' where s: "s = (sh, w)" "s' = (sh', w')" by fastforce
  have "root \<noteq> []" using cfg(1) by (auto simp: config_ok_def holds_path_def)
  then obtain buf where buf: "config_root config = Some buf" "c_text buf 0 = root" "root \<noteq> []"
    using cfg(1) holds_pathD(2) by (auto simp: config_ok_def)
  show ?thesis
  proof (cases "\<exists>acts. l = Processing acts")
    case True
    then obtain acts where l: "l = Processing acts" by blast
    with assms(1) s obtain a outer inner where w: "acts = a # outer"
      "bc_io_walk_process_directory env conc config i a (sh, w) = Some (inner, sh', w')"
      "l' = (if inner @ outer = [] then Directory_done (act_reader a) else Processing (inner @ outer))" by (blast elim: worker_cases)
    have st: "storing l \<longleftrightarrow> act_place a = Store_failed \<or> (\<exists>b \<in> set outer. act_place b = Store_failed)"
      "storing l' \<longleftrightarrow> (\<exists>b \<in> set inner. act_place b = Store_failed) \<or> (\<exists>b \<in> set outer. act_place b = Store_failed)"
      using l w(1,3) by (auto simp: storing_def)
    have a: "act_ok config root B a w" "own_report root a" "\<forall>b \<in> set outer. own_report root b"
      using assms(2,3) l w(1) s by (auto simp: own_reports_def)
    have l': "l' \<noteq> Call_alloc_error" "l \<noteq> Call_alloc_error" using w(3) l by auto
    have "own_reports root l'" using process_own_report(2) [OF w(2) a(1,2) buf(3)] a(3) w(3) by (auto simp: own_reports_def)
    then show ?thesis
      unfolding failure_step_def s prod.case st
      using process_refusals [OF w(2)] process_own_report(1) [OF w(2) a(1,2) buf(3)] l' by auto
  next
    case False
    then show ?thesis
      using assms(1) cfg(2) buf unfolding s
      by (cases l) (auto simp: bc_io_walk_worker_task_def bc_io_walk_should_stop_def bc_io_dirent_reader_create_def
          bc_io_dirent_reader_destroy_def pool_allocate_def pool_free_def answer_def count_stats_def tell_error_def start_activation_def
          failure_step_def storing_def own_reports_def own_report_def refusals_def worker_reports_def Let_def
          split: if_splits prod.splits option.splits sum.splits)
  qed
qed

text \<open>
  The flag says whether a visit was refused or a worker had no reader, up to what the workers are about to do; the bounds
  are the counts at the start.
\<close>

definition failure_ok :: "bytes \<Rightarrow> nat \<Rightarrow> nat \<Rightarrow> walk_worker list \<Rightarrow> 'w sharing \<Rightarrow> bool" where
  "failure_ok root n m ls = (\<lambda>(sh, w). n \<le> refusals w \<and> m \<le> worker_reports root w \<and> (\<forall>l \<in> set ls. own_reports root l) \<and>
     (shared_visit_failed sh \<or> (\<exists>l \<in> set ls. storing l) \<longleftrightarrow>
        n < refusals w \<or> Call_alloc_error \<in> set ls \<or> m < worker_reports root w) \<and>
     (Call_alloc_error \<in> set ls \<or> m < worker_reports root w \<longrightarrow> shared_visit_failed sh))"

lemma in_update: "i < length ls \<Longrightarrow> x \<in> set (ls[i := l]) \<longleftrightarrow> x = l \<or> (\<exists>j < length ls. j \<noteq> i \<and> ls ! j = x)"
  by (auto simp: in_set_conv_nth nth_list_update)

lemma in_split: "i < length ls \<Longrightarrow> x \<in> set ls \<longleftrightarrow> x = ls ! i \<or> (\<exists>j < length ls. j \<noteq> i \<and> ls ! j = x)"
  by (auto simp: in_set_conv_nth)

lemma failure_ok_step:
  assumes ok: "failure_ok root n m ls s" and i: "i < length ls" and st: "failure_step root (ls ! i) s l s'"
  shows "failure_ok root n m (ls[i := l]) s'"
proof -
  obtain sh w sh' w' where s: "s = (sh, w)" "s' = (sh', w')" by fastforce
  define others where "others = {ls ! j |j. j < length ls \<and> j \<noteq> i}"
  have set: "set (ls[i := l]) = insert l others" "set ls = insert (ls ! i) others"
    using in_update [OF i, of _ l] in_split [OF i] by (auto simp: others_def)
  define F where "F = (\<exists>l \<in> others. storing l)"
  define C where "C = (Call_alloc_error \<in> others)"
  have o: "n \<le> refusals w" "m \<le> worker_reports root w" "\<forall>l \<in> others. own_reports root l"
    "shared_visit_failed sh \<or> storing (ls ! i) \<or> F \<longleftrightarrow> n < refusals w \<or> ls ! i = Call_alloc_error \<or> C \<or> m < worker_reports root w"
    "ls ! i = Call_alloc_error \<or> C \<or> m < worker_reports root w \<longrightarrow> shared_visit_failed sh"
    using ok unfolding failure_ok_def s prod.case set F_def C_def by auto
  note r = st [unfolded failure_step_def s prod.case]
  have w: "worker_reports root w' = worker_reports root w + of_bool (ls ! i = Call_alloc_error)" "refusals w \<le> refusals w'" "own_reports root l"
    using r by blast+
  have down: "ls ! i = Call_alloc_error \<or> m < worker_reports root w \<longleftrightarrow> m < worker_reports root w'" using w(1) o(2) by (cases "ls ! i = Call_alloc_error") auto
  have alloc: "l = Call_alloc_error \<or> C \<or> m < worker_reports root w' \<longrightarrow> shared_visit_failed sh'" using r o(5) down by blast
  have more: "n < refusals w \<Longrightarrow> n < refusals w'" "refusals w < refusals w' \<Longrightarrow> n < refusals w'" using w(2) o(1) by linarith+
  have same: "n < refusals w' \<Longrightarrow> n < refusals w \<or> refusals w' \<noteq> refusals w" by auto
  have "shared_visit_failed sh' \<or> storing l \<or> F \<longleftrightarrow> n < refusals w' \<or> l = Call_alloc_error \<or> C \<or> m < worker_reports root w'" (is "?L \<longleftrightarrow> ?R")
  proof
    assume ?L
    then consider "shared_visit_failed sh \<or> storing (ls ! i) \<or> F" | "l = Call_alloc_error" | "refusals w < refusals w'" using r by blast
    then show ?R using o(4) down more by cases blast+
  next
    assume ?R
    then consider "n < refusals w" | "refusals w' \<noteq> refusals w" | "l = Call_alloc_error \<or> C \<or> m < worker_reports root w'" using same by blast
    then show ?L using o(4) r alloc by cases blast+
  qed
  then show ?thesis
    unfolding failure_ok_def s prod.case set using o(1-3) w alloc unfolding F_def C_def by auto
qed

lemma live_failure_step:
  assumes "live_ok env conc config root B cs0 ls s \<and> config_on_error config \<and> failure_ok root n m ls s" and "i < length ls"
    and "bc_io_walk_worker_task env conc config i (ls ! i) s = Some (l, s')"
  shows "live_ok env conc config root B cs0 (ls[i := l]) s' \<and> config_on_error config \<and> failure_ok root n m (ls[i := l]) s'"
proof -
  have live: "live_ok env conc config root B cs0 ls (fst s, snd s)" and "own_reports root (ls ! i)"
    using assms(1,2) by (auto simp: failure_ok_def)
  then have "failure_step root (ls ! i) s l s'"
    using assms(1) live_okD(1,3) [OF live] assms(2) by (intro worker_failure_step [OF assms(3)]) (auto simp: par_env_ok_def)
  then show ?thesis using failure_ok_step assms live.ok_step by blast
qed

interpretation failures: invariant_steps "bc_io_walk_worker_task env conc config"
  "\<lambda>ls s. live_ok env conc config root B cs0 ls s \<and> config_on_error config \<and> failure_ok root n m ls s"
  for env conc config root B cs0 n m
  by unfold_locales (rule live_failure_step)

text \<open>The queue never holds more than its capacity.\<close>

definition capacity_ok :: "bc_concurrency \<Rightarrow> nat \<Rightarrow> walk_worker list \<Rightarrow> 'w sharing \<Rightarrow> bool" where
  "capacity_ok conc cap ls = (\<lambda>(sh, w). queue_ok conc \<and> queue_capacity (directory_queue sh) = cap \<and> directory_queue sh \<noteq> [] \<and>
     size (pending (directory_queue sh)) \<le> cap)"

lemma queue_capacity_append: "ops \<noteq> [] \<Longrightarrow> queue_capacity (ops @ ops') = queue_capacity ops"
  by (cases ops rule: queue_capacity.cases) auto

lemma capacity_ok_step:
  assumes ok: "capacity_ok conc cap ls s" and t: "bc_io_walk_worker_task env conc config i l s = Some (l', s')"
  shows "capacity_ok conc cap ls' s'"
proof -
  obtain sh w sh' w' where s: "s = (sh, w)" "s' = (sh', w')" by fastforce
  let ?ops = "directory_queue sh"
  have h: "queue_ok conc" "queue_capacity ?ops = cap" "?ops \<noteq> []" "size (pending ?ops) \<le> cap" using ok by (simp_all add: capacity_ok_def s)
  have pop: "size (queue_effect (pending ?ops) (Popped x)) \<le> cap" for x
    using h(4) by (cases x) (auto intro: le_trans [OF size_mset_mono [OF diff_subset_eq_self]])
  have push: "size (queue_effect (pending ?ops) (Pushed sub (conc_queue_push conc ?ops sub))) \<le> cap" for sub
    using h(2,4) queue_okD(3) [OF h(1), of ?ops sub] by auto
  from worker_queue [OF t [unfolded s]] show ?thesis
    using h pop push by (auto simp: capacity_ok_def s queue_capacity_append)
qed

interpretation capacity: invariant_steps "bc_io_walk_worker_task env conc config" "capacity_ok conc cap" for env conc config cap
  by unfold_locales (rule capacity_ok_step)

section \<open>A sample of bc-concurrency\<close>

text \<open>A bounded first-in-first-out queue and two workers that take turns.\<close>

fun queue_list_effect :: "bc_io_walk_queue_entry list \<Rightarrow> queue_op \<Rightarrow> bc_io_walk_queue_entry list" where
  "queue_list_effect xs (Pushed e ok) = (if ok then xs @ [e] else xs)"
| "queue_list_effect xs (Popped (Some e)) = remove1 e xs"
| "queue_list_effect xs _ = xs"

definition queue_list :: "queue_op list \<Rightarrow> bc_io_walk_queue_entry list" where
  "queue_list ops = foldl queue_list_effect [] ops"

lemma mset_queue_list: "mset (queue_list ops) = pending ops"
proof (induction ops rule: rev_induct)
  case (snoc op ops)
  then show ?case by (cases "(queue_list ops, op)" rule: queue_list_effect.cases) (auto simp: queue_list_def)
qed (simp add: queue_list_def)

definition sample_conc :: bc_concurrency where
  "sample_conc = \<lparr>
     conc_queue_create = (\<lambda>_ _ _ _. Some 4096),
     conc_queue_push = (\<lambda>ops _. length (queue_list ops) < queue_capacity ops),
     conc_queue_pop = (\<lambda>ops. case queue_list ops of [] \<Rightarrow> None | e # _ \<Rightarrow> Some e),
     conc_worker_memory = (\<lambda>_. NULL),
     conc_effective_worker_count = (\<lambda>_. 2),
     conc_tasks_run = (\<lambda>_ n. unat n),
     conc_dispatch_and_wait = (\<lambda>_. True),
     conc_schedule = (\<lambda>k. k mod 2)\<rparr>"

lemma sample_conc_ok: "queue_ok sample_conc"
proof -
  have "e \<in># pending ops" if "queue_list ops = e # xs" for e xs ops using that by (simp flip: mset_queue_list)
  moreover have "pending ops = {#}" if "queue_list ops = []" for ops using that mset_queue_list [of ops] by simp
  moreover have "size (pending ops) = length (queue_list ops)" for ops using mset_queue_list [of ops] by (metis size_mset)
  ultimately show ?thesis by (auto simp: queue_ok_def sample_conc_def split: list.splits)
qed

lemma sample_par_ok: "par_env_ok (serving sample_fs) sample_conc sample_config [0x72] 2"
  using serving_ok [OF sample_fs_ok] sample_conc_ok sample_config_ok by (simp add: par_env_ok_def)

lemma sample_tasks: "tasks sample_conc sample_config = 2" "config_concurrency_context sample_config \<noteq> NULL"
  "fair (tasks sample_conc sample_config) (conc_schedule sample_conc)"
  using fair_round_robin [of 2] by (simp_all add: tasks_def sample_conc_def sample_config_def)

section \<open>Properties\<close>

lemma walk_parallel_terminates:
  assumes env: "par_env_ok env conc config root B" and ctx: "config_concurrency_context config \<noteq> NULL"
    and fair: "fair (tasks conc config) (conc_schedule conc)"
  shows "\<exists>r w'. bc_io_walk_parallel env conc config w = Some (r, w')"
proof -
  have core: "bc_core_ok env" and cfg: "config_ok config root" using env by (simp_all add: par_env_ok_def)
  obtain buf where buf: "config_root config = Some buf" "holds_path buf (config_root_length config) root"
    using cfg by (auto simp: config_ok_def)
  obtain e where e: "root_queue_entry env buf (config_root_length config) = Some e" "queued_at e root 0"
    by (rule root_entry_queued [OF core buf(2)])
  have run: "\<exists>ls' s'. run_threads (bc_io_walk_worker_task env conc config) worker_finished (conc_schedule conc) 0
      (replicate (tasks conc config) Create_reader) (sh, w) = Some (ls', s')"
    if "push_root conc (effective_capacity config) e = (True, sh)" for sh and w :: "'a walk_world_scheme"
  proof (rule live.fair_run_returns)
    show "fair (length (replicate (tasks conc config) Create_reader)) (conc_schedule conc)" using fair by simp
    show "live_ok env conc config root B (walk_calls w) (replicate (tasks conc config) Create_reader) (sh, w)"
      using started_ok [OF env e(2)] that by (simp add: started_def)
  qed
  obtain pushed sh0 where p: "push_root conc (effective_capacity config) e = (pushed, sh0)" by fastforce
  show ?thesis
    unfolding walk_parallel_eq [OF cfg ctx buf(1) e(1)] Let_def p prod.case using run p by (fastforce split: option.split)
qed

lemma walk_parallel_balanced:
  assumes "par_env_ok env conc config root B" and "config_concurrency_context config \<noteq> NULL"
    and "bc_io_walk_parallel env conc config w = Some (r, w')"
  shows "balance (trace w') x = balance (trace w) x"
  using assms
proof (cases rule: walk_parallel_result)
  case (ran queue e sh0 w1 ls sh w2)
  have "balance (trace w2) x + (\<Sum>l \<leftarrow> ls. - worker_holds x l) =
      balance (trace w1) x + (\<Sum>l \<leftarrow> replicate (tasks conc config) Create_reader. - worker_holds x l)"
    using resources.settled [OF ran(6), of x] by simp
  then show ?thesis using ran(3,10) sum_finished [OF ran(7), of "\<lambda>l. - worker_holds x l"] sum_starting [of "\<lambda>l. - worker_holds x l"] by simp
qed

text \<open>
  C12 The parallel walk always returns and leaks nothing: for every configuration it accepts, every behaviour of the
  callbacks, every kernel and allocator whose listings are well formed and finite, and every schedule that lets each
  worker act again and again, all workers finish; every descriptor, every reader and the queue were given back.
\<close>

theorem walk_parallel_returns:
  assumes "par_env_ok env conc config root B" and "config_concurrency_context config \<noteq> NULL"
    and "fair (tasks conc config) (conc_schedule conc)"
  shows "\<exists>r w'. bc_io_walk_parallel env conc config w = Some (r, w') \<and> (\<forall>x. balance (trace w') x = balance (trace w) x)"
  using walk_parallel_terminates [OF assms] walk_parallel_balanced [OF assms(1,2)] by blast

theorem walk_parallel_returns_witness:
  "\<exists>r w'. bc_io_walk_parallel (serving sample_fs) sample_conc sample_config walk_start = Some (r, w') \<and>
     (\<forall>x. balance (trace w') x = balance (trace walk_start) x)"
  by (rule walk_parallel_returns [OF sample_par_ok sample_tasks(2,3)])

text \<open>
  C13 The count of outstanding directories is right at every moment, whatever the order of the workers' actions: it is the
  number of directories in the queue and in the hands of the workers. As long as the capacity of the queue plus two for each worker
  is below \<open>2 ^ 32\<close>, so that the count cannot wrap to zero, it is zero exactly when there is nothing in the queue and
  no worker has a directory: a worker that leaves because it read zero leaves no work behind.
\<close>

theorem walk_parallel_outstanding:
  assumes "par_env_ok env conc config root B" and "queued_at e root 0" and "started conc cap e sh0" and "unat cap + 2 * n < 2 ^ 32"
    and "interleaved (bc_io_walk_worker_task env conc config) (replicate n Create_reader) (sh0, w0) ls (sh, w)"
  shows "outstanding_directory_count sh = of_nat (size (pending (directory_queue sh)) + (\<Sum>l \<leftarrow> ls. in_hand l)) \<and>
    (outstanding_directory_count sh = 0 \<longleftrightarrow> pending (directory_queue sh) = {#} \<and> (\<forall>l \<in> set ls. in_hand l = 0))"
proof -
  have "live_ok env conc config root B (walk_calls w0) (replicate n Create_reader) (sh0, w0)" by (rule started_ok [OF assms(1-3)])
  then have live: "live_ok env conc config root B (walk_calls w0) ls (sh, w)" by (rule live.ok_interleaved [OF assms(5)])
  note d = live_okD(6,4) [OF live]
  have q: "directory_queue sh0 = [Queue_made cap, Pushed e True]" "conc_queue_push conc [Queue_made cap] e"
    using assms(3) by (auto simp: started_def push_root_def initial_shared_def Let_def)
  have "capacity_ok conc (unat cap) (replicate n Create_reader) (sh0, w0)"
    using live_okD(2) [OF live] queue_okD(3) [OF live_okD(2) [OF live] q(2)] by (simp add: capacity_ok_def q(1) pending_def)
  then have "capacity_ok conc (unat cap) ls (sh, w)" by (rule capacity.ok_interleaved [OF assms(5)])
  moreover have "length ls = n" using interleaved_length [OF assms(5)] by simp
  ultimately have "size (pending (directory_queue sh)) + 2 * length ls < 2 ^ 32" using assms(4) by (simp add: capacity_ok_def)
  note zero = nothing_outstanding [OF d _ this]
  have none: "(\<Sum>l \<leftarrow> ls. in_hand l) = 0" if "\<forall>l \<in> set ls. in_hand l = 0" using that by simp
  have exact: "outstanding_directory_count sh = of_nat (size (pending (directory_queue sh)) + (\<Sum>l \<leftarrow> ls. in_hand l))"
    by (rule outstanding_exact [OF d])
  moreover have "outstanding_directory_count sh = 0" if "pending (directory_queue sh) = {#}" "\<forall>l \<in> set ls. in_hand l = 0"
    unfolding exact none [OF that(2)] that(1) by simp
  ultimately show ?thesis using zero by blast
qed

lemma sample_run:
  obtains queue e sh0 w1 ls sh w2 where "queued_at e [0x72] 0" and "started sample_conc 16384 e sh0"
    and "interleaved (bc_io_walk_worker_task (serving sample_fs) sample_conc sample_config) (replicate 2 Create_reader) (sh0, w1) ls (sh, w2)"
    and "list_all worker_finished ls"
    and "bc_io_walk_parallel (serving sample_fs) sample_conc sample_config walk_start =
      Some ((\<not> shared_visit_failed sh, Some (shared_stats sh)), log_event (Ev_queue_destroy queue) w2)"
proof -
  obtain r w' where r: "bc_io_walk_parallel (serving sample_fs) sample_conc sample_config walk_start = Some (r, w')"
    using walk_parallel_terminates [OF sample_par_ok sample_tasks(2,3)] by blast
  have cap: "effective_capacity sample_config = 16384"
    by (simp add: effective_capacity_def sample_config_def BC_IO_WALK_DEFAULT_QUEUE_CAPACITY_def)
  show thesis
  proof (rule walk_parallel_result [OF sample_par_ok sample_tasks(2) r])
    assume "\<not> queue_available sample_conc (trace walk_start) sample_config"
    moreover have "queue_available sample_conc (trace walk_start) sample_config"
      unfolding queue_available_def cap by (simp add: sample_conc_def queue_list_def)
    ultimately show thesis ..
  next
    fix queue e sh0 w1 ls sh w2
    assume "queued_at e [0x72] 0" "started sample_conc (effective_capacity sample_config) e sh0"
      "interleaved (bc_io_walk_worker_task (serving sample_fs) sample_conc sample_config) (replicate (tasks sample_conc sample_config) Create_reader)
        (sh0, w1) ls (sh, w2)" "list_all worker_finished ls"
      "r = (conc_dispatch_and_wait sample_conc (config_concurrency_context sample_config) \<and> \<not> shared_visit_failed sh, Some (shared_stats sh))"
      "w' = log_event (Ev_queue_destroy queue) w2"
    then show thesis using r that [of e sh0 w1 ls sh w2 queue] by (simp add: cap sample_tasks(1)) (simp add: sample_conc_def)
  qed
qed

theorem walk_parallel_outstanding_witness:
  "\<exists>n e sh0 (w0 :: walk_world) ls sh (w :: walk_world). interleaved (bc_io_walk_worker_task (serving sample_fs) sample_conc sample_config) (replicate n Create_reader)
      (sh0, w0) ls (sh, w) \<and> list_all worker_finished ls \<and> started sample_conc 16384 e sh0 \<and>
    outstanding_directory_count sh = of_nat (size (pending (directory_queue sh)) + (\<Sum>l \<leftarrow> ls. in_hand l))"
proof -
  obtain e sh0 ls sh and w1 w2 :: walk_world where r: "queued_at e [0x72] 0" "started sample_conc 16384 e sh0"
    "interleaved (bc_io_walk_worker_task (serving sample_fs) sample_conc sample_config) (replicate 2 Create_reader) (sh0, w1) ls (sh, w2)"
    "list_all worker_finished ls"
    by (rule sample_run) blast
  have "unat (16384 :: size_t) + 2 * 2 < 2 ^ 32" by simp
  note o = walk_parallel_outstanding [OF sample_par_ok r(1,2) this r(3)]
  show ?thesis using conjunct1 [OF o] r by blast
qed

text \<open>
  C14 The result and the statistics of the parallel walk say what happened: the counters, which all workers share, are the
  numbers of visited regular files, of directories opened, of entries the filter rejected, and of reported errors. The walk
  succeeds exactly when the tasks were dispatched, no visit returned false, and no worker reported that it has no reader.
  A report of a refused reader was made for each refused allocation and for nothing else; a worker that has no reader makes it
  with the path of the root, which fails the walk. The report of a reader that was refused for a directory processed in
  place has the path of that directory, and does not.
\<close>

theorem walk_parallel_accounts:
  assumes "par_env_ok env conc config root B" and "config_concurrency_context config \<noteq> NULL" and "config_on_error config"
    and "bc_io_walk_parallel env conc config w = Some ((ok, Some stats), w')"
    and "trace w' = trace w @ h" and "walk_calls w' = walk_calls w @ cs"
  shows "files_visited stats = tally is_file_visit cs \<and> directories_visited stats = tally is_opening h \<and>
    files_skipped stats = tally is_rejection cs \<and> errors_encountered stats = tally is_error_call cs \<and>
    (ok \<longleftrightarrow> conc_dispatch_and_wait conc (config_concurrency_context config) \<and>
       filter is_refusal cs = [] \<and> filter (worker_report root) cs = []) \<and>
    length (filter alloc_report cs) = length (filter reader_refused h)"
  using assms(1,2,4)
proof (cases rule: walk_parallel_result)
  case (ran queue e sh0 w1 ls sh w2)
  have start: "shared_stats sh0 = \<lparr>files_visited = 0, directories_visited = 0, files_skipped = 0, errors_encountered = 0\<rparr>"
    "\<not> shared_visit_failed sh0" using ran(2) by (auto simp: started_def push_root_def initial_shared_def Let_def)
  let ?f = "\<lambda>k. worker_amount (\<lambda>a. ledger_at k (act_place a)) (ledger_of k)" and ?g = "worker_amount refused_at refused_of"
  have zero: "?f k Worker_done = 0" "?f k Create_reader = 0" "?g Worker_done = 0" "?g Create_reader = 0" for k
    by (cases k; simp add: worker_amount_def refused_of_def)+
  have "ledger_total k (sh, w2) = ledger_total k (sh0, w1)" for k
    using ledgers.settled [OF ran(6) assms(3), of k] sum_finished [OF ran(7), of "?f k"] sum_starting [of "?f k"] zero by simp
  note l = this [of Files] this [of Skips] this [of Directories] this [of Errors]
  have calls: "walk_calls w2 = walk_calls w1 @ cs" using ran(4,10) assms(6) by simp
  have tr: "tally is_opening (trace w2) = tally is_opening (trace w1) + tally is_opening h"
    "filter reader_refused (trace w2) = filter reader_refused (trace w1) @ filter reader_refused h"
    using arg_cong [OF assms(5), of "tally is_opening"] arg_cong [OF assms(5), of "filter reader_refused"] ran(5,10,11) by simp_all
  have "refused_total (sh, w2) = refused_total (sh0, w1)"
    using refused.settled [OF ran(6) assms(3)] sum_finished [OF ran(7), of ?g] sum_starting [of ?g] zero by simp
  then have "length (filter alloc_report cs) = length (filter reader_refused h)" using tr(2) calls by (simp add: refused_total_def)
  moreover have "live_ok env conc config root B (walk_calls w) (replicate (tasks conc config) Create_reader) (sh0, w1)"
    using started_ok [OF assms(1) ran(1,2), of w1] ran(4) by simp
  then have "failure_ok root (refusals w1) (worker_reports root w1) ls (sh, w2)"
    using failures.ok_interleaved [OF ran(6), of root B "walk_calls w" "refusals w1" "worker_reports root w1"] start(2) assms(3)
    by (auto simp: failure_ok_def storing_def own_reports_def)
  then have "shared_visit_failed sh \<longleftrightarrow> filter is_refusal cs \<noteq> [] \<or> filter (worker_report root) cs \<noteq> []"
    using ran(7) calls by (auto simp: failure_ok_def storing_def refusals_def worker_reports_def list_all_iff worker_finished_def)
  moreover have "ok \<longleftrightarrow> conc_dispatch_and_wait conc (config_concurrency_context config) \<and> \<not> shared_visit_failed sh"
    "stats = shared_stats sh" using ran(9) by simp_all
  ultimately show ?thesis using l start(1) calls tr(1) by simp
qed simp

theorem walk_parallel_accounts_witness:
  "\<exists>ok stats w' h cs. bc_io_walk_parallel (serving sample_fs) sample_conc sample_config walk_start = Some ((ok, Some stats), w') \<and>
    trace w' = trace walk_start @ h \<and> walk_calls w' = walk_calls walk_start @ cs \<and>
    files_visited stats = tally is_file_visit cs \<and> errors_encountered stats = tally is_error_call cs \<and>
    (ok \<longleftrightarrow> filter is_refusal cs = [] \<and> filter (worker_report [0x72]) cs = []) \<and>
    length (filter alloc_report cs) = length (filter reader_refused h)"
proof -
  obtain queue and sh :: bc_io_walk_shared and w2 :: walk_world where run: "bc_io_walk_parallel (serving sample_fs) sample_conc sample_config walk_start =
      Some ((\<not> shared_visit_failed sh, Some (shared_stats sh)), log_event (Ev_queue_destroy queue) w2)"
    by (rule sample_run) blast
  let ?w = "log_event (Ev_queue_destroy queue) w2"
  have "trace ?w = trace walk_start @ trace ?w" "walk_calls ?w = walk_calls walk_start @ walk_calls ?w" by (simp_all add: walk_start_def)
  from walk_parallel_accounts [OF sample_par_ok sample_tasks(2) _ run this] have
    "files_visited (shared_stats sh) = tally is_file_visit (walk_calls ?w) \<and> errors_encountered (shared_stats sh) = tally is_error_call (walk_calls ?w) \<and>
     (\<not> shared_visit_failed sh \<longleftrightarrow> filter is_refusal (walk_calls ?w) = [] \<and> filter (worker_report [0x72]) (walk_calls ?w) = []) \<and>
     length (filter alloc_report (walk_calls ?w)) = length (filter reader_refused (trace ?w))"
    by (simp add: sample_config_def) (simp add: sample_conc_def)
  then show ?thesis using run \<open>trace ?w = _\<close> \<open>walk_calls ?w = _\<close> by blast
qed

text \<open>
  C15 Where the parallel walk goes. Whichever worker calls it, a callback only sees entries below the root: the path is the
  root extended by one name per level of the depth, none of them \<^verbatim>\<open>.\<close> or \<^verbatim>\<open>..\<close>, and none hidden unless hidden entries were asked
  for, shorter than 4096 bytes and with the right length. Only files and directories are visited, and only directories
  are candidates for descending.
\<close>

theorem walk_parallel_stays_below:
  assumes "par_env_ok env conc config root B" and "config_concurrency_context config \<noteq> NULL"
    and "bc_io_walk_parallel env conc config w = Some (r, w')" and "walk_calls w' = walk_calls w @ cs"
  shows "list_all (call_ok config root 0) cs"
  using assms(1-3)
proof (cases rule: walk_parallel_result)
  case (ran queue e sh0 w1 ls sh w2)
  then show ?thesis using live_okD(8) [OF ran(8)] assms(4) by (auto simp: calls_ok_def list_all_iff)
qed (use assms(4) in simp)

theorem walk_parallel_stays_below_witness:
  "\<exists>r w' cs. bc_io_walk_parallel (serving sample_fs) sample_conc sample_config walk_start = Some (r, w') \<and>
    walk_calls w' = walk_calls walk_start @ cs \<and> list_all (call_ok sample_config [0x72] 0) cs"
proof -
  obtain r w' where run: "bc_io_walk_parallel (serving sample_fs) sample_conc sample_config walk_start = Some (r, w')"
    by (rule sample_run) blast
  have "walk_calls w' = walk_calls walk_start @ walk_calls w'" by (simp add: walk_start_def)
  with walk_parallel_stays_below [OF sample_par_ok sample_tasks(2) run this] run show ?thesis by blast
qed

end
