(* ===== verification/IO_Walk_Tree.thy ===== *)
theory IO_Walk_Tree
  imports IO_Walk_Seq
begin

text \<open>
  What the sequential walk visits. A file system that does not change while it is walked is a function from paths
  to directory listings and one from paths to status; the entries the walk must visit are then a
  recursive function of the two, of the configuration, and of the decisions of the callbacks. The theorem at the
  end says that the walk visits exactly these entries, in this order.
\<close>

section \<open>The specification\<close>

definition kind_of_mode :: "u32 \<Rightarrow> bc_io_walk_entry_kind" where
  "kind_of_mode mode =
     (if S_ISREG mode then BC_IO_WALK_ENTRY_FILE
      else if S_ISDIR mode then BC_IO_WALK_ENTRY_DIRECTORY
      else if S_ISLNK mode then BC_IO_WALK_ENTRY_SYMLINK
      else BC_IO_WALK_ENTRY_OTHER)"

definition kind_of_dtype :: "u8 \<Rightarrow> bc_io_walk_entry_kind" where
  "kind_of_dtype t =
     (if t = DT_REG then BC_IO_WALK_ENTRY_FILE
      else if t = DT_DIR then BC_IO_WALK_ENTRY_DIRECTORY
      else if t = DT_LNK then BC_IO_WALK_ENTRY_SYMLINK
      else BC_IO_WALK_ENTRY_OTHER)"

text \<open>
  The kind of an entry: from the status of the entry itself when the kernel does not tell the type, else from
  the type, where a link to follow counts as the file or directory it leads to.
\<close>

definition spec_kind :: "bool \<Rightarrow> u8 \<Rightarrow> (u32 \<Rightarrow> c_stat) \<Rightarrow> bc_io_walk_entry_kind" where
  "spec_kind follow t st =
     (if t = DT_UNKNOWN then kind_of_mode (st_mode (st AT_SYMLINK_NOFOLLOW))
      else if t = DT_LNK \<and> follow \<and> (S_ISREG (st_mode (st 0)) \<or> S_ISDIR (st_mode (st 0))) then kind_of_mode (st_mode (st 0))
      else kind_of_dtype t)"

text \<open>Whether the status of the entry is reported, and from which query it comes.\<close>

definition spec_populated :: "bool \<Rightarrow> u8 \<Rightarrow> bool" where
  "spec_populated follow t \<longleftrightarrow> t = DT_UNKNOWN \<or> t = DT_REG \<or> t = DT_DIR \<or> t = DT_LNK \<and> follow"

definition spec_status :: "bool \<Rightarrow> u8 \<Rightarrow> (u32 \<Rightarrow> c_stat) \<Rightarrow> c_stat" where
  "spec_status follow t st = st (if t \<noteq> DT_UNKNOWN \<and> follow then 0 else AT_SYMLINK_NOFOLLOW)"

definition spec_entry :: "snapshot \<Rightarrow> bool \<Rightarrow> bytes \<Rightarrow> size_t \<Rightarrow> dirent \<Rightarrow> bc_io_walk_entry" where
  "spec_entry fs follow p dep d =
     (let q = child_of p (dirent_name d); t = dirent_type d; st = spec_status follow t (snap_stat fs q);
          shown = (\<lambda>x. if spec_populated follow t then x else 0)
      in \<lparr>absolute_path = q, absolute_path_length = of_nat (length q), entry_kind = spec_kind follow t (snap_stat fs q),
          file_size = shown (st_size st), depth = dep + 1, device_id = shown (st_dev st), inode_number = shown (st_ino st),
          modification_time_seconds = shown (st_mtim_sec st),
          permission_mask = (if t \<noteq> DT_UNKNOWN \<and> spec_populated follow t then st_mode st AND 0xFFF else 0),
          stat_populated = spec_populated follow t\<rparr>)"

text \<open>What a callback that only looks at the entry decides.\<close>

definition decides :: "(bc_io_walk_entry \<Rightarrow> bool) callback \<Rightarrow> (bc_io_walk_entry \<Rightarrow> bool) \<Rightarrow> bool" where
  "decides callback f \<longleftrightarrow> (case callback of None \<Rightarrow> f = (\<lambda>_. True) | Some g \<Rightarrow> \<forall>h cs. g h cs = f)"

record choices =
  choose_filter :: "bc_io_walk_entry \<Rightarrow> bool"
  choose_descend :: "bc_io_walk_entry \<Rightarrow> bool"

definition follows :: "bc_io_walk_config \<Rightarrow> choices \<Rightarrow> bool" where
  "follows config ch \<longleftrightarrow> decides (config_filter config) (choose_filter ch) \<and>
     decides (config_should_descend config) (choose_descend ch) \<and>
     decides (config_visit config) (\<lambda>_. True) \<and> config_visit config \<noteq> None \<and>
     (\<forall>f h cs. config_should_stop_check config = Some f \<longrightarrow> \<not> f h cs)"

definition wanted :: "choices \<Rightarrow> bc_io_walk_entry \<Rightarrow> bool" where
  "wanted ch e \<longleftrightarrow> choose_filter ch e \<and>
     (entry_kind e = BC_IO_WALK_ENTRY_FILE \<or> entry_kind e = BC_IO_WALK_ENTRY_DIRECTORY)"

text \<open>The entry of a record if it is to be visited.\<close>

definition selected :: "snapshot \<Rightarrow> bc_io_walk_config \<Rightarrow> choices \<Rightarrow> bytes \<Rightarrow> size_t \<Rightarrow> dirent \<Rightarrow> bc_io_walk_entry option" where
  "selected fs config ch p dep d =
     (let e = spec_entry fs (config_follow_symlinks config) p dep d
      in if hd (dirent_name d) = 0x2E \<and> \<not> config_include_hidden config then None
         else if length (child_of p (dirent_name d)) \<ge> 4096 then None
         else if wanted ch e then Some e else None)"

function expected :: "snapshot \<Rightarrow> bc_io_walk_config \<Rightarrow> choices \<Rightarrow> bytes \<Rightarrow> size_t \<Rightarrow> bc_io_walk_entry list" where
  "expected fs config ch p dep =
     concat (map (\<lambda>d. case selected fs config ch p dep d of
         None \<Rightarrow> []
       | Some e \<Rightarrow> e # (if entry_kind e = BC_IO_WALK_ENTRY_DIRECTORY \<and> choose_descend ch e
                       then expected fs config ch (child_of p (dirent_name d)) (dep + 1) else []))
       (filter (\<lambda>d. \<not> dot_entry d) (case snap_dirs fs p of None \<Rightarrow> [] | Some batches \<Rightarrow> concat batches)))"
  by pat_completeness auto
termination
  by (relation "measure (\<lambda>(fs, config, ch, p, dep). 4096 - length p)")
    (auto simp: selected_def child_of_def Let_def split: if_splits)

declare expected.simps [simp del]

section \<open>A kernel that presents a snapshot\<close>

definition presents :: "io_env \<Rightarrow> snapshot \<Rightarrow> bool" where
  "presents env fs \<longleftrightarrow> descriptors_fresh env \<and>
     (\<forall>p b. snap_dirs fs p = Some b \<longrightarrow> lists_directory env p b \<and> (\<forall>h fl m. \<exists>fd. env_open env h p fl m = Inr fd)) \<and>
     (\<forall>p. snap_dirs fs p = None \<longrightarrow> (\<forall>h fl m. \<exists>e. env_open env h p fl m = Inl e)) \<and>
     (\<forall>h c n. \<exists>a. env_pool_allocate env h c n = Inr a) \<and>
     (\<forall>h fd p k n fl. listing fd h = Some (p, k) \<longrightarrow> env_fstatat env h fd n fl = Inr (snap_stat fs (child_of p n) fl))"

lemma child_joined: "p \<noteq> [] \<Longrightarrow> joined p n = child_of p n"
  by (simp add: joined_def child_of_def)

definition spec_resolution :: "snapshot \<Rightarrow> bool \<Rightarrow> bytes \<Rightarrow> u8 \<Rightarrow> resolution" where
  "spec_resolution fs follow q t =
     (let st = spec_status follow t (snap_stat fs q); shown = (\<lambda>x. if spec_populated follow t then x else 0)
      in \<lparr>resolved_kind = spec_kind follow t (snap_stat fs q), resolved_file_size = shown (st_size st),
          resolved_device_id = shown (st_dev st), resolved_inode_number = shown (st_ino st),
          resolved_modification_time = shown (st_mtim_sec st),
          resolved_permission_mask = (if t \<noteq> DT_UNKNOWN \<and> spec_populated follow t then st_mode st AND 0xFFF else 0),
          resolved_populated = spec_populated follow t\<rparr>)"

lemma walk_entry_of_spec:
  assumes "q = child_of p (dirent_name d)" and "length q < 4096" and "c = overwrite 0 (q @ [0]) mem"
  shows "walk_entry_of c (of_nat (length q)) (dep + 1) (spec_resolution fs follow q (dirent_type d)) = spec_entry fs follow p dep d"
proof -
  have "take (unat (of_nat (length q) :: size_t)) c = q"
    using assms(2) unfolding assms(3) by (simp add: unat_of_nat64 overwrite_def)
  then show ?thesis
    by (simp add: walk_entry_of_def spec_resolution_def spec_entry_def Let_def assms(1))
qed

lemma dtype_distinct: "DT_REG \<noteq> DT_UNKNOWN" "DT_DIR \<noteq> DT_UNKNOWN" "DT_LNK \<noteq> DT_UNKNOWN" "DT_REG \<noteq> DT_DIR" "DT_REG \<noteq> DT_LNK"
  "DT_DIR \<noteq> DT_LNK"
  by (simp_all add: dt_defs)

lemma kind_from_type: "bc_io_walk_sequential_entry_kind_from_type (bc_io_file_dtype_to_entry_type t) = kind_of_dtype t"
  "bc_io_walk_sequential_entry_kind_from_type (entry_type_of_mode m) = kind_of_mode m"
  by (simp_all add: bc_io_walk_sequential_entry_kind_from_type_def bc_io_file_dtype_to_entry_type_def kind_of_dtype_def
      entry_type_of_mode_def kind_of_mode_def)

lemma resolve_exact:
  assumes fs: "presents env fs" and l: "listing fd (trace w) = Some (p, k)"
  shows "\<exists>w'. resolve_entry env follow fd t n w = (Some (spec_resolution fs follow (child_of p n) t), w')"
proof -
  have st: "env_fstatat env (trace w) fd n fl = Inr (snap_stat fs (child_of p n) fl)" for fl
    using fs l unfolding presents_def by blast
  have k: "kind_of_dtype t = BC_IO_WALK_ENTRY_FILE \<longleftrightarrow> t = DT_REG" "kind_of_dtype t = BC_IO_WALK_ENTRY_DIRECTORY \<longleftrightarrow> t = DT_DIR"
    "kind_of_dtype t = BC_IO_WALK_ENTRY_SYMLINK \<longleftrightarrow> t = DT_LNK"
    using dtype_distinct by (auto simp: kind_of_dtype_def)
  show ?thesis
  proof (cases "t = DT_UNKNOWN")
    case True
    then show ?thesis
      by (simp add: resolve_entry_def resolve_type_def resolve_status_def bc_io_file_stat_if_unknown_def sys_fstatat_def answer_def st
          kind_from_type spec_resolution_def spec_populated_def spec_status_def spec_kind_def Let_def)
  next
    case known: False
    show ?thesis
    proof (cases "t = DT_REG \<or> t = DT_DIR \<or> t = DT_LNK \<and> follow")
      case True
      then show ?thesis
        using known dtype_distinct
        by (auto simp: resolve_entry_def resolve_type_def resolve_status_def sys_fstatat_def answer_def st kind_from_type k
            spec_resolution_def spec_populated_def spec_status_def spec_kind_def kind_of_mode_def Let_def)
    next
      case False
      then show ?thesis
        using known by (auto simp: resolve_entry_def resolve_type_def resolve_status_def kind_from_type k
            spec_resolution_def spec_populated_def spec_status_def spec_kind_def Let_def)
    qed
  qed
qed

section \<open>The walk step by step\<close>

definition visited :: "walk_call list \<Rightarrow> bc_io_walk_entry list" where
  "visited cs = concat (map (\<lambda>c. case c of Visit_called e _ \<Rightarrow> [e] | _ \<Rightarrow> []) cs)"

lemma visited_simps [simp]: "visited [] = []" "visited (a @ b) = visited a @ visited b"
  "visited [Visit_called e ok] = [e]" "visited [Filter_called e ok] = []" "visited [Descend_called e ok] = []"
  "visited [Stop_called ok] = []" "visited [Error_called q st en] = []"
  by (simp_all add: visited_def)

text \<open>From \<open>sw\<close> to \<open>sw'\<close> exactly the entries \<open>es\<close> were visited, all with success.\<close>

definition moved :: "int set \<Rightarrow> 'w walking \<Rightarrow> bc_io_walk_entry list \<Rightarrow> 'w walking \<Rightarrow> bool" where
  "moved F = (\<lambda>(s, w) es (s', w'). \<not> visit_failed s' \<and> visited (walk_calls w') = visited (walk_calls w) @ es \<and>
     untouched F (trace w) (trace w'))"

lemma moved_trans: "moved F sw es sw' \<Longrightarrow> moved F sw' es' sw'' \<Longrightarrow> moved F sw (es @ es') sw''"
  by (auto simp: moved_def intro: untouched_trans split: prod.splits)

lemma untouched_mono: "untouched {} h h' \<Longrightarrow> untouched F h h'"
  by (simp add: untouched_def)

lemma moved_mono: "moved {} sw es sw' \<Longrightarrow> moved F sw es sw'"
  by (auto simp: moved_def intro: untouched_mono split: prod.splits)

lemma ask_decides:
  assumes "decides callback f"
  shows "\<exists>w'. ask callback mk e w = (f e, w') \<and> trace w' = trace w \<and>
    walk_calls w' = walk_calls w @ (if callback = None then [] else [mk e (f e)])"
  using assms by (auto simp: decides_def ask_def Let_def split: option.splits)

lemma judge_exact:
  assumes ch: "follows config ch" and s: "\<not> visit_failed s"
  shows "\<exists>s' w'. judge_entry config r c e (s, w) =
      Some (if wanted ch e \<and> entry_kind e = BC_IO_WALK_ENTRY_DIRECTORY \<and> choose_descend ch e
        then Descend r c (absolute_path_length e) (depth e) else Again r, s', w') \<and>
    \<not> visit_failed s' \<and> trace w' = trace w \<and> visited (walk_calls w') = visited (walk_calls w) @ (if wanted ch e then [e] else [])"
proof -
  have d: "decides (config_filter config) (choose_filter ch)" "decides (config_visit config) (\<lambda>_. True)"
    "decides (config_should_descend config) (choose_descend ch)" and v: "config_visit config \<noteq> None"
    using ch by (simp_all add: follows_def)
  obtain w1 where w1: "ask (config_filter config) Filter_called e w = (choose_filter ch e, w1)" "trace w1 = trace w"
    "visited (walk_calls w1) = visited (walk_calls w)" using ask_decides [OF d(1), of Filter_called e w] by auto
  obtain w2 where w2: "ask (config_visit config) Visit_called e w1 = (True, w2)" "trace w2 = trace w1"
    "visited (walk_calls w2) = visited (walk_calls w1) @ [e]" using ask_decides [OF d(2), of Visit_called e w1] v by auto
  obtain w3 where w3: "ask (config_should_descend config) Descend_called e w2 = (choose_descend ch e, w3)" "trace w3 = trace w2"
    "visited (walk_calls w3) = visited (walk_calls w2)" using ask_decides [OF d(3), of Descend_called e w2] by auto
  show ?thesis
    using w1 w2 w3 v s unfolding judge_entry_def deliver_entry_def wanted_def by (cases "entry_kind e") (auto simp: Let_def)
qed

lemma handle_exact:
  assumes core: "bc_core_ok env" and fs: "presents env fs" and ch: "follows config ch" and s: "\<not> visit_failed s"
    and dir: "holds_path buf len p" and e: "entry_is r e d" and l: "listing fd (trace w) = Some (p, k)"
    and sel_def: "sel = selected fs config ch p dep d"
  shows "\<exists>rnd s' w'. handle_entry env config fd buf len dep r e (s, w) = Some (rnd, s', w') \<and>
    moved F (s, w) (case sel of None \<Rightarrow> [] | Some x \<Rightarrow> [x]) (s', w') \<and> listing fd (trace w') = listing fd (trace w) \<and>
    (case sel of
       Some x \<Rightarrow> if entry_kind x = BC_IO_WALK_ENTRY_DIRECTORY \<and> choose_descend ch x
          then \<exists>c clen. rnd = Descend r c clen (dep + 1) \<and> holds_path c clen (child_of p (dirent_name d)) else rnd = Again r
     | None \<Rightarrow> rnd = Again r)"
proof -
  let ?n = "dirent_name d" and ?f = "config_follow_symlinks config"
  have p: "p \<noteq> []" using dir by (simp add: holds_path_def)
  let ?q = "child_of p ?n"
  let ?c = "overwrite 0 (?q @ [0]) (fresh_memory env (trace w) BC_IO_MAX_PATH_LENGTH)"
  have ok: "dirent_ok d" using e by (simp add: entry_is_def)
  note he = handle_entry_eq [where w = w and config = config and fd = fd and dep = dep and s = s and q = ?q and c = ?c,
      OF core dir e child_joined [OF p, symmetric] refl]
  consider (skip) "hd ?n = 0x2E \<and> \<not> config_include_hidden config"
    | (long) "\<not> (hd ?n = 0x2E \<and> \<not> config_include_hidden config)" "\<not> length ?q < 4096"
    | (fits) "\<not> (hd ?n = 0x2E \<and> \<not> config_include_hidden config)" "length ?q < 4096" by blast
  then show ?thesis
  proof cases
    case skip
    then show ?thesis using he s by (auto simp: sel_def selected_def moved_def)
  next
    case long
    then show ?thesis
      using he s by (auto simp: sel_def selected_def moved_def bc_io_walk_sequential_report_error_def tell_error_def)
  next
    case fits
    obtain w1 where r: "resolve_entry env ?f fd (dirent_type d) ?n w = (Some (spec_resolution fs ?f ?q (dirent_type d)), w1)"
      using resolve_exact [OF fs l] by blast
    obtain h where h: "trace w1 = trace w @ h" "\<forall>ev \<in> set h. \<exists>fd name fl a. ev = Ev_fstatat fd name fl a" "walk_calls w1 = walk_calls w"
      using resolve_entry_stats_only [OF r] by (auto simp: stats_only_def dest: walk_calls_more)
    let ?e = "spec_entry fs ?f p dep d"
    have we: "walk_entry_of ?c (of_nat (length ?q)) (dep + 1) (spec_resolution fs ?f ?q (dirent_type d)) = ?e"
      using walk_entry_of_spec [OF refl fits(2) refl] .
    have he': "handle_entry env config fd buf len dep r e (s, w) = judge_entry config r ?c ?e (s, w1)"
      unfolding he if_not_P [OF fits(1)] r prod.case option.case we using fits(2) by simp
    note j = judge_exact [OF ch s, of r ?c ?e w1, folded he']
    have hp: "holds_path ?c (absolute_path_length ?e) ?q"
      using child_holds_path [OF dir ok] fits(2) child_joined [OF p] by (simp add: spec_entry_def Let_def)
    have ut: "untouched F (trace w) (trace w @ h)" "listing fd (trace w @ h) = listing fd (trace w)"
      using fstatat_effect(2) [OF h(2)] by (simp_all add: untouched_def listing_append)
    have dp: "depth ?e = dep + 1" by (simp add: spec_entry_def Let_def)
    show ?thesis
      using j fits h(1,3) ut hp dp by (auto simp: sel_def selected_def moved_def Let_def)
  qed
qed

lemma stop_exact:
  assumes "follows config ch"
  shows "\<exists>w'. bc_io_walk_sequential_should_stop config w = (False, w') \<and> trace w' = trace w \<and>
    visited (walk_calls w') = visited (walk_calls w)"
  using assms by (auto simp: follows_def bc_io_walk_sequential_should_stop_def Let_def split: option.splits)

lemma lists_only_moved:
  assumes "lists_only fd w w'" and "\<not> visit_failed s"
  shows "moved {fd} (s, w) [] (s, w')"
proof -
  have "walk_calls w' = walk_calls w" using assms(1) by (auto simp: lists_only_def dest: walk_calls_more)
  moreover have "untouched {fd} (trace w) (trace w')"
    by (rule lists_only_effect [OF assms(1)]) (auto simp: untouched_def)
  ultimately show ?thesis using assms(2) by (simp add: moved_def)
qed

lemma moved_quiet:
  "trace w' = trace w \<Longrightarrow> visited (walk_calls w') = visited (walk_calls w) \<Longrightarrow> \<not> visit_failed s \<Longrightarrow> moved F (s, w) [] (s, w')"
  by (simp add: moved_def)

text \<open>What one record contributes.\<close>

definition visits_of :: "snapshot \<Rightarrow> bc_io_walk_config \<Rightarrow> choices \<Rightarrow> bytes \<Rightarrow> size_t \<Rightarrow> dirent \<Rightarrow> bc_io_walk_entry list" where
  "visits_of fs config ch p dep d =
     (case selected fs config ch p dep d of
        None \<Rightarrow> []
      | Some e \<Rightarrow> e # (if entry_kind e = BC_IO_WALK_ENTRY_DIRECTORY \<and> choose_descend ch e
                      then expected fs config ch (child_of p (dirent_name d)) (dep + 1) else []))"

lemma expected_eq:
  "expected fs config ch p dep = concat (map (visits_of fs config ch p dep)
     (filter (\<lambda>d. \<not> dot_entry d) (case snap_dirs fs p of None \<Rightarrow> [] | Some batches \<Rightarrow> concat batches)))"
  by (simp add: expected.simps [of fs config ch p dep] visits_of_def [abs_def])

lemma round_exact:
  assumes core: "bc_core_ok env" and fs: "presents env fs" and ch: "follows config ch" and s: "\<not> visit_failed s"
    and dir: "holds_path buf len p" and b: "lists_directory env p b" and come: "to_come p b r w L" and fd: "reader_dir_fd r = fd"
  shows "case dropWhile dot_entry L of
      [] \<Rightarrow> \<exists>s' w'. read_round env config fd buf len dep r (s, w) = Some (Leave, s', w') \<and> moved {fd} (s, w) [] (s', w')
    | d # L' \<Rightarrow> \<exists>rnd s' w' r'. read_round env config fd buf len dep r (s, w) = Some (rnd, s', w') \<and>
        moved {fd} (s, w) (case selected fs config ch p dep d of None \<Rightarrow> [] | Some x \<Rightarrow> [x]) (s', w') \<and>
        to_come p b r' w' L' \<and> reader_dir_fd r' = fd \<and>
        (case selected fs config ch p dep d of
           Some x \<Rightarrow> if entry_kind x = BC_IO_WALK_ENTRY_DIRECTORY \<and> choose_descend ch x
             then \<exists>c clen. rnd = Descend r' c clen (dep + 1) \<and> holds_path c clen (child_of p (dirent_name d)) else rnd = Again r'
         | None \<Rightarrow> rnd = Again r')"
proof -
  obtain w1 where w1: "bc_io_walk_sequential_should_stop config w = (False, w1)" "trace w1 = trace w"
    "visited (walk_calls w1) = visited (walk_calls w)" using stop_exact [OF ch] by blast
  have "to_come p b r w1 L" using come w1(2) by (simp add: to_come_def)
  from next_lists [OF core b this] obtain res r2 w2 where
    n: "bc_io_dirent_reader_next env r w1 = Some (res, r2, w2)"
      "case dropWhile dot_entry L of [] \<Rightarrow> res = Next_end \<and> to_come p b r2 w2 []
       | d # L' \<Rightarrow> \<exists>e. res = Next_entry e \<and> entry_is r2 e d \<and> to_come p b r2 w2 L'" by blast
  have f: "reader_dir_fd r2 = fd" "lists_only fd w1 w2" using next_frame [OF n(1)] fd by (simp_all add: reader_frame_def)
  have m: "moved {fd} (s, w) [] (s, w2)"
    using moved_trans [OF moved_quiet [OF w1(2,3) s] lists_only_moved [OF f(2) s]] by simp
  have rr: "read_round env config fd buf len dep r (s, w) =
    (case res of
       Next_failed \<Rightarrow> Some (Leave, bc_io_walk_sequential_report_error config p ''getdents64'' (bc_io_dirent_reader_last_errno r2) (s, w2))
     | Next_end \<Rightarrow> Some (Leave, s, w2)
     | Next_entry e \<Rightarrow> handle_entry env config fd buf len dep r2 e (s, w2))"
    using s w1(1) n(1) holds_pathD(2) [OF dir] by (simp add: read_round_def split: next_result.split)
  show ?thesis
  proof (cases "dropWhile dot_entry L")
    case Nil
    then have "res = Next_end" using n(2) unfolding Nil by simp
    then show ?thesis using rr m unfolding Nil by auto
  next
    case (Cons d L')
    then obtain e where e: "res = Next_entry e" "entry_is r2 e d" "to_come p b r2 w2 L'" using n(2) by auto
    obtain k where k: "listing fd (trace w2) = Some (p, k)" using e(3) f(1) by (auto simp: to_come_def)
    from handle_exact [OF core fs ch s dir e(2) k refl, of dep "{fd}"] obtain rnd s' w' where
      h: "handle_entry env config fd buf len dep r2 e (s, w2) = Some (rnd, s', w')"
        "moved {fd} (s, w2) (case selected fs config ch p dep d of None \<Rightarrow> [] | Some x \<Rightarrow> [x]) (s', w')"
        "listing fd (trace w') = listing fd (trace w2)"
        "case selected fs config ch p dep d of
           Some x \<Rightarrow> if entry_kind x = BC_IO_WALK_ENTRY_DIRECTORY \<and> choose_descend ch x
             then \<exists>c clen. rnd = Descend r2 c clen (dep + 1) \<and> holds_path c clen (child_of p (dirent_name d)) else rnd = Again r2
         | None \<Rightarrow> rnd = Again r2" by blast
    have "to_come p b r2 w' L'" using e(3) h(3) f(1) by (simp add: to_come_def)
    then show ?thesis
      unfolding Cons list.case using rr e(1) h(1,4) moved_trans [OF m h(2)] f(1)
      by (intro exI [of _ rnd] exI [of _ s'] exI [of _ w'] exI [of _ r2]) simp
  qed
qed

lemma records_dropWhile: "filter (\<lambda>d. \<not> dot_entry d) L = filter (\<lambda>d. \<not> dot_entry d) (dropWhile dot_entry L)"
  by (induction L) auto

lemma loop_exact:
  assumes core: "bc_core_ok env" and fs: "presents env fs" and ch: "follows config ch"
    and dir: "holds_path buf len p" and b: "lists_directory env p b"
    and deeper: "\<And>c clen n (s :: bc_io_walk_sequential_state) (w :: 'w walk_world_scheme).
      holds_path c clen (child_of p n) \<Longrightarrow> \<not> visit_failed s \<Longrightarrow>
      \<exists>sw'. walk_run env config (Enter c clen (dep + 1)) (s, w) = Some sw' \<and>
        moved {} (s, w) (expected fs config ch (child_of p n) (dep + 1)) sw'"
    and come: "to_come p b r (w :: 'w walk_world_scheme) L" and fd: "reader_dir_fd r = fd" and s: "\<not> visit_failed s"
  shows "\<exists>sw'. walk_run env config (Read fd r buf len dep) (s, w) = Some sw' \<and>
    moved {fd} (s, w) (concat (map (visits_of fs config ch p dep) (filter (\<lambda>d. \<not> dot_entry d) L))) sw'"
  using come fd s
proof (induction "length L" arbitrary: L r s w rule: less_induct)
  case less
  note run = walk_run.simps [of env config "Read fd r buf len dep"]
  note rnd = round_exact [OF core fs ch less.prems(3) dir b less.prems(1,2), of dep]
  show ?case
  proof (cases "dropWhile dot_entry L")
    case Nil
    then have "filter (\<lambda>d. \<not> dot_entry d) L = []" using records_dropWhile [of L] by simp
    then show ?thesis using rnd unfolding Nil by (auto simp: run)
  next
    case (Cons d L')
    let ?sel = "selected fs config ch p dep d"
    have nd: "\<not> dot_entry d" using Cons by (metis hd_dropWhile list.discI list.sel(1))
    then have f: "filter (\<lambda>d. \<not> dot_entry d) L = d # filter (\<lambda>d. \<not> dot_entry d) L'"
      using records_dropWhile [of L] Cons by simp
    have shorter: "length L' < length L" using length_dropWhile_le [of dot_entry L] Cons by simp
    from rnd obtain rd s1 w1 r' where
      h: "read_round env config fd buf len dep r (s, w) = Some (rd, s1, w1)"
        "moved {fd} (s, w) (case ?sel of None \<Rightarrow> [] | Some x \<Rightarrow> [x]) (s1, w1)" "to_come p b r' w1 L'" "reader_dir_fd r' = fd"
        "case ?sel of
           Some x \<Rightarrow> if entry_kind x = BC_IO_WALK_ENTRY_DIRECTORY \<and> choose_descend ch x
             then \<exists>c clen. rd = Descend r' c clen (dep + 1) \<and> holds_path c clen (child_of p (dirent_name d)) else rd = Again r'
         | None \<Rightarrow> rd = Again r'" unfolding Cons list.case by blast
    have s1: "\<not> visit_failed s1" using h(2) by (simp add: moved_def)
    consider (again) "rd = Again r'" "visits_of fs config ch p dep d = (case ?sel of None \<Rightarrow> [] | Some x \<Rightarrow> [x])"
      | (down) x c clen where "?sel = Some x" "rd = Descend r' c clen (dep + 1)" "holds_path c clen (child_of p (dirent_name d))"
          "visits_of fs config ch p dep d = x # expected fs config ch (child_of p (dirent_name d)) (dep + 1)"
      using h(5) by (auto simp: visits_of_def split: option.splits if_splits)
    then show ?thesis
    proof cases
      case again
      from less.hyps [OF shorter h(3,4) s1] show ?thesis
        using h(1) again moved_trans [OF h(2)] f by (auto simp: run)
    next
      case down
      from deeper [OF down(3) s1, of w1] obtain s2 w2 where
        e: "walk_run env config (Enter c clen (dep + 1)) (s1, w1) = Some (s2, w2)"
          "moved {} (s1, w1) (expected fs config ch (child_of p (dirent_name d)) (dep + 1)) (s2, w2)" by (metis surj_pair)
      have s2: "\<not> visit_failed s2" using e(2) by (simp add: moved_def)
      have "listing fd (trace w1) \<noteq> None" using h(3,4) by (auto simp: to_come_def)
      then have "listing fd (trace w2) = listing fd (trace w1)" using e(2) unfolding moved_def untouched_def prod.case by blast
      then have "to_come p b r' w2 L'" using h(3,4) by (simp add: to_come_def)
      from less.hyps [OF shorter this h(4) s2] obtain sw' where
        l: "walk_run env config (Read fd r' buf len dep) (s2, w2) = Some sw'"
          "moved {fd} (s2, w2) (concat (map (visits_of fs config ch p dep) (filter (\<lambda>d. \<not> dot_entry d) L'))) sw'" by blast
      show ?thesis
        using h(1) down e(1) l(1) moved_trans [OF h(2) moved_trans [OF moved_mono [OF e(2)] l(2)]] f by (auto simp: run)
    qed
  qed
qed

lemma enter_exact:
  assumes core: "bc_core_ok env" and fs: "presents env fs" and ch: "follows config ch" and dir: "holds_path buf len p"
    and s: "\<not> visit_failed s"
  shows "case snap_dirs fs p of
      None \<Rightarrow> \<exists>s' w'. enter_directory env config buf (s, w) = (None, s', w') \<and> moved {} (s, w) [] (s', w')
    | Some b \<Rightarrow> \<exists>fd r s' w'. enter_directory env config buf (s, w) = (Some (fd, r), s', w') \<and> moved {} (s, w) [] (s', w') \<and>
        to_come p b r w' (concat b) \<and> reader_dir_fd r = fd \<and> listing fd (trace w) = None"
proof -
  have fresh: "descriptors_fresh env" using fs by (simp add: presents_def)
  obtain w1 where st: "bc_io_walk_sequential_should_stop config w = (False, w1)" "trace w1 = trace w"
    "visited (walk_calls w1) = visited (walk_calls w)" using stop_exact [OF ch] by blast
  obtain fd w2 where op: "sys_open env p (directory_flags config) 0 w1 = (fd, w2)" by fastforce
  obtain cr w3 where cr: "bc_io_dirent_reader_create env (config_main_memory_context config) fd w2 = (cr, w3)" by fastforce
  note eq = enter_directory_eq [OF holds_pathD(2) [OF dir] st(1) op cr, of s]
  let ?a = "env_open env (trace w1) p (directory_flags config) 0"
  have w2: "trace w2 = trace w1 @ [Ev_open p (directory_flags config) 0 ?a]" "walk_calls w2 = walk_calls w1"
    "fd = (case ?a of Inl _ \<Rightarrow> -1 | Inr fd \<Rightarrow> int fd)"
    using op by (auto simp: sys_open_def Let_def answer_def split: sum.splits)
  show ?thesis
  proof (cases "snap_dirs fs p")
    case None
    then obtain e where "?a = Inl e" using fs unfolding presents_def by blast
    then show ?thesis
      using eq s None w2 st
      by (auto simp: moved_def untouched_def bc_io_walk_sequential_report_error_def tell_error_def)
  next
    case (Some b)
    then obtain k where k: "?a = Inr k" using fs unfolding presents_def by blast
    then have fd: "fd = int k" "fd \<ge> 0" using w2(3) by simp_all
    obtain ad where ad: "env_pool_allocate env (trace w2) (config_main_memory_context config) sizeof_bc_io_dirent_reader = Inr ad"
      using fs unfolding presents_def by blast
    then obtain r where r: "cr = Some r" "walk_calls w3 = walk_calls w2"
      using cr by (auto simp: bc_io_dirent_reader_create_def pool_allocate_def answer_def)
    have en: "enter_directory env config buf (s, w) = (Some (fd, r), count_directory s, w3)" using eq s fd r(1) by simp
    note e = enter_directory_some [OF fresh dir en]
    have "to_come p b r w3 (concat b)" using e(2,5,6) by (auto simp: to_come_def)
    moreover have "moved {} (s, w) [] (count_directory s, w3)"
      using s st w2(2) r(2) e(1) by (auto simp: moved_def count_directory_def walked_def)
    ultimately show ?thesis using en Some e(2,4) by auto
  qed
qed

lemma walk_exact:
  assumes core: "bc_core_ok env" and fs: "presents env fs" and ch: "follows config ch" and dir: "holds_path buf len p"
    and s: "\<not> visit_failed s"
  shows "\<exists>sw'. walk_run env config (Enter buf len dep) (s, w :: 'w walk_world_scheme) = Some sw' \<and>
    moved {} (s, w) (expected fs config ch p dep) sw'"
  using dir s
proof (induction "4096 - length p" arbitrary: p buf len dep s w rule: less_induct)
  case less
  note run = walk_run.simps [of env config "Enter buf len dep"]
  note en = enter_exact [OF core fs ch less.prems, of w]
  show ?case
  proof (cases "snap_dirs fs p")
    case None
    then show ?thesis using en by (auto simp: run expected_eq [of fs config ch p])
  next
    case (Some b)
    then obtain fd r s1 w1 where e: "enter_directory env config buf (s, w) = (Some (fd, r), s1, w1)" "moved {} (s, w) [] (s1, w1)"
      "to_come p b r w1 (concat b)" "reader_dir_fd r = fd" "listing fd (trace w) = None" using en by auto
    have s1: "\<not> visit_failed s1" using e(2) by (simp add: moved_def)
    have b: "lists_directory env p b" using fs Some unfolding presents_def by blast
    have deeper: "\<exists>sw'. walk_run env config (Enter c clen (dep + 1)) (s, w) = Some sw' \<and>
        moved {} (s, w) (expected fs config ch (child_of p n) (dep + 1)) sw'"
      if "holds_path c clen (child_of p n)" "\<not> visit_failed s" for c clen n s and w :: "'w walk_world_scheme"
    proof (rule less.hyps [OF _ that])
      show "4096 - length (child_of p n) < 4096 - length p" using that(1) by (auto simp: holds_path_def child_of_def)
    qed
    from loop_exact [OF core fs ch less.prems(1) b deeper e(3,4) s1] obtain s2 w2 where
      l: "walk_run env config (Read fd r buf len dep) (s1, w1) = Some (s2, w2)"
        "moved {fd} (s1, w1) (concat (map (visits_of fs config ch p dep) (filter (\<lambda>d. \<not> dot_entry d) (concat b)))) (s2, w2)"
      by (metis surj_pair)
    let ?w = "sys_close env fd (bc_io_dirent_reader_destroy (config_main_memory_context config) (Some r) w2)"
    have "untouched {fd} (trace w2) (trace ?w)" and "walk_calls ?w = walk_calls w2"
      by (auto simp: untouched_def bc_io_dirent_reader_destroy_def pool_free_def sys_close_def listing_append)
    then have m: "moved {fd} (s, w) (expected fs config ch p dep) (s2, ?w)"
      using moved_trans [OF moved_mono [OF e(2)] l(2)] untouched_trans Some by (fastforce simp: moved_def expected_eq [of fs config ch p])
    have "untouched {} (trace w) (trace ?w)" using m e(5) unfolding moved_def untouched_def prod.case by (metis insertE empty_iff)
    then have "moved {} (s, w) (expected fs config ch p dep) (s2, ?w)" using m by (simp add: moved_def)
    then show ?thesis using e(1) l(1) by (auto simp: run)
  qed
qed

lemma sequential_exact:
  assumes "bc_core_ok env" and "presents env fs" and "follows config ch" and "config_ok config root"
  shows "\<exists>stats w'. bc_io_walk_sequential env (Some config) w = Some ((True, Some stats), w') \<and>
    visited (walk_calls w') = visited (walk_calls w) @ expected fs config ch root 0"
proof -
  obtain buf where buf: "config_root config = Some buf" "holds_path buf (config_root_length config) root"
    using assms(4) by (auto simp: config_ok_def)
  have "\<not> visit_failed (cleared_state env)" by (simp add: cleared_state_eq [OF assms(1)])
  from walk_exact [OF assms(1-3) buf(2) this, of 0 w] obtain s' w' where
    "walk_run env config (Enter buf (config_root_length config) 0) (cleared_state env, w) = Some (s', w')"
    "moved {} (cleared_state env, w) (expected fs config ch root 0) (s', w')" by (metis surj_pair)
  then show ?thesis
    unfolding walk_sequential_eq [OF assms(1,4) buf(1), of w] by (simp add: moved_def)
qed

lemma serving_presents:
  assumes "snapshot_ok B fs"
  shows "presents (serving fs) fs"
proof -
  have "lists_directory (serving fs) p b" if "snap_dirs fs p = Some b" for p b
    using assms that by (auto simp: lists_directory_def serving_def snapshot_ok_def)
  then show ?thesis
    using serving_fresh by (auto simp: presents_def serving_def)
qed

definition all_choices :: choices where
  "all_choices = \<lparr>choose_filter = (\<lambda>_. True), choose_descend = (\<lambda>_. True)\<rparr>"

lemma sample_follows: "follows sample_config all_choices"
  by (simp add: follows_def sample_config_def all_choices_def decides_def)

text \<open>The root of the sample opened as descriptor 5, and a file system where everything is a link to a file.\<close>

definition opened_root :: walk_world where
  "opened_root = log_event (Ev_open [0x72] O_DIRECTORY 0 (Inr 5)) walk_start"

definition linked_fs :: snapshot where
  "linked_fs = \<lparr>snap_dirs = (\<lambda>_. None), snap_stat = (\<lambda>_ fl. plain_stat\<lparr>st_mode := (if fl = 0 then 0x81A4 else 0xA1FF)\<rparr>)\<rparr>"

section \<open>Properties\<close>

text \<open>
  C1 The sequential walk visits exactly what it should. On a file system that does not change, where the callbacks
  decide by the entry and no visit fails, \<^verbatim>\<open>bc_io_walk_sequential\<close> succeeds and calls \<^verbatim>\<open>visit\<close> exactly on the entries of
  the specification, each once and in its order: depth first in the order of the listings, a directory before its
  contents, for every name that is not hidden (or hidden ones are asked for), whose path fits 4096 bytes, and
  that the filter accepts, and below the directories that may be descended into and can be opened.
\<close>

theorem walk_sequential_visits:
  assumes "bc_core_ok env" and "presents env fs" and "follows config ch" and "config_ok config root"
  shows "\<exists>stats w'. bc_io_walk_sequential env (Some config) w = Some ((True, Some stats), w') \<and>
    visited (walk_calls w') = visited (walk_calls w) @ expected fs config ch root 0"
  by (rule sequential_exact [OF assms])

theorem walk_sequential_visits_witness:
  "\<exists>stats w'. bc_io_walk_sequential (serving sample_fs) (Some sample_config) walk_start = Some ((True, Some stats), w') \<and>
    map (\<lambda>e. (absolute_path e, entry_kind e, depth e)) (visited (walk_calls w')) =
      [([0x72, 0x2F, 0x61], BC_IO_WALK_ENTRY_FILE, 1), ([0x72, 0x2F, 0x73], BC_IO_WALK_ENTRY_DIRECTORY, 1),
       ([0x72, 0x2F, 0x73, 0x2F, 0x62], BC_IO_WALK_ENTRY_FILE, 2)]"
proof -
  have "map (\<lambda>e. (absolute_path e, entry_kind e, depth e)) (expected sample_fs sample_config all_choices [0x72] 0) =
      [([0x72, 0x2F, 0x61], BC_IO_WALK_ENTRY_FILE, 1), ([0x72, 0x2F, 0x73], BC_IO_WALK_ENTRY_DIRECTORY, 1),
       ([0x72, 0x2F, 0x73, 0x2F, 0x62], BC_IO_WALK_ENTRY_FILE, 2)]"
    by (simp add: expected.simps sample_fs_def sample_config_def sample_dirent_def all_choices_def selected_def wanted_def
        spec_entry_def spec_kind_def kind_of_mode_def kind_of_dtype_def dt_defs dot_entry_def child_of_def file_test_defs
        file_type_defs Let_def)
  with walk_sequential_visits [OF serving_ok(1) [OF sample_fs_ok] serving_presents [OF sample_fs_ok] sample_follows
      sample_config_ok, of walk_start] show ?thesis by (auto simp: walk_start_def)
qed

text \<open>
  C30 Without following links, an entry is classified by what it is: whether the kernel tells the type in the
  listing (as the file-type field of its mode) or leaves it unknown, the kind the walk finds is the one of the
  mode of the entry itself.
\<close>

theorem resolved_kind_agrees:
  assumes "presents env fs" and "listing fd (trace w) = Some (p, k)"
    and "mode = st_mode (snap_stat fs (child_of p n) AT_SYMLINK_NOFOLLOW)"
    and "t = DT_UNKNOWN \<or> t = ucast (drop_bit 12 (mode AND S_IFMT))"
  shows "\<exists>res w'. resolve_entry env False fd t n w = (Some res, w') \<and> resolved_kind res = kind_of_mode mode"
proof -
  have "kind_of_dtype (ucast (drop_bit 12 (mode AND S_IFMT))) = kind_of_mode mode"
    unfolding kind_from_type [symmetric] by (simp only: entry_type_of_dtype)
  then have "spec_kind False t (snap_stat fs (child_of p n)) = kind_of_mode mode"
    using assms(3,4) by (auto simp: spec_kind_def)
  then show ?thesis
    using resolve_exact [OF assms(1,2), of False t n] by (auto simp: spec_resolution_def Let_def)
qed

theorem resolved_kind_agrees_witness:
  "\<exists>res w'. resolve_entry (serving sample_fs) False 5 DT_UNKNOWN [0x73] opened_root = (Some res, w') \<and>
     resolved_kind res = BC_IO_WALK_ENTRY_DIRECTORY"
  using resolved_kind_agrees [OF serving_presents [OF sample_fs_ok], of 5 opened_root "[0x72]" 0 _ "[0x73]" DT_UNKNOWN]
  by (simp add: opened_root_def walk_start_def sample_fs_def child_of_def kind_of_mode_def file_test_defs file_type_defs listing_def)

text \<open>
  C31 A link of unknown type is not followed. When links are to be followed and the listing gives the type of a
  link to a regular file, the entry counts as a file and its permissions are reported; when the listing
  leaves the type unknown, the same entry counts as a link, which the walk never visits, and its permissions are
  reported as 0 although the status is said to be known.
\<close>

theorem unknown_link_not_followed:
  assumes "presents env fs" and "listing fd (trace w) = Some (p, k)"
    and "S_ISLNK (st_mode (snap_stat fs (child_of p n) AT_SYMLINK_NOFOLLOW))" and "S_ISREG (st_mode (snap_stat fs (child_of p n) 0))"
  shows "(\<exists>res w'. resolve_entry env True fd DT_LNK n w = (Some res, w') \<and> resolved_kind res = BC_IO_WALK_ENTRY_FILE \<and>
      resolved_permission_mask res = st_mode (snap_stat fs (child_of p n) 0) AND 0xFFF) \<and>
    (\<exists>res w'. resolve_entry env True fd DT_UNKNOWN n w = (Some res, w') \<and> resolved_kind res = BC_IO_WALK_ENTRY_SYMLINK \<and>
      resolved_populated res \<and> resolved_permission_mask res = 0)"
  using resolve_exact [OF assms(1,2), of True DT_LNK n] resolve_exact [OF assms(1,2), of True DT_UNKNOWN n] assms(3,4)
  by (auto simp: spec_resolution_def spec_kind_def kind_of_mode_def spec_populated_def spec_status_def Let_def
      file_test_defs file_type_defs dt_defs)

theorem unknown_link_not_followed_witness:
  "\<exists>res w'. resolve_entry (serving linked_fs) True 5 DT_UNKNOWN [0x6C] opened_root = (Some res, w') \<and>
     resolved_kind res = BC_IO_WALK_ENTRY_SYMLINK \<and> resolved_populated res \<and> resolved_permission_mask res = 0"
proof -
  have ok: "snapshot_ok 0 linked_fs" by (simp add: snapshot_ok_def linked_fs_def)
  show ?thesis
    using unknown_link_not_followed [OF serving_presents [OF ok], of 5 opened_root "[0x72]" 0 "[0x6C]"]
    by (simp add: opened_root_def walk_start_def linked_fs_def file_test_defs file_type_defs AT_SYMLINK_NOFOLLOW_def listing_def)
qed

end
