(* ===== verification/IO_Walk_Par_Tree.thy ===== *)
theory IO_Walk_Par_Tree
  imports IO_Walk_Par_End IO_Walk_Tree
begin

text \<open>
  What the parallel walk visits: on a file system at rest, the entries of the same specification as the sequential walk, each
  exactly once, although the workers share the directories among themselves in any order. The argument is an account over
  multisets of entries: what was visited, what waits in the queue, and what each worker still has to visit in the directories it
  works on, is at every moment the whole specification.
\<close>

section \<open>What is still to be visited\<close>

definition later_visits :: "snapshot \<Rightarrow> bc_io_walk_config \<Rightarrow> choices \<Rightarrow> bytes \<Rightarrow> size_t \<Rightarrow> dirent list \<Rightarrow> bc_io_walk_entry multiset" where
  "later_visits fs config ch p dep L = mset (concat (map (visits_of fs config ch p dep) (filter (\<lambda>d. \<not> dot_entry d) L)))"

definition tree_visits :: "snapshot \<Rightarrow> bc_io_walk_config \<Rightarrow> choices \<Rightarrow> bytes \<Rightarrow> size_t \<Rightarrow> bc_io_walk_entry multiset" where
  "tree_visits fs config ch p dep = mset (expected fs config ch p dep)"

definition descent :: "snapshot \<Rightarrow> bc_io_walk_config \<Rightarrow> choices \<Rightarrow> bc_io_walk_entry \<Rightarrow> bc_io_walk_entry multiset" where
  "descent fs config ch e =
     (if entry_kind e = BC_IO_WALK_ENTRY_DIRECTORY \<and> choose_descend ch e then tree_visits fs config ch (absolute_path e) (depth e) else {#})"

definition sub_visits :: "snapshot \<Rightarrow> bc_io_walk_config \<Rightarrow> choices \<Rightarrow> bc_io_walk_queue_entry \<Rightarrow> bc_io_walk_entry multiset" where
  "sub_visits fs config ch sub =
     tree_visits fs config ch (take (unat (queue_absolute_path_length sub)) (queue_absolute_path sub)) (queue_depth sub)"

definition visits_total :: "snapshot \<Rightarrow> bc_io_walk_config \<Rightarrow> choices \<Rightarrow> 'w sharing \<Rightarrow> bc_io_walk_entry multiset" where
  "visits_total fs config ch = (\<lambda>(sh, w). mset (visited (walk_calls w)) + (\<Sum>e \<in># pending (directory_queue sh). sub_visits fs config ch e))"

text \<open>The places inside the loop over the entries, and what is open there besides the rest of the listing.\<close>

fun in_loop :: "place \<Rightarrow> bool" where
  "in_loop Load_failed \<longleftrightarrow> False"
| "in_loop Open_directory \<longleftrightarrow> False"
| "in_loop Count_directory \<longleftrightarrow> False"
| "in_loop Store_failed \<longleftrightarrow> False"
| "in_loop Close_directory \<longleftrightarrow> False"
| "in_loop Return_directory \<longleftrightarrow> False"
| "in_loop (Count_error _ _ _ n) \<longleftrightarrow> n = Then_continue"
| "in_loop (Call_on_error _ _ _ n) \<longleftrightarrow> n = Then_continue"
| "in_loop _ \<longleftrightarrow> True"

definition place_owes :: "snapshot \<Rightarrow> bc_io_walk_config \<Rightarrow> choices \<Rightarrow> bytes \<Rightarrow> size_t \<Rightarrow> bc_io_dirent_reader \<Rightarrow> place \<Rightarrow>
    bc_io_walk_entry multiset \<Rightarrow> bool" where
  "place_owes fs config ch p dep rd place m \<longleftrightarrow>
     (case place of
        Stat_entry e c l \<Rightarrow> \<exists>d mem. entry_is rd e d \<and> \<not> (hd (dirent_name d) = 0x2E \<and> \<not> config_include_hidden config) \<and>
          length (child_of p (dirent_name d)) < 4096 \<and> c = overwrite 0 (child_of p (dirent_name d) @ [0]) mem \<and>
          l = of_nat (length (child_of p (dirent_name d))) \<and> m = mset (visits_of fs config ch p dep d)
      | Ask_filter c e \<Rightarrow> m = (if wanted ch e then add_mset e (descent fs config ch e) else {#})
      | Count_file c e \<Rightarrow> m = add_mset e (descent fs config ch e)
      | Call_visit c e \<Rightarrow> m = add_mset e (descent fs config ch e)
      | Ask_descend c e \<Rightarrow> m = descent fs config ch e
      | Add_outstanding sub \<Rightarrow> m = sub_visits fs config ch sub
      | Push_directory sub \<Rightarrow> m = sub_visits fs config ch sub
      | Sub_outstanding sub \<Rightarrow> m = sub_visits fs config ch sub
      | Create_fallback sub \<Rightarrow> m = sub_visits fs config ch sub
      | _ \<Rightarrow> m = {#})"

definition act_owes :: "snapshot \<Rightarrow> bc_io_walk_config \<Rightarrow> choices \<Rightarrow> 'w walk_world_scheme \<Rightarrow> activation \<Rightarrow> bc_io_walk_entry multiset \<Rightarrow> bool" where
  "act_owes fs config ch w a m \<longleftrightarrow>
     (let p = take (unat (act_path_length a)) (act_path a); dep = act_depth a
      in if in_loop (act_place a)
         then \<exists>b L x. snap_dirs fs p = Some b \<and> to_come p b (act_reader a) w L \<and>
           place_owes fs config ch p dep (act_reader a) (act_place a) x \<and> m = x + later_visits fs config ch p dep L
         else act_place a \<noteq> Store_failed \<and> (act_place a = Count_directory \<longrightarrow> snap_dirs fs p \<noteq> None) \<and>
           m = (if act_place a \<in> {Load_failed, Open_directory, Count_directory} then tree_visits fs config ch p dep else {#}))"

fun worker_owes :: "snapshot \<Rightarrow> bc_io_walk_config \<Rightarrow> choices \<Rightarrow> walk_worker \<Rightarrow> 'w sharing \<Rightarrow> bc_io_walk_entry multiset \<Rightarrow> bool" where
  "worker_owes fs config ch (Processing acts) s m \<longleftrightarrow> (\<exists>ms. list_all2 (act_owes fs config ch (snd s)) acts ms \<and> m = sum_list ms)"
| "worker_owes fs config ch Count_alloc_error s m \<longleftrightarrow> False"
| "worker_owes fs config ch Store_alloc_failed s m \<longleftrightarrow> False"
| "worker_owes fs config ch Call_alloc_error s m \<longleftrightarrow> False"
| "worker_owes fs config ch l s m \<longleftrightarrow> m = {#}"

lemma tree_visits_eq:
  "snap_dirs fs p = Some b \<Longrightarrow> tree_visits fs config ch p dep = later_visits fs config ch p dep (concat b)"
  "snap_dirs fs p = None \<Longrightarrow> tree_visits fs config ch p dep = {#}"
  by (simp_all add: tree_visits_def later_visits_def expected_eq [of fs config ch p dep])

lemma later_visits_dropWhile:
  "dropWhile dot_entry L = [] \<Longrightarrow> later_visits fs config ch p dep L = {#}"
  "dropWhile dot_entry L = d # L' \<Longrightarrow> later_visits fs config ch p dep L = mset (visits_of fs config ch p dep d) + later_visits fs config ch p dep L'"
proof -
  show "later_visits fs config ch p dep L = {#}" if "dropWhile dot_entry L = []"
    using records_dropWhile [of L] that by (simp add: later_visits_def)
  show "later_visits fs config ch p dep L = mset (visits_of fs config ch p dep d) + later_visits fs config ch p dep L'"
    if c: "dropWhile dot_entry L = d # L'"
  proof -
    have "\<not> dot_entry d" using c by (metis hd_dropWhile list.discI list.sel(1))
    then show ?thesis using records_dropWhile [of L] c by (simp add: later_visits_def)
  qed
qed

lemma sub_visits_queued: "queued_at sub q dep \<Longrightarrow> sub_visits fs config ch sub = tree_visits fs config ch q dep"
  by (auto simp: sub_visits_def queued_at_def dest: holds_pathD(1))

lemma visits_of_wanted:
  assumes "\<not> (hd (dirent_name d) = 0x2E \<and> \<not> config_include_hidden config)" and "length (child_of p (dirent_name d)) < 4096"
    and "e = spec_entry fs (config_follow_symlinks config) p dep d"
  shows "mset (visits_of fs config ch p dep d) = (if wanted ch e then add_mset e (descent fs config ch e) else {#})"
  using assms by (auto simp: visits_of_def selected_def descent_def tree_visits_def spec_entry_def Let_def)

text \<open>What an activation owes depends on the listing of its own descriptor only.\<close>

lemma act_owes_cong:
  assumes "act_owes fs config ch w a m" and "act_ok config root B a w" and "\<forall>fd \<in> set (act_fds a). listing fd (trace w') = listing fd (trace w)"
  shows "act_owes fs config ch w' a m"
proof (cases "in_loop (act_place a)")
  case True
  then have "listing_place (act_place a)" by (cases "act_place a") (auto simp: listing_place_def)
  then have "listing (reader_dir_fd (act_reader a)) (trace w') = listing (reader_dir_fd (act_reader a)) (trace w)"
    using assms(2,3) by (auto simp: act_ok_def act_fds_def listing_place_def)
  then have "to_come p b (act_reader a) w' L \<longleftrightarrow> to_come p b (act_reader a) w L" for p b L by (simp add: to_come_def)
  then show ?thesis using assms(1) True by (simp add: act_owes_def Let_def)
next
  case False
  then show ?thesis using assms(1) by (simp add: act_owes_def Let_def)
qed

section \<open>Actions of an activation\<close>

lemma owes_reading:
  assumes "act_owes fs config ch w a m" and "in_loop (act_place a)" and "holds_path (act_path a) (act_path_length a) p"
  obtains b L x where "snap_dirs fs p = Some b" and "to_come p b (act_reader a) w L"
    and "place_owes fs config ch p (act_depth a) (act_reader a) (act_place a) x"
    and "m = x + later_visits fs config ch p (act_depth a) L"
  using assms holds_pathD(1) [OF assms(3)] by (auto simp: act_owes_def Let_def)

lemma owes_reading_intro:
  assumes "in_loop (act_place a)" and "holds_path (act_path a) (act_path_length a) p"
    and "snap_dirs fs p = Some b" and "to_come p b (act_reader a) w L"
    and "place_owes fs config ch p (act_depth a) (act_reader a) (act_place a) x"
  shows "act_owes fs config ch w a (x + later_visits fs config ch p (act_depth a) L)"
  using assms holds_pathD(1) [OF assms(2)] by (auto simp: act_owes_def Let_def)

definition settled :: "snapshot \<Rightarrow> bc_io_walk_config \<Rightarrow> choices \<Rightarrow> 'w sharing \<Rightarrow> bc_io_walk_entry multiset \<Rightarrow> activation list \<Rightarrow> 'w sharing \<Rightarrow> bool" where
  "settled fs config ch s m inner s' \<longleftrightarrow> (\<exists>ms. list_all2 (act_owes fs config ch (snd s')) inner ms \<and>
     visits_total fs config ch s' + sum_list ms = visits_total fs config ch s + m) \<and> \<not> shared_visit_failed (fst s')"

text \<open>A move inside the loop that leaves the reader alone and passes \<open>x\<close> on as \<open>x'\<close>.\<close>

lemma settled_go:
  assumes a: "holds_path (act_path a) (act_path_length a) p" and o: "act_owes fs config ch w a m" "in_loop (act_place a)"
    and pl: "in_loop pl" and l: "\<And>fd. listing fd (trace w') = listing fd (trace w)" and nf: "\<not> shared_visit_failed sh'"
    and x: "\<And>x. place_owes fs config ch p (act_depth a) (act_reader a) (act_place a) x \<Longrightarrow>
      \<exists>x'. place_owes fs config ch p (act_depth a) (act_reader a) pl x' \<and>
        visits_total fs config ch (sh', w') + x' = visits_total fs config ch (sh, w) + x"
  shows "settled fs config ch (sh, w) m [a\<lparr>act_place := pl\<rparr>] (sh', w')"
proof -
  obtain b L y where b: "snap_dirs fs p = Some b" "to_come p b (act_reader a) w L"
    "place_owes fs config ch p (act_depth a) (act_reader a) (act_place a) y" "m = y + later_visits fs config ch p (act_depth a) L"
    by (rule owes_reading [OF o a])
  obtain x' where x': "place_owes fs config ch p (act_depth a) (act_reader a) pl x'"
    "visits_total fs config ch (sh', w') + x' = visits_total fs config ch (sh, w) + y" using x [OF b(3)] by blast
  have "to_come p b (act_reader a) w' L" using b(2) l by (simp add: to_come_def)
  then have "act_owes fs config ch w' (a\<lparr>act_place := pl\<rparr>) (x' + later_visits fs config ch p (act_depth a) L)"
    using owes_reading_intro [of "a\<lparr>act_place := pl\<rparr>" p fs b w' L config ch x'] a pl b(1) x'(1) by simp
  moreover have "visits_total fs config ch (sh', w') + (x' + later_visits fs config ch p (act_depth a) L) = visits_total fs config ch (sh, w) + m"
    using x'(2) b(4) by (simp add: add.assoc [symmetric])
  ultimately show ?thesis
    using nf unfolding settled_def by (auto intro!: exI [of _ "[x' + later_visits fs config ch p (act_depth a) L]"])
qed


text \<open>The moves outside the loop.\<close>

lemma owes_outside:
  assumes "\<not> in_loop (act_place a)" and "holds_path (act_path a) (act_path_length a) p"
  shows "act_owes fs config ch w a m \<longleftrightarrow> act_place a \<noteq> Store_failed \<and> (act_place a = Count_directory \<longrightarrow> snap_dirs fs p \<noteq> None) \<and>
    m = (if act_place a \<in> {Load_failed, Open_directory, Count_directory} then tree_visits fs config ch p (act_depth a) else {#})"
  using assms holds_pathD(1) [OF assms(2)] by (simp add: act_owes_def Let_def)

lemma settled_one:
  assumes "act_owes fs config ch w' b m'" and "visits_total fs config ch (sh', w') + m' = visits_total fs config ch (sh, w) + m"
    and "\<not> shared_visit_failed sh'"
  shows "settled fs config ch (sh, w) m [b] (sh', w')"
  using assms unfolding settled_def by (auto intro!: exI [of _ "[m']"])

lemma settled_open:
  assumes fs: "presents env fs" and a: "holds_path (act_path a) (act_path_length a) p" "act_place a = Open_directory"
    and o: "act_owes fs config ch w a m" and nf: "\<not> shared_visit_failed sh"
    and p: "bc_io_walk_process_directory env conc config i a (sh, w) = Some (inner, sh', w')"
  shows "settled fs config ch (sh, w) m inner (sh', w')"
proof -
  let ?a = "env_open env (trace w) p (directory_flags config) 0"
  obtain fd w1 where op: "sys_open env p (directory_flags config) 0 w = (fd, w1)" by fastforce
  then have fd: "fd = (case ?a of Inl _ \<Rightarrow> -1 | Inr fd \<Rightarrow> int fd)" and "walk_calls w1 = walk_calls w"
    by (auto simp: sys_open_def Let_def answer_def split: sum.splits)
  then have t: "visits_total fs config ch (sh, w1) = visits_total fs config ch (sh, w)" by (simp add: visits_total_def)
  have step: "inner = (if fd < 0 then [bc_io_walk_report_error p ''open'' (errno w1) Then_return a]
      else [a\<lparr>act_fd := fd, act_place := Count_directory\<rparr>])" "sh' = sh" "w' = w1"
    using p op a(2) holds_pathD(2) [OF a(1)] by (auto simp: bc_io_walk_process_directory_def Let_def directory_flags_def split: if_splits)
  have m: "m = tree_visits fs config ch p (act_depth a)" using o by (simp add: owes_outside [OF _ a(1)] a(2))
  show ?thesis
  proof (cases "snap_dirs fs p")
    case None
    then obtain e where "?a = Inl e" using fs unfolding presents_def by blast
    then have "act_owes fs config ch w1 (bc_io_walk_report_error p ''open'' (errno w1) Then_return a) {#}"
      by (subst owes_outside [of _ p]) (simp_all add: bc_io_walk_report_error_def a)
    then show ?thesis
      using step fd \<open>?a = Inl e\<close> m None t nf tree_visits_eq(2) [OF None] by (auto intro!: settled_one)
  next
    case (Some b)
    then obtain k where "?a = Inr k" using fs unfolding presents_def by blast
    moreover have "act_owes fs config ch w1 (a\<lparr>act_fd := fd, act_place := Count_directory\<rparr>) m"
      by (subst owes_outside [of _ p]) (simp_all add: a m Some)
    ultimately show ?thesis using step fd t nf by (auto intro!: settled_one)
  qed
qed

lemma settled_count:
  assumes a: "act_ok config root B a w" "holds_path (act_path a) (act_path_length a) p" "act_place a = Count_directory"
    and o: "act_owes fs config ch w a m" and nf: "\<not> shared_visit_failed sh"
    and p: "bc_io_walk_process_directory env conc config i a (sh, w) = Some (inner, sh', w')"
  shows "settled fs config ch (sh, w) m inner (sh', w')"
proof -
  let ?rd = "bc_io_dirent_reader_reset (act_reader a) (act_fd a)"
  let ?b = "a\<lparr>act_reader := ?rd, act_place := Load_failed_again\<rparr>"
  have same: "p' = p" if "holds_path (act_path a) (act_path_length a) p'" for p' using that a(2) holds_pathD(2) by metis
  obtain b where b: "snap_dirs fs p = Some b" and m: "m = tree_visits fs config ch p (act_depth a)"
    using o by (auto simp: owes_outside [OF _ a(2)] a(3))
  have l: "listing (act_fd a) (trace w) = Some (p, 0)" "length (reader_buffer (act_reader a)) = 8192"
    using a(1,3) same by (auto simp: act_ok_def act_fds_def)
  then have come: "to_come p b ?rd w (concat b)"
    by (auto simp: to_come_def buffered_def bc_io_dirent_reader_reset_def intro!: exI [of _ "[]"])
  have "place_owes fs config ch p (act_depth a) ?rd Load_failed_again {#}" by (simp add: place_owes_def)
  then have "act_owes fs config ch w ?b ({#} + later_visits fs config ch p (act_depth a) (concat b))"
    using owes_reading_intro [of ?b p fs b w "concat b" config ch "{#}"] a(2) b come by simp
  then have "act_owes fs config ch w ?b m" using m tree_visits_eq(1) [OF b] by simp
  moreover have "inner = [?b]" "w' = w" "directory_queue sh' = directory_queue sh" "shared_visit_failed sh' = shared_visit_failed sh"
    using p a(3) by (auto simp: bc_io_walk_process_directory_def count_stats_def)
  ultimately show ?thesis using nf by (auto simp: visits_total_def intro!: settled_one)
qed

lemma settled_next:
  assumes core: "bc_core_ok env" and fs: "presents env fs"
    and a: "act_ok config root B a w" "holds_path (act_path a) (act_path_length a) p" "act_place a = Next_entry_of_reader"
    and o: "act_owes fs config ch w a m" and nf: "\<not> shared_visit_failed sh"
    and p: "bc_io_walk_process_directory env conc config i a (sh, w) = Some (inner, sh', w')"
  shows "settled fs config ch (sh, w) m inner (sh', w')"
proof -
  let ?dep = "act_depth a" and ?rd = "act_reader a"
  have pne: "p \<noteq> []" using a(2) by (simp add: holds_path_def)
  obtain b L where b: "snap_dirs fs p = Some b" "to_come p b ?rd w L" "m = later_visits fs config ch p ?dep L"
    by (rule owes_reading [OF o _ a(2)]) (auto simp: place_owes_def a(3))
  have dir: "lists_directory env p b" using fs b(1) unfolding presents_def by blast
  from next_lists [OF core dir b(2)] obtain res rd where
    n: "bc_io_dirent_reader_next env ?rd w = Some (res, rd, w')" "sh' = sh"
      "case dropWhile dot_entry L of [] \<Rightarrow> res = Next_end \<and> to_come p b rd w' []
       | d # L' \<Rightarrow> \<exists>e. res = Next_entry e \<and> entry_is rd e d \<and> to_come p b rd w' L'"
    by (rule_tac process_next [OF p a(3)]) auto
  have "walk_calls w' = walk_calls w" using next_frame [OF n(1)] by (auto simp: reader_frame_def dest: quiet_calls(3))
  then have t: "visits_total fs config ch (sh', w') = visits_total fs config ch (sh, w)" using n(2) by (simp add: visits_total_def)
  have step: "inner = [c]" if "(case res of Next_failed \<Rightarrow> False | Next_end \<Rightarrow> c = a\<lparr>act_reader := rd, act_place := Close_directory\<rparr>
      | Next_entry e \<Rightarrow> begin_entry env config (a\<lparr>act_reader := rd\<rparr>) e (trace w') = Some c)" for c
    using that p a(3) n(1) by (auto simp: bc_io_walk_process_directory_def split: next_result.splits)
  show ?thesis
  proof (cases "dropWhile dot_entry L")
    case Nil
    then have "res = Next_end" and m: "m = {#}" using n(3) b(3) later_visits_dropWhile(1) [OF Nil] unfolding Nil by simp_all
    then have "inner = [a\<lparr>act_reader := rd, act_place := Close_directory\<rparr>]" using step by simp
    moreover have "act_owes fs config ch w' (a\<lparr>act_reader := rd, act_place := Close_directory\<rparr>) m"
      by (subst owes_outside [of _ p]) (simp_all add: a(2) m)
    ultimately show ?thesis using t nf n(2) by (auto intro!: settled_one)
  next
    case (Cons d L')
    then obtain e where e: "res = Next_entry e" "entry_is rd e d" "to_come p b rd w' L'" using n(3) by auto
    let ?q = "child_of p (dirent_name d)"
    let ?c = "overwrite 0 (?q @ [0]) (fresh_memory env (trace w') BC_IO_MAX_PATH_LENGTH)"
    let ?hid = "hd (dirent_name d) = 0x2E \<and> \<not> config_include_hidden config"
    let ?pl = "if ?hid then Load_failed_again
       else if \<not> length ?q < 4096 then Count_error p ''path-too-long'' ENAMETOOLONG Then_continue
       else Stat_entry e ?c (of_nat (length ?q))"
    have "begin_entry env config (a\<lparr>act_reader := rd\<rparr>) e (trace w') = Some (a\<lparr>act_reader := rd, act_place := ?pl\<rparr>)"
      using begin_entry_eq [where a = "a\<lparr>act_reader := rd\<rparr>" and config = config and h = "trace w'" and d = d and e = e,
          OF core _ _ child_joined [OF pne, symmetric] refl] a(2) e(2) by simp
    then have inner: "inner = [a\<lparr>act_reader := rd, act_place := ?pl\<rparr>]" using step e(1) by simp
    have "mset (visits_of fs config ch p ?dep d) = {#}" if "?hid \<or> \<not> length ?q < 4096"
      using that by (auto simp: visits_of_def selected_def Let_def)
    moreover have "place_owes fs config ch p ?dep rd (Stat_entry e ?c (of_nat (length ?q))) (mset (visits_of fs config ch p ?dep d))"
      if "\<not> ?hid" "length ?q < 4096"
      unfolding place_owes_def place.case using e(2) that by blast
    ultimately have "place_owes fs config ch p ?dep rd ?pl (mset (visits_of fs config ch p ?dep d))"
      by (cases ?hid; cases "length ?q < 4096") (simp_all add: place_owes_def)
    then have "act_owes fs config ch w' (a\<lparr>act_reader := rd, act_place := ?pl\<rparr>)
        (mset (visits_of fs config ch p ?dep d) + later_visits fs config ch p ?dep L')"
      using owes_reading_intro [of "a\<lparr>act_reader := rd, act_place := ?pl\<rparr>" p fs b w' L' config ch] a(2) b(1) e(3) by simp
    then have "act_owes fs config ch w' (a\<lparr>act_reader := rd, act_place := ?pl\<rparr>) m"
      unfolding b(3) later_visits_dropWhile(2) [OF Cons] .
    then show ?thesis unfolding inner using t nf n(2) by (intro settled_one) auto
  qed
qed

lemma settled_stat:
  assumes fs: "presents env fs" and a: "act_ok config root B a w" "holds_path (act_path a) (act_path_length a) p" "act_place a = Stat_entry e c l"
    and o: "act_owes fs config ch w a m" and nf: "\<not> shared_visit_failed sh"
    and p: "bc_io_walk_process_directory env conc config i a (sh, w) = Some (inner, sh', w')"
  shows "settled fs config ch (sh, w) m inner (sh', w')"
proof -
  let ?f = "config_follow_symlinks config"
  obtain d mem where d: "entry_is (act_reader a) e d" "\<not> (hd (dirent_name d) = 0x2E \<and> \<not> config_include_hidden config)"
    "length (child_of p (dirent_name d)) < 4096" "c = overwrite 0 (child_of p (dirent_name d) @ [0]) mem"
    "l = of_nat (length (child_of p (dirent_name d)))"
    by (rule owes_reading [OF o _ a(2)]) (auto simp: place_owes_def a(3))
  let ?q = "child_of p (dirent_name d)"
  have same: "p' = p" if "holds_path (act_path a) (act_path_length a) p'" for p' using that a(2) holds_pathD(2) by metis
  obtain k where k: "listing (act_fd a) (trace w) = Some (p, k)" using a(1,3) same by (auto simp: act_ok_def act_fds_def)
  have name: "c_text (reader_buffer (act_reader a)) (entry_name e) = dirent_name d" "entry_d_type e = dirent_type d"
    using entry_isD(5) [OF d(1)] d(1) by (simp_all add: c_text_def entry_is_def)
  obtain w1 where r: "resolve_entry env ?f (act_fd a) (dirent_type d) (dirent_name d) w = (Some (spec_resolution fs ?f ?q (dirent_type d)), w1)"
    using resolve_exact [OF fs k] by blast
  note so = resolve_entry_stats_only [OF r]
  have l1: "listing fd (trace w1) = listing fd (trace w)" and cl: "walk_calls w1 = walk_calls w" for fd
    using so fstatat_effect(2) by (auto simp: stats_only_def listing_append quiet_calls)
  let ?e = "spec_entry fs ?f p (act_depth a) d"
  have we: "walk_entry_of c l (act_depth a + 1) (spec_resolution fs ?f ?q (dirent_type d)) = ?e"
    using walk_entry_of_spec [OF refl d(3) d(4)] d(5) by simp
  have step: "inner = [a\<lparr>act_place := Ask_filter c ?e\<rparr>]" "sh' = sh" "w' = w1"
    using p a(3) name r we by (auto simp: bc_io_walk_process_directory_def)
  have x: "x = (if wanted ch ?e then add_mset ?e (descent fs config ch ?e) else {#})"
    if po: "place_owes fs config ch p (act_depth a) (act_reader a) (act_place a) x" for x
  proof -
    obtain d' where d': "entry_is (act_reader a) e d'" "\<not> (hd (dirent_name d') = 0x2E \<and> \<not> config_include_hidden config)"
      "length (child_of p (dirent_name d')) < 4096" "x = mset (visits_of fs config ch p (act_depth a) d')"
      using po unfolding place_owes_def a(3) place.case by blast
    have n: "dirent_name d' = dirent_name d" "dirent_type d' = dirent_type d"
      using entry_isD(5) [OF d(1)] entry_isD(5) [OF d'(1)] d(1) d'(1) by (simp_all add: entry_is_def)
    then have "spec_entry fs ?f p (act_depth a) d' = ?e" by (simp add: spec_entry_def)
    then show ?thesis using visits_of_wanted [OF d'(2,3) refl] d'(4) by simp
  qed
  show ?thesis
    unfolding step
    by (rule settled_go [OF a(2) o]) (use l1 cl nf x a(3) in \<open>auto simp: place_owes_def visits_total_def\<close>)
qed

lemma settled_callback:
  assumes core: "bc_core_ok env" and ch: "follows config ch" and a: "act_ok config root B a w" "holds_path (act_path a) (act_path_length a) p"
    and pl: "act_place a = Ask_filter c e \<or> act_place a = Call_visit c e \<or> act_place a = Ask_descend c e"
    and o: "act_owes fs config ch w a m" and nf: "\<not> shared_visit_failed sh"
    and p: "bc_io_walk_process_directory env conc config i a (sh, w) = Some (inner, sh', w')"
  shows "settled fs config ch (sh, w) m inner (sh', w')"
proof -
  have d: "decides (config_filter config) (choose_filter ch)" "decides (config_visit config) (\<lambda>_. True)"
    "decides (config_should_descend config) (choose_descend ch)" and v: "config_visit config \<noteq> None"
    using ch by (simp_all add: follows_def)
  have il: "in_loop (act_place a)" using pl by auto
  note go = settled_go [OF a(2) o il]
  from pl show ?thesis
  proof (elim disjE)
    assume pl: "act_place a = Ask_filter c e"
    obtain w1 where w1: "ask (config_filter config) Filter_called e w = (choose_filter ch e, w1)" "trace w1 = trace w"
      "visited (walk_calls w1) = visited (walk_calls w)" using ask_decides [OF d(1), of Filter_called e w] by auto
    then have "bc_io_walk_entry_passes_filter config e w = (choose_filter ch e, w1)"
      by (auto simp: bc_io_walk_entry_passes_filter_def ask_def Let_def split: option.splits)
    then have step: "inner = [a\<lparr>act_place := if \<not> choose_filter ch e then Count_skipped
        else if entry_kind e = BC_IO_WALK_ENTRY_FILE then Count_file c e
        else if entry_kind e = BC_IO_WALK_ENTRY_DIRECTORY then Call_visit c e else Load_failed_again\<rparr>]" "sh' = sh" "w' = w1"
      using p pl by (auto simp: bc_io_walk_process_directory_def split: if_splits)
    show ?thesis unfolding step
      by (rule go) (use w1 nf pl in \<open>auto simp: place_owes_def visits_total_def wanted_def\<close>)
  next
    assume pl: "act_place a = Call_visit c e"
    obtain w1 where w1: "ask (config_visit config) Visit_called e w = (True, w1)" "trace w1 = trace w"
      "visited (walk_calls w1) = visited (walk_calls w) @ [e]" using ask_decides [OF d(2), of Visit_called e w] v by auto
    then have step: "inner = [a\<lparr>act_place := if entry_kind e = BC_IO_WALK_ENTRY_FILE then Load_failed_again else Ask_descend c e\<rparr>]"
      "sh' = sh" "w' = w1" using p pl v by (auto simp: bc_io_walk_process_directory_def split: if_splits)
    show ?thesis unfolding step
      by (rule go) (use w1 nf pl in \<open>auto simp: place_owes_def visits_total_def descent_def\<close>)
  next
    assume pl: "act_place a = Ask_descend c e"
    obtain w1 where w1: "ask (config_should_descend config) Descend_called e w = (choose_descend ch e, w1)" "trace w1 = trace w"
      "visited (walk_calls w1) = visited (walk_calls w)" using ask_decides [OF d(3), of Descend_called e w] by auto
    have k: "entry_kind e = BC_IO_WALK_ENTRY_DIRECTORY" and hp: "holds_path c (absolute_path_length e) (absolute_path e)"
      using a(1) pl by (auto simp: act_ok_def place_ok_def entry_at_def)
    obtain sub where sub: "queue_entry_for env c (absolute_path_length e) (depth e) = Some sub" "queued_at sub (absolute_path e) (depth e)"
      using queue_entry_for_holds [OF core hp] by blast
    have step: "inner = [a\<lparr>act_place := if choose_descend ch e then Add_outstanding sub else Load_failed_again\<rparr>]" "sh' = sh" "w' = w1"
      using p pl w1(1) sub(1) by (auto simp: bc_io_walk_process_directory_def split: if_splits)
    show ?thesis unfolding step
      by (rule go) (use w1 nf pl k sub_visits_queued [OF sub(2)] in \<open>auto simp: place_owes_def visits_total_def descent_def\<close>)
  qed
qed

lemma settled_fallback:
  assumes fs: "presents env fs" and a: "act_ok config root B a w" "holds_path (act_path a) (act_path_length a) p" "act_place a = Create_fallback sub"
    and o: "act_owes fs config ch w a m" and nf: "\<not> shared_visit_failed sh"
    and p: "bc_io_walk_process_directory env conc config i a (sh, w) = Some (inner, sh', w')"
  shows "settled fs config ch (sh, w) m inner (sh', w')"
proof -
  let ?mem = "task_memory conc config i"
  obtain q where q: "queued_at sub q (act_depth a + 1)" using a(1,3) by (auto simp: act_ok_def place_ok_def)
  obtain b L where b: "snap_dirs fs p = Some b" "to_come p b (act_reader a) w L"
    "m = sub_visits fs config ch sub + later_visits fs config ch p (act_depth a) L"
    by (rule owes_reading [OF o _ a(2)]) (auto simp: place_owes_def a(3))
  obtain rd w1 where cr: "bc_io_dirent_reader_create env ?mem (-1) w = (Some rd, w1)"
  proof -
    obtain x where "env_pool_allocate env (trace w) ?mem sizeof_bc_io_dirent_reader = Inr x" using fs unfolding presents_def by blast
    then show thesis using that by (simp add: bc_io_dirent_reader_create_def pool_allocate_def answer_def)
  qed
  have l: "listing fd (trace w1) = listing fd (trace w)" and cl: "walk_calls w1 = walk_calls w" for fd
    using cr by (auto simp: bc_io_dirent_reader_create_def pool_allocate_def answer_def split: sum.splits)
  have step: "inner = [start_activation rd sub, a\<lparr>act_place := Destroy_fallback ?mem rd\<rparr>]" "sh' = sh" "w' = w1"
    using p a(3) cr by (auto simp: bc_io_walk_process_directory_def Let_def)
  have "act_owes fs config ch w1 (start_activation rd sub) (sub_visits fs config ch sub)"
    by (simp add: act_owes_def start_activation_def sub_visits_def)
  moreover have "act_owes fs config ch w1 (a\<lparr>act_place := Destroy_fallback ?mem rd\<rparr>) (later_visits fs config ch p (act_depth a) L)"
    using owes_reading_intro [of "a\<lparr>act_place := Destroy_fallback ?mem rd\<rparr>" p fs b w1 L config ch "{#}"] a(2) b(1,2) l
    by (simp add: place_owes_def to_come_def)
  ultimately show ?thesis
    unfolding settled_def step using b(3) nf cl
    by (auto simp: visits_total_def intro!: exI [of _ "[sub_visits fs config ch sub, later_visits fs config ch p (act_depth a) L]"])
qed

text \<open>The moves of the loop that neither visit nor queue anything.\<close>

lemma settled_same:
  assumes a: "holds_path (act_path a) (act_path_length a) p" and o: "act_owes fs config ch w a m" "in_loop (act_place a)"
    and "\<not> shared_visit_failed sh" and "inner = [a\<lparr>act_place := pl\<rparr>]" and "in_loop pl"
    and "directory_queue sh' = directory_queue sh" and "shared_visit_failed sh' = shared_visit_failed sh"
    and "visited (walk_calls w') = visited (walk_calls w)" and "\<And>fd. listing fd (trace w') = listing fd (trace w)"
    and "\<And>x. place_owes fs config ch p (act_depth a) (act_reader a) pl x = place_owes fs config ch p (act_depth a) (act_reader a) (act_place a) x"
  shows "settled fs config ch (sh, w) m inner (sh', w')"
  unfolding assms(5) by (rule settled_go [OF a o]) (use assms(4-) in \<open>auto simp: visits_total_def\<close>)

text \<open>The moves outside the loop that leave what is owed as it is.\<close>

lemma settled_outside:
  assumes a: "holds_path (act_path a) (act_path_length a) p" and o: "act_owes fs config ch w a m"
    and "\<not> shared_visit_failed sh" and "inner = [a\<lparr>act_place := pl\<rparr>]"
    and "\<not> in_loop (act_place a)" and "\<not> in_loop pl" and "pl \<notin> {Store_failed, Count_directory}"
    and "directory_queue sh' = directory_queue sh" and "shared_visit_failed sh' = shared_visit_failed sh"
    and "visited (walk_calls w') = visited (walk_calls w)"
    and "act_place a \<in> {Load_failed, Open_directory, Count_directory} \<longleftrightarrow> pl \<in> {Load_failed, Open_directory}"
  shows "settled fs config ch (sh, w) m inner (sh', w')"
  unfolding assms(4)
proof (rule settled_one)
  show "act_owes fs config ch w' (a\<lparr>act_place := pl\<rparr>) m"
    using o assms(5-) by (subst owes_outside [of _ p]) (auto simp: a owes_outside [OF _ a])
qed (use assms(3-) in \<open>auto simp: visits_total_def\<close>)

lemma settled_push:
  assumes a: "holds_path (act_path a) (act_path_length a) p" "act_place a = Push_directory sub" and o: "act_owes fs config ch w a m"
    and nf: "\<not> shared_visit_failed sh" and p: "bc_io_walk_process_directory env conc config i a (sh, w) = Some (inner, sh', w')"
  shows "settled fs config ch (sh, w) m inner (sh', w')"
proof -
  let ?ok = "conc_queue_push conc (directory_queue sh) sub"
  have s: "inner = [a\<lparr>act_place := if ?ok then Load_failed_again else Sub_outstanding sub\<rparr>]" "w' = w"
    "directory_queue sh' = directory_queue sh @ [Pushed sub ?ok]" "\<not> shared_visit_failed sh'"
    using p nf a(2) by (auto simp: bc_io_walk_process_directory_def Let_def)
  show ?thesis unfolding s(1,2)
    by (rule settled_go [OF a(1) o]) (use a(2) s in \<open>auto simp: place_owes_def visits_total_def ac_simps\<close>)
qed

lemma settled_error:
  assumes a: "holds_path (act_path a) (act_path_length a) p" "act_place a = Count_error u st x n \<or> act_place a = Call_on_error u st x n"
    and o: "act_owes fs config ch w a m" and nf: "\<not> shared_visit_failed sh"
    and p: "bc_io_walk_process_directory env conc config i a (sh, w) = Some (inner, sh', w')"
  shows "settled fs config ch (sh, w) m inner (sh', w')"
proof -
  obtain pl where s: "inner = [a\<lparr>act_place := pl\<rparr>]" "pl = Call_on_error u st x n \<and> act_place a = Count_error u st x n \<or>
      pl = place_after n \<and> act_place a = Call_on_error u st x n" "directory_queue sh' = directory_queue sh"
    "shared_visit_failed sh' = shared_visit_failed sh" "visited (walk_calls w') = visited (walk_calls w)" "trace w' = trace w"
    using p a(2) by (auto simp: bc_io_walk_process_directory_def count_stats_def tell_error_def split: if_splits)
  show ?thesis
  proof (cases n)
    case Then_continue
    show ?thesis
      by (rule settled_same [OF a(1) o _ nf s(1)]) (use s Then_continue in \<open>auto simp: place_owes_def place_after_def\<close>)
  qed (rule settled_outside [OF a(1) o nf s(1)]; use s in \<open>auto simp: place_after_def\<close>)+
qed

lemma process_owes:
  assumes env: "par_env_ok env conc config root B" and fs: "presents env fs" and ch: "follows config ch" and a: "act_ok config root B a w"
    and o: "act_owes fs config ch w a m" and nf: "\<not> shared_visit_failed sh"
    and p: "bc_io_walk_process_directory env conc config i a (sh, w) = Some (inner, sh', w')"
  shows "settled fs config ch (sh, w) m inner (sh', w')"
proof -
  have core: "bc_core_ok env" using env by (simp add: par_env_ok_def)
  obtain q where hp: "holds_path (act_path a) (act_path_length a) q" using a by (auto simp: act_ok_def)
  note same = settled_same [OF hp o _ nf] and outside = settled_outside [OF hp o nf]
  note step = bc_io_walk_process_directory_def count_stats_def bc_io_dirent_reader_destroy_def pool_free_def sys_close_def place_owes_def
  show ?thesis
  proof (cases "act_place a")
    case Load_failed
    then show ?thesis using p nf by (intro outside [of _ Open_directory]) (auto simp: step)
  next
    case Open_directory then show ?thesis using settled_open [OF fs hp _ o nf p] by blast
  next
    case Count_directory then show ?thesis using settled_count [OF a hp _ o nf p] by blast
  next
    case Load_failed_again
    then show ?thesis using p nf by (intro same [of _ Next_entry_of_reader]) (auto simp: step)
  next
    case Next_entry_of_reader then show ?thesis using settled_next [OF core fs a hp _ o nf p] by blast
  next
    case (Stat_entry e c l) then show ?thesis using settled_stat [OF fs a hp _ o nf p] by blast
  next
    case (Create_fallback sub) then show ?thesis using settled_fallback [OF fs a hp _ o nf p] by blast
  next
    case Count_skipped
    then show ?thesis using p by (intro same [of _ Load_failed_again]) (auto simp: step)
  next
    case (Count_file c e)
    then show ?thesis using p by (intro same [of _ "Call_visit c e"]) (auto simp: step)
  next
    case Store_failed then show ?thesis using o by (simp add: owes_outside [OF _ hp])
  next
    case (Add_outstanding sub)
    then show ?thesis using p by (intro same [of _ "Push_directory sub"]) (auto simp: step)
  next
    case (Push_directory sub) then show ?thesis using settled_push [OF hp _ o nf p] by blast
  next
    case (Sub_outstanding sub)
    then show ?thesis using p by (intro same [of _ "Create_fallback sub"]) (auto simp: step)
  next
    case (Destroy_fallback mem rd)
    then show ?thesis using p by (intro same [of _ Load_failed_again]) (auto simp: step)
  next
    case Close_directory
    then show ?thesis using p by (intro outside [of _ Return_directory]) (auto simp: step)
  next
    case Return_directory
    then show ?thesis using p nf o by (auto simp: step settled_def owes_outside [OF _ hp])
  qed (use settled_callback [OF core ch a hp _ o nf p] settled_error [OF hp _ o nf p] in blast)+
qed

section \<open>Actions of a worker\<close>

lemma processing_owes:
  assumes env: "par_env_ok env conc config root B" and fs: "presents env fs" and ch: "follows config ch"
    and l: "worker_ok config root B w (Processing acts)" "distinct (worker_fds (Processing acts))"
    and q: "queue_entries_ok config root (directory_queue sh)" and c: "calls_ok config root cs0 (walk_calls w)"
    and o: "worker_owes fs config ch (Processing acts) (sh, w) m" and nf: "\<not> shared_visit_failed sh"
    and t: "bc_io_walk_worker_task env conc config i (Processing acts) (sh, w) = Some (l', sh', w')"
  shows "(\<exists>m'. worker_owes fs config ch l' (sh', w') m' \<and> visits_total fs config ch (sh', w') + m' = visits_total fs config ch (sh, w) + m) \<and>
    \<not> shared_visit_failed sh'"
proof -
  obtain a outer inner where p: "acts = a # outer" "bc_io_walk_process_directory env conc config i a (sh, w) = Some (inner, sh', w')"
    "l' = (if inner @ outer = [] then Directory_done (act_reader a) else Processing (inner @ outer))" using t by (blast elim: worker_cases)
  obtain x ms where o': "act_owes fs config ch w a x" "list_all2 (act_owes fs config ch w) outer ms" "m = x + sum_list ms"
    using o p(1) by (auto simp: list_all2_Cons1)
  have a: "act_ok config root B a w" "\<And>b. b \<in> set outer \<Longrightarrow> act_ok config root B b w" using l(1) p(1) by simp_all
  obtain ns where s: "list_all2 (act_owes fs config ch w') inner ns"
    "visits_total fs config ch (sh', w') + sum_list ns = visits_total fs config ch (sh, w) + x" "\<not> shared_visit_failed sh'"
    using process_owes [OF env fs ch a(1) o'(1) nf p(2)] by (auto simp: settled_def)
  have "list_all2 (act_owes fs config ch w') outer ms"
    using o'(2) act_owes_cong [OF _ a(2) outer_listings [OF env l [unfolded p(1)] q c p(2)]]
    by (auto simp: list_all2_conv_all_nth)
  then have "list_all2 (act_owes fs config ch w') (inner @ outer) (ns @ ms)" using s(1) by (simp add: list_all2_appendI)
  then have "worker_owes fs config ch l' (sh', w') (sum_list (ns @ ms))"
    using p(3) by (cases "inner @ outer = []") auto
  moreover have "visits_total fs config ch (sh', w') + sum_list (ns @ ms) = visits_total fs config ch (sh, w) + m"
    using s(2) o'(3) by (simp add: add.assoc [symmetric])
  ultimately show ?thesis using s(3) by blast
qed

lemma should_stop_exact:
  assumes "follows config ch"
  shows "\<exists>w'. bc_io_walk_should_stop config w = (False, w') \<and> visited (walk_calls w') = visited (walk_calls w)"
  using assms by (auto simp: follows_def bc_io_walk_should_stop_def Let_def split: option.splits)

lemma visits_pop:
  assumes "e \<in># pending ops"
  shows "(\<Sum>x \<in># pending (ops @ [Popped (Some e)]). sub_visits fs config ch x) + sub_visits fs config ch e =
    (\<Sum>x \<in># pending ops. sub_visits fs config ch x)"
  using assms by (auto simp: ac_simps dest!: multi_member_split)

lemma task_owes:
  assumes env: "par_env_ok env conc config root B" and fs: "presents env fs" and ch: "follows config ch"
    and l: "worker_ok config root B w l" "distinct (worker_fds l)"
    and q: "queue_entries_ok config root (directory_queue sh)" and c: "calls_ok config root cs0 (walk_calls w)"
    and o: "worker_owes fs config ch l (sh, w) m" and nf: "\<not> shared_visit_failed sh"
    and t: "bc_io_walk_worker_task env conc config i l (sh, w) = Some (l', sh', w')"
  shows "(\<exists>m'. worker_owes fs config ch l' (sh', w') m' \<and> visits_total fs config ch (sh', w') + m' = visits_total fs config ch (sh, w) + m) \<and>
    \<not> shared_visit_failed sh'"
proof (cases l)
  case (Processing acts)
  then show ?thesis using processing_owes [OF env fs ch _ _ q c _ nf] l o t by blast
next
  case Create_reader
  obtain x where "env_pool_allocate env (trace w) (task_memory conc config i) sizeof_bc_io_dirent_reader = Inr x"
    using fs unfolding presents_def by blast
  then show ?thesis
    using t Create_reader o nf by (auto simp: bc_io_walk_worker_task_def bc_io_dirent_reader_create_def pool_allocate_def answer_def visits_total_def
        Let_def)
next
  case (Check_stop rd)
  obtain w1 where "bc_io_walk_should_stop config w = (False, w1)" "visited (walk_calls w1) = visited (walk_calls w)"
    using should_stop_exact [OF ch] by blast
  then show ?thesis using t Check_stop o nf by (auto simp: bc_io_walk_worker_task_def visits_total_def)
next
  case (Pop_directory rd)
  have m: "m = {#}" using o Pop_directory by simp
  show ?thesis
  proof (cases "conc_queue_pop conc (directory_queue sh)")
    case None
    then show ?thesis using t Pop_directory m nf by (auto simp: bc_io_walk_worker_task_def visits_total_def)
  next
    case (Some e)
    then have e: "e \<in># pending (directory_queue sh)" using queue_okD(1) env by (auto simp: par_env_ok_def)
    have "act_owes fs config ch w (start_activation rd e) (sub_visits fs config ch e)"
      by (simp add: act_owes_def start_activation_def sub_visits_def)
    then have "worker_owes fs config ch (Processing [start_activation rd e]) (sh', w) (sub_visits fs config ch e)"
      by (auto intro!: exI [of _ "[sub_visits fs config ch e]"])
    moreover have l': "l' = Processing [start_activation rd e]" "w' = w" "directory_queue sh' = directory_queue sh @ [Popped (Some e)]"
      "\<not> shared_visit_failed sh'" using t Pop_directory Some nf by (auto simp: bc_io_walk_worker_task_def Let_def)
    moreover have "visits_total fs config ch (sh', w) + sub_visits fs config ch e = visits_total fs config ch (sh, w) + m"
      using visits_pop [OF e, of fs config ch] m by (simp add: visits_total_def l'(3) ac_simps)
    ultimately show ?thesis by blast
  qed
qed (use t o nf in \<open>auto simp: bc_io_walk_worker_task_def bc_io_dirent_reader_destroy_def pool_free_def visits_total_def\<close>)

section \<open>When a worker leaves\<close>

fun leaving :: "walk_worker \<Rightarrow> bool" where
  "leaving (Destroy_reader _) \<longleftrightarrow> True"
| "leaving Worker_done \<longleftrightarrow> True"
| "leaving _ \<longleftrightarrow> False"

text \<open>Without failures a worker leaves only when it has read that nothing is outstanding, and then nothing starts again.\<close>

lemma leaving_step:
  assumes "follows config ch" and "worker_owes fs config ch l (sh, w) m" and "\<not> shared_visit_failed sh"
    and "bc_io_walk_worker_task env conc config i l (sh, w) = Some (l', sh', w')" and "leaving l'" and "\<not> leaving l"
  shows "outstanding_directory_count sh = 0 \<and> directory_queue sh' = directory_queue sh \<and> in_hand l' = 0"
proof (cases l)
  case (Check_stop rd)
  then show ?thesis using should_stop_exact [OF assms(1), of w] assms(4,5) by (auto simp: bc_io_walk_worker_task_def)
next
  case (Processing acts)
  then show ?thesis using assms(4,5) by (auto elim!: worker_cases split: if_splits)
qed (use assms in \<open>auto simp: bc_io_walk_worker_task_def in_hand_def Let_def split: option.splits prod.splits if_splits\<close>)

lemma quiet_step:
  assumes "queue_ok conc" and "in_hand l = 0" and "pending (directory_queue sh) = {#}"
    and "bc_io_walk_worker_task env conc config i l (sh, w) = Some (l', sh', w')"
  shows "in_hand l' = 0 \<and> pending (directory_queue sh') = {#}"
proof (cases l)
  case (Pop_directory rd)
  have "conc_queue_pop conc (directory_queue sh) = None"
    using queue_okD(1) [OF assms(1)] assms(3) by (metis empty_iff not_Some_eq set_mset_empty)
  then show ?thesis using assms Pop_directory by (auto simp: bc_io_walk_worker_task_def in_hand_def)
qed (use assms in \<open>auto simp: bc_io_walk_worker_task_def in_hand_def count_stats_def Let_def split: option.splits prod.splits if_splits\<close>)

section \<open>The account\<close>

text \<open>
  The invariant of a walk without failures: every worker has some amount open, and as soon as one worker leaves, nothing is queued and
  no worker has a directory.
\<close>

definition tree_ok :: "io_env \<Rightarrow> bc_concurrency \<Rightarrow> bc_io_walk_config \<Rightarrow> bytes \<Rightarrow> nat \<Rightarrow> walk_call list \<Rightarrow> nat \<Rightarrow> snapshot \<Rightarrow> choices \<Rightarrow>
    walk_worker list \<Rightarrow> 'w sharing \<Rightarrow> bool" where
  "tree_ok env conc config root B cs0 cap fs ch ls s \<longleftrightarrow> live_ok env conc config root B cs0 ls s \<and> capacity_ok conc cap ls s \<and>
     cap + 2 * length ls < 2 ^ 32 \<and> presents env fs \<and> follows config ch \<and> \<not> shared_visit_failed (fst s) \<and>
     (\<forall>l \<in> set ls. \<exists>m. worker_owes fs config ch l s m) \<and>
     ((\<exists>l \<in> set ls. leaving l) \<longrightarrow> pending (directory_queue (fst s)) = {#} \<and> (\<forall>l \<in> set ls. in_hand l = 0))"

lemma tree_okD:
  assumes "tree_ok env conc config root B cs0 cap fs ch ls (sh, w)"
  shows "live_ok env conc config root B cs0 ls (sh, w)" and "capacity_ok conc cap ls (sh, w)" and "cap + 2 * length ls < 2 ^ 32"
    and "presents env fs" and "follows config ch" and "\<not> shared_visit_failed sh"
    and "i < length ls \<Longrightarrow> \<exists>m. worker_owes fs config ch (ls ! i) (sh, w) m"
    and "l \<in> set ls \<Longrightarrow> leaving l \<Longrightarrow> pending (directory_queue sh) = {#} \<and> (\<forall>l \<in> set ls. in_hand l = 0)"
  using assms by (auto simp: tree_ok_def)

lemma tree_settle:
  assumes ok: "tree_ok env conc config root B cs0 cap fs ch ls (sh, w)" and i: "i < length ls"
    and t: "bc_io_walk_worker_task env conc config i (ls ! i) (sh, w) = Some (l, sh', w')" and o: "worker_owes fs config ch (ls ! i) (sh, w) m"
  shows "(\<exists>m'. worker_owes fs config ch l (sh', w') m' \<and> visits_total fs config ch (sh', w') + m' = visits_total fs config ch (sh, w) + m) \<and>
    \<not> shared_visit_failed sh'"
proof -
  note k = tree_okD [OF ok] and d = live_okD [OF tree_okD(1) [OF ok]]
  have "distinct (worker_fds (ls ! i))" using d(5) unfolding concat_map_update [OF i] by simp
  then show ?thesis using task_owes [OF d(1) k(4,5) d(3) [OF i] _ d(7,8) o k(6) t] by blast
qed

lemma tree_others:
  assumes ok: "tree_ok env conc config root B cs0 cap fs ch ls (sh, w)" and i: "i < length ls"
    and t: "bc_io_walk_worker_task env conc config i (ls ! i) (sh, w) = Some (l, sh', w')"
    and j: "j < length ls" "j \<noteq> i" and o: "worker_owes fs config ch (ls ! j) (sh, w) m"
  shows "worker_owes fs config ch (ls ! j) (sh', w') m"
proof (cases "ls ! j")
  case (Processing acts)
  note d = live_okD [OF tree_okD(1) [OF ok]]
  have "\<forall>fd \<in> set (worker_fds (ls ! j)). listing fd (trace w') = listing fd (trace w)"
    by (rule par_ok_turn [OF d(9) i finished_no_action [OF t]]) (use t j in auto)
  then have "act_owes fs config ch w' a x" if "act_owes fs config ch w a x" "a \<in> set acts" for a x
    using d(3) [OF j(1)] Processing that(2) by (intro act_owes_cong [OF that(1), of root B]) auto
  then have "list_all2 (act_owes fs config ch w') acts ms" if "list_all2 (act_owes fs config ch w) acts ms" for ms
    using that by (auto simp: list_all2_conv_all_nth)
  then show ?thesis using o Processing by auto
qed (use o in auto)

lemma tree_leaving:
  assumes ok: "tree_ok env conc config root B cs0 cap fs ch ls (sh, w)" and i: "i < length ls"
    and t: "bc_io_walk_worker_task env conc config i (ls ! i) (sh, w) = Some (l, sh', w')" and leave: "x \<in> set (ls[i := l])" "leaving x"
  shows "pending (directory_queue sh') = {#} \<and> (\<forall>l \<in> set (ls[i := l]). in_hand l = 0)"
proof -
  note k = tree_okD [OF ok] and d = live_okD [OF tree_okD(1) [OF ok]]
  have upd: "\<forall>x \<in> set (ls[i := l]). in_hand x = 0" if "in_hand l = 0" "\<forall>l \<in> set ls. in_hand l = 0"
    using that set_update_subset_insert [of ls i l] by blast
  show ?thesis
  proof (cases "\<exists>y \<in> set ls. leaving y")
    case True
    then have q: "pending (directory_queue sh) = {#}" "\<forall>l \<in> set ls. in_hand l = 0" using k(8) by blast+
    have "in_hand (ls ! i) = 0" using q(2) nth_mem [OF i] by blast
    from quiet_step [OF d(2) this q(1) t] show ?thesis using upd q(2) by blast
  next
    case False
    then have "leaving l" "\<not> leaving (ls ! i)" using leave nth_mem [OF i] set_update_subset_insert [of ls i l] by blast+
    moreover obtain m where "worker_owes fs config ch (ls ! i) (sh, w) m" using k(7) [OF i] by blast
    ultimately have s: "outstanding_directory_count sh = 0" "directory_queue sh' = directory_queue sh" "in_hand l = 0"
      using leaving_step [OF k(5) _ k(6) t] by blast+
    have "size (pending (directory_queue sh)) + 2 * length ls < 2 ^ 32" using k(2,3) by (simp add: capacity_ok_def)
    from nothing_outstanding [OF d(6,4) s(1) this] show ?thesis using s(3) upd unfolding s(2) by blast
  qed
qed

lemma tree_ok_step:
  assumes ok: "tree_ok env conc config root B cs0 cap fs ch ls s" and i: "i < length ls"
    and t: "bc_io_walk_worker_task env conc config i (ls ! i) s = Some (l, s')"
  shows "tree_ok env conc config root B cs0 cap fs ch (ls[i := l]) s'"
proof -
  obtain sh w sh' w' where s: "s = (sh, w)" "s' = (sh', w')" by fastforce
  note ok = ok [unfolded s] and t = t [unfolded s]
  note k = tree_okD [OF ok]
  obtain m where m: "worker_owes fs config ch (ls ! i) (sh, w) m" using k(7) [OF i] by blast
  note st = tree_settle [OF ok i t m]
  have "\<exists>m. worker_owes fs config ch (ls ! j) (sh', w') m" if "j < length ls" "j \<noteq> i" for j
    using tree_others [OF ok i t that] k(7) [OF that(1)] by blast
  then have "\<forall>x \<in> set (ls[i := l]). \<exists>m. worker_owes fs config ch x (sh', w') m"
    using st by (auto simp: in_update [OF i])
  then show ?thesis
    unfolding tree_ok_def s(2)
    using live_ok_step [OF k(1) i t] capacity_ok_step [OF k(2) t] k(3-5) st tree_leaving [OF ok i t] by auto
qed

interpretation visits: account "bc_io_walk_worker_task env conc config" "tree_ok env conc config root B cs0 cap fs ch"
  "visits_total fs config ch" "worker_owes fs config ch" for env conc config root B cs0 cap fs ch
proof (unfold_locales, goal_cases)
  case (1 ls s i l s')
  then show ?case by (rule tree_ok_step)
next
  case (2 ls s i l s' m)
  then show ?case using tree_settle by (cases s; cases s') blast
next
  case (3 ls s i l s' j m)
  then show ?case using tree_others by (cases s; cases s') blast
qed

section \<open>The walk as a whole\<close>

lemma started_tree_ok:
  assumes env: "par_env_ok env conc config root B" and e: "queued_at e root 0" and sh: "started conc cap e sh"
    and "presents env fs" and "follows config ch" and "unat cap + 2 * n < 2 ^ 32"
  shows "tree_ok env conc config root B (walk_calls w) (unat cap) fs ch (replicate n Create_reader) (sh, w)"
    and "visits_total fs config ch (sh, w) = mset (visited (walk_calls w)) + mset (expected fs config ch root 0)"
proof -
  have q: "directory_queue sh = [Queue_made cap, Pushed e True]" "conc_queue_push conc [Queue_made cap] e" "\<not> shared_visit_failed sh"
    using sh by (auto simp: started_def push_root_def initial_shared_def Let_def)
  have p: "pending (directory_queue sh) = {#e#}" by (simp add: q pending_def)
  have live: "live_ok env conc config root B (walk_calls w) (replicate n Create_reader) (sh, w)" by (rule started_ok [OF env e sh])
  have "capacity_ok conc (unat cap) (replicate n Create_reader) (sh, w)"
    using live_okD(2) [OF live] queue_okD(3) [OF live_okD(2) [OF live] q(2)] by (simp add: capacity_ok_def q(1) pending_def)
  then show "tree_ok env conc config root B (walk_calls w) (unat cap) fs ch (replicate n Create_reader) (sh, w)"
    using live assms(4-6) q(3) by (auto simp: tree_ok_def)
  show "visits_total fs config ch (sh, w) = mset (visited (walk_calls w)) + mset (expected fs config ch root 0)"
    by (simp add: visits_total_def p sub_visits_queued [OF e] tree_visits_def)
qed

lemma parallel_exact:
  assumes env: "par_env_ok env conc config root B" and ctx: "config_concurrency_context config \<noteq> NULL"
    and fs: "presents env fs" and ch: "follows config ch" and room: "queue_available conc (trace w) config"
    and n: "0 < tasks conc config" "unat (effective_capacity config) + 2 * tasks conc config < 2 ^ 32"
    and res: "bc_io_walk_parallel env conc config w = Some ((ok, stats), w')"
  shows "ok = conc_dispatch_and_wait conc (config_concurrency_context config) \<and> stats \<noteq> None \<and>
    mset (visited (walk_calls w')) = mset (visited (walk_calls w)) + mset (expected fs config ch root 0)"
proof (rule walk_parallel_result [OF env ctx res])
  fix queue e sh0 w1 ls sh w2
  assume r: "queued_at e root 0" "started conc (effective_capacity config) e sh0" "walk_calls w1 = walk_calls w"
    "interleaved (bc_io_walk_worker_task env conc config) (replicate (tasks conc config) Create_reader) (sh0, w1) ls (sh, w2)"
    "list_all worker_finished ls"
    "(ok, stats) = (conc_dispatch_and_wait conc (config_concurrency_context config) \<and> \<not> shared_visit_failed sh, Some (shared_stats sh))"
    "w' = log_event (Ev_queue_destroy queue) w2"
  note st = started_tree_ok [OF env r(1,2) fs ch n(2), of w1]
  have "tree_ok env conc config root B (walk_calls w1) (unat (effective_capacity config)) fs ch ls (sh, w2)"
    by (rule visits.ok_interleaved [OF r(4) st(1)])
  note ok = tree_okD [OF this]
  have "length ls = tasks conc config" using interleaved_length [OF r(4)] by simp
  then have ls: "ls = replicate (tasks conc config) Worker_done" using finished_workers [OF r(5)] by simp
  have none: "pending (directory_queue sh) = {#}" using ok(8) [of Worker_done] n(1) ls by simp
  have "list_all2 (\<lambda>l m. worker_owes fs config ch l (sh0, w1) m) (replicate (tasks conc config) Create_reader) (replicate (tasks conc config) {#})"
    by (simp add: list_all2_conv_all_nth)
  from visits.conserved [OF r(4) st(1) this] obtain ms where
    ms: "list_all2 (\<lambda>l m. worker_owes fs config ch l (sh, w2) m) ls ms"
      "visits_total fs config ch (sh, w2) + sum_list ms = visits_total fs config ch (sh0, w1) + sum_list (replicate (tasks conc config) {#})"
    by blast
  have "ms = replicate (tasks conc config) {#}" using ms(1) ls by (auto simp: list_all2_conv_all_nth intro: nth_equalityI)
  then have "mset (visited (walk_calls w2)) = mset (visited (walk_calls w1)) + mset (expected fs config ch root 0)"
    using ms(2) st(2) none by (simp add: visits_total_def sum_list_replicate)
  then show ?thesis using r(3,6,7) ok(6) by simp
qed (use room in simp)

section \<open>Properties\<close>

text \<open>
  C2 The parallel walk visits exactly what it should. On a file system that does not change, where the callbacks decide by
  the entry and no visit fails, with at least one worker and under every fair schedule of the workers, \<^verbatim>\<open>bc_io_walk_parallel\<close>
  succeeds and calls \<^verbatim>\<open>visit\<close> on every entry of the specification exactly once: the same entries as
  \<^verbatim>\<open>bc_io_walk_sequential\<close> from the same state, in some order.
\<close>

theorem walk_parallel_visits:
  assumes "par_env_ok env conc config root B" and "config_concurrency_context config \<noteq> NULL" and "fair (tasks conc config) (conc_schedule conc)"
    and "presents env fs" and "follows config ch" and "queue_available conc (trace w) config"
    and "0 < tasks conc config" and "unat (effective_capacity config) + 2 * tasks conc config < 2 ^ 32"
    and "conc_dispatch_and_wait conc (config_concurrency_context config)"
  shows "\<exists>stats w' stats_sequential w_sequential. bc_io_walk_parallel env conc config w = Some ((True, Some stats), w') \<and>
    bc_io_walk_sequential env (Some config) w = Some ((True, Some stats_sequential), w_sequential) \<and>
    mset (visited (walk_calls w')) = mset (visited (walk_calls w)) + mset (expected fs config ch root 0) \<and>
    mset (visited (walk_calls w')) = mset (visited (walk_calls w_sequential))"
proof -
  obtain ok stats w' where r: "bc_io_walk_parallel env conc config w = Some ((ok, stats), w')"
    using walk_parallel_terminates [OF assms(1-3), of w] by auto
  note e = parallel_exact [OF assms(1,2,4-8) r]
  have "bc_core_ok env" "config_ok config root" using assms(1) by (simp_all add: par_env_ok_def)
  with sequential_exact [OF _ assms(4,5), of root w] show ?thesis using e r assms(9) by auto
qed

theorem walk_parallel_visits_witness:
  "\<exists>stats w'. bc_io_walk_parallel (serving sample_fs) sample_conc sample_config walk_start = Some ((True, Some stats), w') \<and>
    mset (visited (walk_calls w')) = mset (expected sample_fs sample_config all_choices [0x72] 0)"
proof -
  have cap: "effective_capacity sample_config = 16384"
    by (simp add: effective_capacity_def sample_config_def BC_IO_WALK_DEFAULT_QUEUE_CAPACITY_def)
  have "queue_available sample_conc (trace walk_start) sample_config"
    unfolding queue_available_def cap by (simp add: sample_conc_def queue_list_def)
  moreover have "0 < tasks sample_conc sample_config" "unat (effective_capacity sample_config) + 2 * tasks sample_conc sample_config < 2 ^ 32"
    "conc_dispatch_and_wait sample_conc (config_concurrency_context sample_config)"
    unfolding cap sample_tasks(1) by (simp_all add: sample_conc_def)
  moreover have "visited (walk_calls walk_start) = []" by (simp add: walk_start_def)
  ultimately show ?thesis
    using walk_parallel_visits [OF sample_par_ok sample_tasks(2,3) serving_presents [OF sample_fs_ok] sample_follows, of walk_start] by auto
qed

end
