(* ===== verification/IO_Fuzz.thy ===== *)
theory IO_Fuzz
  imports IO_Inode_Set IO_Stream_Read IO_Mmap IO_Dirent
begin

text \<open>
  The fuzzing entry points of \<^verbatim>\<open>fuzzing/\<close>, as clients of the library: each decodes its input into calls of one component. The lemmas say for every
  input what the fuzzers look for on the inputs they try: the calls return, nothing is loaded or stored outside an object, and everything
  acquired is given back. The command line programs around the entry points are in \<open>IO_Fuzz_Main\<close>.
\<close>

section \<open>Model\<close>

text \<open>
  What the entry points use besides the library: the memory contexts of bc-allocators, and \<^verbatim>\<open>mkstemp\<close> and \<^verbatim>\<open>unlink\<close> of libc.
\<close>

record fuzz_env =
  fuzz_context_create :: "history \<Rightarrow> addr option"
  fuzz_mkstemp :: "history \<Rightarrow> bytes \<Rightarrow> int + nat \<times> bytes"
  fuzz_unlink :: "history \<Rightarrow> bytes \<Rightarrow> int + unit"

definition context_create :: "fuzz_env \<Rightarrow> 'w io_world_scheme \<Rightarrow> addr option \<times> 'w io_world_scheme" where
  "context_create lib w = (let ctx = fuzz_context_create lib (trace w) in (ctx, log_event (Ev_context_create ctx) w))"

definition context_destroy :: "addr \<Rightarrow> 'w io_world_scheme \<Rightarrow> 'w io_world_scheme" where
  "context_destroy ctx w = log_event (Ev_context_destroy ctx) w"

text \<open>\<^verbatim>\<open>memcpy\<close> from the input; \<open>None\<close> when it leaves the input.\<close>

definition load_bytes :: "bytes \<Rightarrow> nat \<Rightarrow> nat \<Rightarrow> bytes option" where
  "load_bytes data i n = (if i + n \<le> length data then Some (take n (drop i data)) else None)"

text \<open>\<^verbatim>\<open>fuzz_bc_io_file_inode_set.c\<close>: 17 bytes of input are one operation on the set.\<close>

definition inode_operation :: "io_env \<Rightarrow> u8 \<Rightarrow> u64 \<Rightarrow> u64 \<Rightarrow> bc_io_file_inode_set \<Rightarrow> 'w io_world_scheme \<Rightarrow>
    (bc_io_file_inode_set \<times> 'w io_world_scheme) option" where
  "inode_operation env operation device inode inode_set w =
     (if operation = 0 then do {
        ((_, inode_set), w) \<leftarrow> bc_io_file_inode_set_insert env inode_set device inode w;
        Some (inode_set, w)
      }
      else if operation = 1 then do {
        is_present \<leftarrow> bc_io_file_inode_set_contains inode_set device inode;
        Some (inode_set, w)
      }
      else if operation = 2 then (let current_size = bc_io_file_inode_set_get_size inode_set in Some (inode_set, w))
      else Some (bc_io_file_inode_set_clear env inode_set, w))"

partial_function (option) inode_loop :: "io_env \<Rightarrow> bytes \<Rightarrow> size_t \<Rightarrow> bc_io_file_inode_set \<Rightarrow> 'w io_world_scheme \<Rightarrow>
    (bc_io_file_inode_set \<times> 'w io_world_scheme) option" where
  "inode_loop env data position inode_set w =
     (if position + 17 \<le> of_nat (length data)
      then do {
        b \<leftarrow> load_byte data (unat position);
        device \<leftarrow> load_bytes data (unat (position + 1)) 8;
        inode \<leftarrow> load_bytes data (unat (position + 1 + 8)) 8;
        (inode_set, w) \<leftarrow> inode_operation env (b AND 3) (load_le device) (load_le inode) inode_set w;
        inode_loop env data (position + 1 + 8 + 8) inode_set w
      }
      else Some (inode_set, w))"

definition fuzz_bc_io_file_inode_set :: "io_env \<Rightarrow> fuzz_env \<Rightarrow> bytes \<Rightarrow> 'w io_world_scheme \<Rightarrow> (int \<times> 'w io_world_scheme) option" where
  "fuzz_bc_io_file_inode_set env lib data w =
     (case context_create lib w of
        (None, w) \<Rightarrow> Some (0, w)
      | (Some memory_context, w) \<Rightarrow> do {
          (created, w) \<leftarrow> bc_io_file_inode_set_create env memory_context 8 w;
          case created of
            None \<Rightarrow> Some (0, context_destroy memory_context w)
          | Some (p, inode_set) \<Rightarrow> do {
              (inode_set, w) \<leftarrow> inode_loop env data 0 inode_set w;
              Some (0, context_destroy memory_context (bc_io_file_inode_set_destroy p inode_set w))
            }
        })"

text \<open>\<^verbatim>\<open>fuzz_bc_io_file_path_join.c\<close>; the local arrays start with unspecified contents.\<close>

definition FUZZ_PATH_JOIN_BUFFER_CAPACITY :: size_t where "FUZZ_PATH_JOIN_BUFFER_CAPACITY = 1024"

definition capacity_table :: "size_t list" where
  "capacity_table = [0, 1, 2, 16, 64, 256, 512, FUZZ_PATH_JOIN_BUFFER_CAPACITY]"

definition fuzz_bc_io_file_path_join :: "io_env \<Rightarrow> history \<Rightarrow> bytes \<Rightarrow> int option" where
  "fuzz_bc_io_file_path_join env h data =
     (let sz = (of_nat (length data) :: size_t)
      in if sz < 3 then Some 0
         else do {
           base_length \<leftarrow> load_byte data 0;
           name_length \<leftarrow> load_byte data 1;
           c \<leftarrow> load_byte data 2;
           let capacity_nibble = c AND 7;
           let position = (3 :: size_t);
           if position + ucast base_length + ucast name_length > sz then Some 0
           else do {
             let base_actual = (if ucast base_length < (256 - 1 :: size_t) then ucast base_length else 256 - 1);
             let name_actual = (if ucast name_length < (256 - 1 :: size_t) then ucast name_length else 256 - 1);
             bs \<leftarrow> load_bytes data (unat position) (unat base_actual);
             base \<leftarrow> store 0 bs (fresh_memory env h 256);
             base \<leftarrow> store (unat base_actual) [0] base;
             let position = position + ucast base_length;
             ns \<leftarrow> load_bytes data (unat position) (unat name_actual);
             name \<leftarrow> store 0 ns (fresh_memory env h 256);
             name \<leftarrow> store (unat name_actual) [0] name;
             let capacity = capacity_table ! unat capacity_nibble;
             out \<leftarrow> bc_io_file_path_join env (fresh_memory env h FUZZ_PATH_JOIN_BUFFER_CAPACITY) capacity base base_actual
               name name_actual;
             Some 0
           }
         })"

text \<open>\<^verbatim>\<open>fuzz_bc_io_stream.c\<close>: a memory stream over the input, which lies at some address, read to its end.\<close>

partial_function (option) drain :: "io_env \<Rightarrow> bc_io_stream \<Rightarrow> 'w io_world_scheme \<Rightarrow> (bc_io_stream \<times> 'w io_world_scheme) option" where
  "drain env memory_stream w =
     do {
       (chunk, memory_stream, w) \<leftarrow> bc_io_stream_read_chunk env memory_stream w;
       case chunk of
         None \<Rightarrow> Some (memory_stream, w)
       | Some c \<Rightarrow> if chunk_size c = 0 then Some (memory_stream, w) else drain env memory_stream w
     }"

definition fuzz_bc_io_stream :: "io_env \<Rightarrow> fuzz_env \<Rightarrow> addr \<Rightarrow> bytes \<Rightarrow> 'w io_world_scheme \<Rightarrow> (int \<times> 'w io_world_scheme) option" where
  "fuzz_bc_io_stream env lib data_address data w =
     (case context_create lib w of
        (None, w) \<Rightarrow> Some (0, w)
      | (Some ctx, w) \<Rightarrow>
          let sz = (of_nat (length data) :: size_t)
          in if sz = 0 then Some (0, context_destroy ctx w)
             else (case bc_io_stream_open_memory env ctx data_address sz w of
                     (None, w) \<Rightarrow> Some (0, context_destroy ctx w)
                   | (Some memory_stream, w) \<Rightarrow> do {
                       (memory_stream, w) \<leftarrow> drain env memory_stream w;
                       let pos = bc_io_stream_current_position memory_stream;
                       let total = bc_io_stream_total_size memory_stream;
                       let at_eof = bc_io_stream_is_end_of_stream memory_stream;
                       w \<leftarrow> bc_io_stream_close env memory_stream w;
                       Some (0, context_destroy ctx w)
                     }))"

text \<open>\<^verbatim>\<open>fuzz_bc_io_mmap.c\<close>: the input written to a temporary file, which is mapped.\<close>

definition mmap_template :: bytes where
  "mmap_template = [0x2F, 0x74, 0x6D, 0x70, 0x2F, 0x62, 0x63, 0x5F, 0x69, 0x6F, 0x5F, 0x6D, 0x6D, 0x61, 0x70, 0x5F, 0x66, 0x75, 0x7A, 0x7A, 0x5F,
     0x58, 0x58, 0x58, 0x58, 0x58, 0x58]"

definition hint_of_byte :: "u8 \<Rightarrow> bc_io_mmap_madvise_hint" where
  "hint_of_byte b =
     [BC_IO_MADVISE_NORMAL, BC_IO_MADVISE_SEQUENTIAL, BC_IO_MADVISE_RANDOM, BC_IO_MADVISE_WILLNEED, BC_IO_MADVISE_DONTNEED] ! unat (b mod 5)"

definition fuzz_bc_io_mmap :: "io_env \<Rightarrow> fuzz_env \<Rightarrow> bytes \<Rightarrow> 'w heap_world_scheme \<Rightarrow> (int \<times> 'w heap_world_scheme) option" where
  "fuzz_bc_io_mmap env lib data w =
     (let sz = (of_nat (length data) :: size_t)
      in if sz < 4 then Some (0, w)
         else (case context_create lib w of
                 (None, w) \<Rightarrow> Some (0, w)
               | (Some ctx, w) \<Rightarrow>
                   (case answer (Ev_mkstemp mmap_template) (fuzz_mkstemp lib (trace w) mmap_template) w of
                      (Inl _, w) \<Rightarrow> Some (0, context_destroy ctx w)
                    | (Inr (fd, path), w) \<Rightarrow> do {
                        let (written, w) = sys_write env (int fd) data w;
                        let w = sys_close env (int fd) w;
                        b0 \<leftarrow> load_byte data 0;
                        b1 \<leftarrow> load_byte data 1;
                        b2 \<leftarrow> load_byte data 2;
                        let options = \<lparr>read_only = True, populate = (b0 AND 1 \<noteq> 0), hugepages_hint = (b1 AND 1 \<noteq> 0),
                          madvise_hint = hint_of_byte b2, map_offset = 0, map_length = 0\<rparr>;
                        w \<leftarrow> (case bc_io_mmap_file env ctx path options w of
                          (None, w) \<Rightarrow> Some w
                        | (Some m, w) \<Rightarrow> do {
                            let (base, mapped_size) = bc_io_mmap_get_data m;
                            b3 \<leftarrow> load_byte data 3;
                            let (_, w) = bc_io_mmap_advise env m 0 mapped_size (hint_of_byte b3) w;
                            bc_io_mmap_destroy env m w
                          });
                        let (_, w) = answer (Ev_unlink path) (fuzz_unlink lib (trace w) path) w;
                        Some (0, context_destroy ctx w)
                      })))"

section \<open>Inode set\<close>

lemma inode_operation_ok:
  assumes "bc_core_ok env" and "set_ok s"
  obtains s' w' where "inode_operation env b d n s w = Some (s', w')" and "set_ok s'"
    and "\<And>r. balance (trace w') r = balance (trace w) r + (set_holds p s' r - set_holds p s r)"
proof -
  obtain res s1 w1 where i: "bc_io_file_inode_set_insert env s d n w = Some ((res, s1), w1)" "set_ok s1"
    using insert_spec [OF assms] by blast
  note bal = insert_balance [OF i(1), where p = p]
  consider "b = 0" | "b = 1" | "b = 2" | "b \<noteq> 0" "b \<noteq> 1" "b \<noteq> 2" by blast
  then show thesis
  proof cases
    case 1
    then show thesis using that [OF _ i(2) bal] i(1) by (simp add: inode_operation_def)
  next
    case 4
    have "set_block (bc_io_file_inode_set_clear env s) = set_block s" by (simp add: bc_io_file_inode_set_clear_def)
    then show thesis
      using 4 clear_spec(1) [OF assms] that [of "bc_io_file_inode_set_clear env s" w] by (simp add: inode_operation_def set_holds_def)
  qed (use that [of s w] assms(2) contains_spec [OF assms(2), of d n] in \<open>simp_all add: inode_operation_def\<close>)
qed

lemma inode_loop_ok:
  assumes core: "bc_core_ok env" and len: "length data < 2 ^ 63" and "set_ok s" and "unat pos \<le> length data"
  shows "\<exists>s' w'. inode_loop env data pos s w = Some (s', w') \<and> set_ok s' \<and>
    (\<forall>r. balance (trace w') r = balance (trace w) r + (set_holds p s' r - set_holds p s r))"
  using assms(3,4)
proof (induction "length data - unat pos" arbitrary: pos s w rule: less_induct)
  case less
  have plus: "unat (pos + of_nat k) = unat pos + k" if "k \<le> 17" for k
  proof -
    have "unat (of_nat k :: size_t) = k" using that by (simp add: unat_of_nat64)
    then show ?thesis using unat_plus_if_small [of pos "of_nat k"] that less.prems(2) len by simp
  qed
  note plus = plus [of 17, simplified] plus [of 9, simplified] plus [of 1, simplified]
  have "unat (of_nat (length data) :: size_t) = length data" using len by (simp add: unat_of_nat64)
  then have cond: "pos + 17 \<le> of_nat (length data) \<longleftrightarrow> unat pos + 17 \<le> length data" by (simp add: word_le_nat_alt plus)
  show ?case
  proof (cases "unat pos + 17 \<le> length data")
    case False
    then show ?thesis using less.prems(1) cond by (subst inode_loop.simps) simp
  next
    case True
    let ?b = "data ! unat pos" and ?d = "take 8 (drop (unat pos + 1) data)" and ?n = "take 8 (drop (unat pos + 9) data)"
    obtain s1 w1 where o: "inode_operation env (?b AND 3) (load_le ?d) (load_le ?n) s w = Some (s1, w1)" "set_ok s1"
      "\<And>r. balance (trace w1) r = balance (trace w) r + (set_holds p s1 r - set_holds p s r)"
      by (rule inode_operation_ok [OF core less.prems(1), where b = "?b AND 3" and d = "load_le ?d" and n = "load_le ?n" and w = w and p = p]) blast
    have sums: "pos + 1 + 8 = pos + 9" "pos + 9 + 8 = pos + 17" by simp_all
    have "inode_loop env data pos s w = inode_loop env data (pos + 17) s1 w1"
      using True cond o(1) unfolding sums by (subst inode_loop.simps) (simp add: load_byte_def load_bytes_def plus sums)
    moreover have "length data - unat (pos + 17) < length data - unat pos" "unat (pos + 17) \<le> length data" using True plus by simp_all
    ultimately show ?thesis using less.hyps [OF _ o(2), of "pos + 17" w1] o(3) by fastforce
  qed
qed

lemma context_balance:
  assumes "context_create lib w = (ctx, w')"
  shows "balance (trace w') r = balance (trace w) r + of_bool (\<exists>c. ctx = Some c \<and> r = Context c)"
  using assms by (cases ctx) (auto simp: context_create_def Let_def)

lemma context_destroy_balance [simp]: "balance (trace (context_destroy c w)) r = balance (trace w) r - of_bool (r = Context c)"
  by (simp add: context_destroy_def)

lemma fuzz_inode_set_safe:
  assumes core: "bc_core_ok env" and len: "length data < 2 ^ 63"
  shows "\<exists>w'. fuzz_bc_io_file_inode_set env lib data w = Some (0, w') \<and> (\<forall>r. balance (trace w') r = balance (trace w) r)"
proof -
  obtain ctx w1 where c: "context_create lib w = (ctx, w1)" by fastforce
  note cb = context_balance [OF c]
  show ?thesis
  proof (cases ctx)
    case None
    then show ?thesis using c cb by (simp add: fuzz_bc_io_file_inode_set_def)
  next
    case (Some m)
    have "\<exists>y. bc_io_file_inode_set_round_up_to_power_of_two 8 = Some y"
      by (rule round_up_total [of 8]) (simp_all add: bc_io_file_inode_set_round_up_to_power_of_two_def)
    then have "\<exists>x. bc_io_file_inode_set_create env m 8 w1 = Some x" by (auto simp: bc_io_file_inode_set_create_def)
    then obtain res w2 where r: "bc_io_file_inode_set_create env m 8 w1 = Some (res, w2)" by fast
    note rb = create_balance [OF r]
    show ?thesis
    proof (cases res)
      case None
      then show ?thesis using c cb rb r Some by (simp add: fuzz_bc_io_file_inode_set_def)
    next
      case res: (Some ps)
      obtain p s where ps: "ps = (p, s)" by fastforce
      have ok: "set_ok s" using create_spec(1) [OF core r [unfolded res ps]] .
      from inode_loop_ok [OF core len ok, of 0 w2 p] obtain s' w3 where
        l: "inode_loop env data 0 s w2 = Some (s', w3)" "\<And>r. balance (trace w3) r = balance (trace w2) r + (set_holds p s' r - set_holds p s r)"
        by auto
      show ?thesis using c cb rb r Some res ps l by (simp add: fuzz_bc_io_file_inode_set_def destroy_balance)
    qed
  qed
qed

section \<open>Path join\<close>

lemma unat_ucast_byte: "unat (ucast b :: size_t) = unat b" for b :: u8
proof -
  have "unat b < 2 ^ 8" by (rule order.strict_trans2 [OF unsigned_less]) simp
  then show ?thesis by (simp add: unsigned_ucast_eq take_bit_nat_eq_self_iff)
qed

lemma load_byte_below: "i < length data \<Longrightarrow> load_byte data i = Some (data ! i)"
  by (simp add: load_byte_def)

lemma store_in_array:
  assumes "length xs < 256" and "i = length xs"
  shows "store 0 xs (fresh_memory env h 256) = Some (overwrite 0 xs (fresh_memory env h 256))"
    and "store i [0] (overwrite 0 xs (fresh_memory env h 256)) = Some (overwrite 0 (xs @ [0]) (fresh_memory env h 256))"
  using assms store_adjacent [of 0 xs "[0]" "fresh_memory env h 256"] by (simp_all add: store_def)

text \<open>A length of one byte always fits the arrays of 256 bytes with their terminator.\<close>

lemma actual_length: "(if (ucast x :: size_t) < 256 - 1 then ucast x else 256 - 1) = (ucast x :: size_t)" for x :: u8
proof (cases "unat x < 255")
  case True
  then show ?thesis by (simp add: word_less_nat_alt unat_ucast_byte)
next
  case False
  have "unat x < 2 ^ 8" by (rule order.strict_trans2 [OF unsigned_less]) simp
  then have "unat (ucast x :: size_t) = unat (255 :: size_t)" using False by (simp add: unat_ucast_byte)
  then show ?thesis by (simp add: word_unat_eq_iff)
qed

lemma capacity_bounded: "unat (capacity_table ! unat (c AND 7 :: u8)) \<le> 1024"
proof -
  have "c AND 7 \<le> 7" by (rule word_and_le1)
  then have "capacity_table ! unat (c AND 7) \<in> set capacity_table"
    by (intro nth_mem) (simp add: capacity_table_def word_le_nat_alt)
  then show ?thesis by (auto simp: capacity_table_def FUZZ_PATH_JOIN_BUFFER_CAPACITY_def)
qed

lemma fuzz_path_join_safe:
  assumes core: "bc_core_ok env" and len: "length data < 2 ^ 63"
  shows "fuzz_bc_io_file_path_join env h data = Some 0"
proof -
  have sz: "unat (of_nat (length data) :: size_t) = length data" using len by (simp add: unat_of_nat64)
  show ?thesis
  proof (cases "length data < 3")
    case True
    then show ?thesis using sz by (simp add: fuzz_bc_io_file_path_join_def word_less_nat_alt)
  next
    case False
    define bl nl where "bl = data ! 0" and "nl = data ! 1"
    have lb: "load_byte data 0 = Some bl" "load_byte data 1 = Some nl" "load_byte data 2 = Some (data ! 2)"
      unfolding bl_def nl_def using False by (intro load_byte_below, linarith)+
    have small: "unat bl < 256" "unat nl < 256" using unsigned_less [of bl] unsigned_less [of nl] by simp_all
    have u: "unat (ucast bl :: size_t) = unat bl" "unat (ucast nl :: size_t) = unat nl" by (simp_all add: unat_ucast_byte)
    have p1: "unat (3 + ucast bl :: size_t) = 3 + unat bl"
      using unat_plus_if_small [of "3 :: size_t" "ucast bl"] u small by simp
    have p2: "unat (3 + ucast bl + ucast nl :: size_t) = 3 + unat bl + unat nl"
      using unat_plus_if_small [of "3 + ucast bl :: size_t" "ucast nl"] u small p1 by simp
    note cap = capacity_bounded [of "data ! 2"]
    show ?thesis
    proof (cases "3 + unat bl + unat nl \<le> length data")
      case False
      then show ?thesis using \<open>\<not> length data < 3\<close> sz p2
        by (simp add: fuzz_bc_io_file_path_join_def word_less_nat_alt lb [simplified])
    next
      case True
      let ?bs = "take (unat bl) (drop 3 data)" and ?ns = "take (unat nl) (drop (3 + unat bl) data)"
      have l: "length ?bs = unat bl" "length ?ns = unat nl" using True by simp_all
      note st = store_in_array [of ?bs "unat bl" env h] store_in_array [of ?ns "unat nl" env h]
      obtain out where "bc_io_file_path_join env (fresh_memory env h FUZZ_PATH_JOIN_BUFFER_CAPACITY) (capacity_table ! unat ((data ! 2) AND 7))
          (overwrite 0 (?bs @ [0]) (fresh_memory env h 256)) (ucast bl) (overwrite 0 (?ns @ [0]) (fresh_memory env h 256)) (ucast nl) = Some out"
        using path_join_spec [OF core, of "capacity_table ! unat ((data ! 2) AND 7)" "fresh_memory env h FUZZ_PATH_JOIN_BUFFER_CAPACITY"
          "ucast bl" "overwrite 0 (?bs @ [0]) (fresh_memory env h 256)" "ucast nl" "overwrite 0 (?ns @ [0]) (fresh_memory env h 256)"]
          cap small u by (simp add: FUZZ_PATH_JOIN_BUFFER_CAPACITY_def)
      then show ?thesis
        using \<open>\<not> length data < 3\<close> True sz p1 p2 actual_length [of bl] actual_length [of nl] u l st small
        by (simp add: fuzz_bc_io_file_path_join_def word_less_nat_alt lb [simplified] load_bytes_def)
    qed
  qed
qed

section \<open>Memory stream\<close>

definition drained :: "size_t \<Rightarrow> bc_io_stream \<Rightarrow> bool" where
  "drained sz s \<longleftrightarrow> stream_source_type s = BC_IO_STREAM_SOURCE_MEMORY \<and> stream_memory_size s = sz \<and> stream_memory_position s \<le> sz \<and>
     stream_buffer_size s = 131072 \<and> stream_buffer_used s = 0"

lemma drain_step:
  assumes "drained sz s"
  shows "\<exists>c s'. bc_io_stream_read_chunk env s w = Some (c, s', w) \<and> drained sz s' \<and> stream_frame s' = stream_frame s \<and>
    (case c of None \<Rightarrow> True | Some ch \<Rightarrow> unat (stream_memory_position s) < unat (stream_memory_position s'))"
proof -
  let ?p = "stream_memory_position s" and ?n = "stream_memory_size s" and ?b = "stream_buffer_size s"
  define k where "k = (if ?n - ?p < ?b then ?n - ?p else ?b)"
  have n: "?n = sz" "?b = 131072" and le: "?p \<le> ?n" using assms by (simp_all add: drained_def)
  then have k: "unat k = min 131072 (unat ?n - unat ?p)" by (simp add: k_def word_less_nat_alt unat_minus_le min_def)
  then have "unat ?p + unat k \<le> unat ?n" using le by (simp add: word_le_nat_alt)
  then have adv: "unat (?p + k) = unat ?p + unat k" using unat_advance [of ?p "unat k" ?n] by simp
  show ?thesis
    using assms adv k le unfolding k_def
    by (cases "?n - ?p < ?b")
      (auto simp: bc_io_stream_read_chunk_def bc_io_stream_read_chunk_memory_def drained_def stream_frame_def Let_def
        word_le_nat_alt word_less_nat_alt)
qed

lemma drain_ok:
  assumes "drained sz s"
  shows "\<exists>s'. drain env s w = Some (s', w) \<and> drained sz s' \<and> stream_frame s' = stream_frame s"
  using assms
proof (induction "unat sz - unat (stream_memory_position s)" arbitrary: s rule: less_induct)
  case less
  from drain_step [OF less.prems] obtain c s' where
    r: "bc_io_stream_read_chunk env s w = Some (c, s', w)" "drained sz s'" "stream_frame s' = stream_frame s"
      "case c of None \<Rightarrow> True | Some ch \<Rightarrow> unat (stream_memory_position s) < unat (stream_memory_position s')" by blast
  show ?case
  proof (cases "\<exists>ch. c = Some ch \<and> chunk_size ch \<noteq> 0")
    case True
    then have "unat sz - unat (stream_memory_position s') < unat sz - unat (stream_memory_position s)"
      using r(2,4) by (auto simp: drained_def word_le_nat_alt)
    from less.hyps [OF this r(2)] show ?thesis using r(1,3) True by (subst drain.simps) auto
  next
    case False
    then show ?thesis using r by (subst drain.simps) (auto split: option.splits)
  qed
qed

lemma fuzz_stream_safe:
  "\<exists>w'. fuzz_bc_io_stream env lib data_address data w = Some (0, w') \<and> (\<forall>r. balance (trace w') r = balance (trace w) r)"
proof -
  let ?sz = "of_nat (length data) :: size_t"
  obtain ctx w1 where c: "context_create lib w = (ctx, w1)" by fastforce
  note cb = context_balance [OF c]
  show ?thesis
  proof (cases "ctx = None \<or> ?sz = 0")
    case True
    then show ?thesis using c cb by (auto simp: fuzz_bc_io_stream_def split: option.splits)
  next
    case False
    then obtain m where m: "ctx = Some m" "?sz \<noteq> 0" by auto
    obtain res w2 where o: "bc_io_stream_open_memory env m data_address ?sz w1 = (res, w2)" by fastforce
    note spec = open_memory_spec [OF o]
    show ?thesis
    proof (cases res)
      case None
      then show ?thesis using c cb m o spec by (simp add: fuzz_bc_io_stream_def)
    next
      case (Some s)
      have s: "drained ?sz s" "\<not> stream_owns_file_descriptor s" "\<And>r. balance (trace w2) r = balance (trace w1) r + stream_holds s r"
        using spec Some by (auto simp: drained_def freshly_open_def stream_ok_def)
      from drain_ok [OF s(1)] obtain s' where
        d: "drain env s w2 = Some (s', w2)" "drained ?sz s'" "stream_frame s' = stream_frame s" by blast
      have fr: "stream_holds s' = stream_holds s" by (rule stream_holds_cong [OF d(3)])
      have "bc_io_stream_flush env s' w2 = Some (True, s', w2)" using d(2) by (simp add: drained_def bc_io_stream_flush_def)
      then obtain w3 where "bc_io_stream_close env s' w2 = Some w3" "\<And>r. balance (trace w3) r = balance (trace w2) r - stream_holds s' r"
        by (auto simp: bc_io_stream_close_def stream_holds_def pool_free_def arena_destroy_def sys_close_def Let_def)
      then show ?thesis using c cb m o Some d(1) s(3) fr by (simp add: fuzz_bc_io_stream_def)
    qed
  qed
qed

section \<open>Mapped file\<close>

text \<open>Mapping a file, advising on the whole of it and destroying the map.\<close>

lemma map_advise_destroy:
  fixes w :: "'w heap_world_scheme"
  assumes "addresses_ok env" and f: "bc_io_mmap_file env ctx path opts w = (res, w1)"
  obtains w2 where "(case res of None \<Rightarrow> Some w1 | Some mp \<Rightarrow>
      bc_io_mmap_destroy env mp (snd (bc_io_mmap_advise env mp 0 (map_mapped_size mp) hint w1))) = Some w2"
    and "\<And>r. balance (trace w2) r = balance (trace w) r"
proof (cases res)
  case None
  then show thesis using mmap_file_spec [OF assms] that [of w1] by simp
next
  case (Some mp)
  note spec = mmap_file_spec [OF assms]
  obtain adv wa where a: "bc_io_mmap_advise env mp 0 (map_mapped_size mp) hint w1 = (adv, wa)" by fastforce
  have "balance (trace wa) r = balance (trace w1) r" for r
    using a by (auto simp: bc_io_mmap_advise_def sys_madvise_def answer_def split: if_splits sum.splits)
  moreover obtain w2 where "bc_io_mmap_destroy env mp wa = Some w2" "\<And>r. balance (trace w2) r = balance (trace wa) r - map_holds mp r"
    using destroy_spec [of mp wa env] spec Some by (auto simp: map_ok_def)
  ultimately show thesis using that [of w2] spec Some a by simp
qed

lemma fuzz_mmap_mapped:
  fixes w :: "'w heap_world_scheme"
  assumes addr: "addresses_ok env" and len: "length data \<ge> 4" and sz: "unat (of_nat (length data) :: size_t) = length data"
    and c: "context_create lib w = (Some m, w1)"
    and t: "answer (Ev_mkstemp mmap_template) (fuzz_mkstemp lib (trace w1) mmap_template) w1 = (Inr (fd, path), w2)"
  shows "\<exists>w'. fuzz_bc_io_mmap env lib data w = Some (0, w') \<and>
    (\<forall>r. balance (trace w') r = balance (trace w2) r - of_bool (r = Descriptor (int fd)) - of_bool (r = Context m))"
proof -
  define w3 where "w3 = sys_close env (int fd) (snd (sys_write env (int fd) data w2))"
  have b3: "balance (trace w3) r = balance (trace w2) r - of_bool (r = Descriptor (int fd))" for r
    by (simp add: w3_def sys_write_def io_balance)
  define opts where "opts = \<lparr>read_only = True, populate = (data ! 0 AND 1 \<noteq> 0), hugepages_hint = (data ! 1 AND 1 \<noteq> 0),
    madvise_hint = hint_of_byte (data ! 2), map_offset = 0, map_length = 0\<rparr>"
  obtain res w4 where f: "bc_io_mmap_file env m path opts w3 = (res, w4)" by fastforce
  obtain w5 where u: "(case res of None \<Rightarrow> Some w4 | Some mp \<Rightarrow>
      bc_io_mmap_destroy env mp (snd (bc_io_mmap_advise env mp 0 (map_mapped_size mp) (hint_of_byte (data ! 3)) w4))) = Some w5"
    "\<And>r. balance (trace w5) r = balance (trace w3) r"
    by (rule map_advise_destroy [OF addr f, of "hint_of_byte (data ! 3)"]) blast
  have lb: "load_byte data 0 = Some (data ! 0)" "load_byte data 1 = Some (data ! 1)" "load_byte data 2 = Some (data ! 2)"
    "load_byte data 3 = Some (data ! 3)"
    using len by (intro load_byte_below, linarith)+
  obtain wr wv where wr: "sys_write env (int fd) data w2 = (wr, wv)" by fastforce
  obtain ul wu where ul: "answer (Ev_unlink path) (fuzz_unlink lib (trace w5) path) w5 = (ul, wu)" by fastforce
  have f': "bc_io_mmap_file env m path opts (sys_close env (int fd) wv) = (res, w4)" using f by (simp add: w3_def wr)
  have use: "(case bc_io_mmap_file env m path opts (sys_close env (int fd) wv) of (None, w) \<Rightarrow> Some w
      | (Some mp, w) \<Rightarrow> do {
          let (base, mapped_size) = bc_io_mmap_get_data mp;
          b3 \<leftarrow> load_byte data 3;
          let (_, w) = bc_io_mmap_advise env mp 0 mapped_size (hint_of_byte b3) w;
          bc_io_mmap_destroy env mp w
        }) = Some w5"
    using u(1) lb(4) unfolding f' by (cases res) (simp_all add: bc_io_mmap_get_data_def case_prod_beta)
  have ge: "\<not> (of_nat (length data) :: size_t) < 4" using len sz by (simp add: word_less_nat_alt)
  have "fuzz_bc_io_mmap env lib data w = Some (0, context_destroy m wu)"
    unfolding fuzz_bc_io_mmap_def Let_def if_not_P [OF ge] c prod.case option.case t sum.case wr lb bind.bind_lunit
      opts_def [symmetric] use [unfolded Let_def lb bind.bind_lunit] ul ..
  moreover have "wu = snd (answer (Ev_unlink path) (fuzz_unlink lib (trace w5) path) w5)" by (simp add: ul)
  moreover have "balance (trace (snd (answer (Ev_unlink path) x w5))) r = balance (trace w5) r" for x r by simp
  ultimately show ?thesis using b3 u(2) by simp
qed

lemma fuzz_mmap_safe:
  fixes w :: "'w heap_world_scheme"
  assumes addr: "addresses_ok env" and len: "length data < 2 ^ 63"
  shows "\<exists>w'. fuzz_bc_io_mmap env lib data w = Some (0, w') \<and> (\<forall>r. balance (trace w') r = balance (trace w) r)"
proof -
  have sz: "unat (of_nat (length data) :: size_t) = length data" using len by (simp add: unat_of_nat64)
  obtain ctx w1 where c: "context_create lib w = (ctx, w1)" by fastforce
  note cb = context_balance [OF c]
  obtain ms w2 where t: "answer (Ev_mkstemp mmap_template) (fuzz_mkstemp lib (trace w1) mmap_template) w1 = (ms, w2)" by fastforce
  have tb: "balance (trace w2) r = balance (trace w1) r + (case ms of Inl _ \<Rightarrow> 0 | Inr (fd, _) \<Rightarrow> of_bool (r = Descriptor (int fd)))" for r
    using t by (auto simp: answer_def split: sum.splits)
  consider (small) "length data < 4" | (none) "length data \<ge> 4" "ctx = None" | (fail) m e where "length data \<ge> 4" "ctx = Some m" "ms = Inl e"
    | (go) m fd path where "length data \<ge> 4" "ctx = Some m" "ms = Inr (fd, path)"
    by (cases "length data < 4"; cases ctx; cases ms) (auto simp: not_less)
  then show ?thesis
  proof cases
    case small
    then show ?thesis using sz by (simp add: fuzz_bc_io_mmap_def word_less_nat_alt)
  next
    case none
    then show ?thesis using sz c cb by (simp add: fuzz_bc_io_mmap_def word_less_nat_alt)
  next
    case fail
    then show ?thesis using sz c cb t tb by (simp add: fuzz_bc_io_mmap_def word_less_nat_alt)
  next
    case go
    from fuzz_mmap_mapped [OF addr go(1) sz c [unfolded go(2)] t [unfolded go(3)]] show ?thesis using cb tb go by auto
  qed
qed

end
