(* ===== verification/IO_Fuzz_Main.thy ===== *)
theory IO_Fuzz_Main
  imports IO_Fuzz "HOL-Library.Signed_Division"
begin

text \<open>
  The command line programs around the fuzzing entry points: each \<^verbatim>\<open>main\<close> of \<^verbatim>\<open>fuzzing/*.c\<close> fills a local array with \<^verbatim>\<open>rand\<close> and calls its entry
  point on it, as often as the first argument says. The four programs have the same text up to the size of the array and the entry
  point, so the loop is one definition; the contract it needs of an entry point is the locale \<open>safe_entry\<close>.
\<close>

section \<open>Model\<close>

text \<open>\<^verbatim>\<open>strtoul(text, NULL, 10)\<close>: blanks, a sign, digits; the value is \<^verbatim>\<open>ULONG_MAX\<close> when it is out of range.\<close>

definition c_isspace :: "u8 \<Rightarrow> bool" where "c_isspace b \<longleftrightarrow> b = 0x20 \<or> 9 \<le> b \<and> b \<le> 13"
definition c_isdigit :: "u8 \<Rightarrow> bool" where "c_isdigit b \<longleftrightarrow> 0x30 \<le> b \<and> b \<le> 0x39"

definition strtoul :: "bytes \<Rightarrow> u64" where
  "strtoul text =
     (let text = dropWhile c_isspace text;
          negative = (text \<noteq> [] \<and> hd text = 0x2D);
          text = (if text \<noteq> [] \<and> (hd text = 0x2D \<or> hd text = 0x2B) then tl text else text);
          v = foldl (\<lambda>v d. v * 10 + (unat d - 0x30)) 0 (takeWhile c_isdigit text)
      in if v \<ge> 2 ^ 64 then - 1 else if negative then - of_nat v else of_nat v)"

text \<open>The generator of libc: \<^verbatim>\<open>srand\<close> gives its state, \<^verbatim>\<open>rand\<close> the next number, from 0 to \<^verbatim>\<open>RAND_MAX\<close>.\<close>

record 'g c_random =
  c_srand :: "u32 \<Rightarrow> 'g"
  c_rand :: "'g \<Rightarrow> int \<times> 'g"

definition rand_ok :: "'g c_random \<Rightarrow> bool" where
  "rand_ok rnd \<longleftrightarrow> (\<forall>g. 0 \<le> fst (c_rand rnd g) \<and> fst (c_rand rnd g) < 2 ^ 31)"

text \<open>The inner loop, which stores \<open>len\<close> numbers; \<open>None\<close> is a store outside the array or a loop that does not end.\<close>

partial_function (option) fill_loop :: "'g c_random \<Rightarrow> size_t \<Rightarrow> size_t \<Rightarrow> bytes \<Rightarrow> 'g \<Rightarrow> (bytes \<times> 'g) option" where
  "fill_loop rnd len j buffer g =
     (if j < len
      then (case c_rand rnd g of (r, g) \<Rightarrow> do {
        buffer \<leftarrow> store (unat j) [word_of_int (r AND 0xFF)] buffer;
        fill_loop rnd len (j + 1) buffer g
      })
      else Some (buffer, g))"

text \<open>The outer loop. An entry point sees the first \<open>len\<close> bytes of the array.\<close>

partial_function (option) driver_loop :: "(bytes \<Rightarrow> 'w \<Rightarrow> (int \<times> 'w) option) \<Rightarrow> 'g c_random \<Rightarrow> u64 \<Rightarrow> u64 \<Rightarrow> bytes \<Rightarrow> 'g \<Rightarrow> 'w \<Rightarrow> 'w option" where
  "driver_loop entry rnd iterations i buffer g w =
     (if i < iterations
      then (case c_rand rnd g of (r, g) \<Rightarrow> do {
        let len = (word_of_int (r smod int (length buffer)) :: size_t);
        (buffer, g) \<leftarrow> fill_loop rnd len 0 buffer g;
        (_, w) \<leftarrow> entry (take (unat len) buffer) w;
        driver_loop entry rnd iterations (i + 1) buffer g w
      })
      else Some w)"

text \<open>The arguments include the name of the program; the usage text on \<^verbatim>\<open>stderr\<close> is not an event of the model.\<close>

definition driver_main :: "(bytes \<Rightarrow> 'w \<Rightarrow> (int \<times> 'w) option) \<Rightarrow> 'g c_random \<Rightarrow> bytes \<Rightarrow> bytes list \<Rightarrow> 'w \<Rightarrow> (int \<times> 'w) option" where
  "driver_main entry rnd buffer argv w =
     (if length argv < 2 then Some (2, w)
      else do {
        let iterations = strtoul (argv ! 1);
        let seed = (if length argv \<ge> 3 then strtoul (argv ! 2) else 0);
        w \<leftarrow> driver_loop entry rnd iterations 0 buffer (c_srand rnd (ucast seed)) w;
        Some (0, w)
      })"

definition main_bc_io_file_inode_set :: "io_env \<Rightarrow> fuzz_env \<Rightarrow> 'g c_random \<Rightarrow> bytes list \<Rightarrow> 'w io_world_scheme \<Rightarrow>
    (int \<times> 'w io_world_scheme) option" where
  "main_bc_io_file_inode_set env lib rnd argv w =
     driver_main (fuzz_bc_io_file_inode_set env lib) rnd (fresh_memory env (trace w) 4096) argv w"

definition main_bc_io_file_path_join :: "io_env \<Rightarrow> 'g c_random \<Rightarrow> bytes list \<Rightarrow> 'w io_world_scheme \<Rightarrow> (int \<times> 'w io_world_scheme) option" where
  "main_bc_io_file_path_join env rnd argv w =
     driver_main (\<lambda>data w. map_option (\<lambda>result. (result, w)) (fuzz_bc_io_file_path_join env (trace w) data)) rnd
       (fresh_memory env (trace w) 2048) argv w"

definition main_bc_io_stream :: "io_env \<Rightarrow> fuzz_env \<Rightarrow> addr \<Rightarrow> 'g c_random \<Rightarrow> bytes list \<Rightarrow> 'w io_world_scheme \<Rightarrow>
    (int \<times> 'w io_world_scheme) option" where
  "main_bc_io_stream env lib buffer_address rnd argv w =
     driver_main (fuzz_bc_io_stream env lib buffer_address) rnd (fresh_memory env (trace w) 4096) argv w"

definition main_bc_io_mmap :: "io_env \<Rightarrow> fuzz_env \<Rightarrow> 'g c_random \<Rightarrow> bytes list \<Rightarrow> 'w heap_world_scheme \<Rightarrow>
    (int \<times> 'w heap_world_scheme) option" where
  "main_bc_io_mmap env lib rnd argv w =
     driver_main (fuzz_bc_io_mmap env lib) rnd (fresh_memory env (trace w) 1024) argv w"

section \<open>The loops\<close>

lemma fill_loop_total:
  assumes "unat len \<le> length buffer" and "j \<le> len"
  shows "\<exists>buffer' g'. fill_loop rnd len j buffer g = Some (buffer', g') \<and> length buffer' = length buffer"
  using assms
proof (induction "unat len - unat j" arbitrary: j buffer g rule: less_induct)
  case less
  show ?case
  proof (cases "j < len")
    case False
    then show ?thesis by (subst fill_loop.simps) simp
  next
    case True
    obtain r g1 where r: "c_rand rnd g = (r, g1)" by fastforce
    have j: "unat j < unat len" "unat (j + 1) = unat j + 1"
      using True unat_advance [of j 1 len] by (simp_all add: word_less_nat_alt)
    let ?b = "overwrite (unat j) [word_of_int (r AND 0xFF)] buffer"
    have s: "store (unat j) [word_of_int (r AND 0xFF)] buffer = Some ?b" "length ?b = length buffer"
      using j(1) less.prems(1) by (simp_all add: store_def overwrite_def)
    have "unat len - unat (j + 1) < unat len - unat j" "unat len \<le> length ?b" "j + 1 \<le> len"
      using j s(2) less.prems(1) by (simp_all add: word_le_nat_alt)
    from less.hyps [OF this, of g1] show ?thesis using True r s by (subst fill_loop.simps) simp
  qed
qed

text \<open>The length drawn for an input stays below the size of the array.\<close>

lemma drawn_length:
  assumes "rand_ok rnd" and "c_rand rnd g = (r, g')" and "0 < n" and "n < 2 ^ 31"
  shows "unat (word_of_int (r smod int n) :: size_t) < n"
proof -
  have "0 \<le> r" using assms(1,2) by (metis rand_ok_def fst_conv)
  then have "r smod int n = r mod int n" by (simp add: signed_modulo_int_def sgn_if)
  moreover have m: "0 \<le> r mod int n" "nat (r mod int n) < n" using assms(3) by (simp_all add: nat_less_iff)
  then have "word_of_int (r mod int n) = (of_nat (nat (r mod int n)) :: size_t)" by simp
  moreover have "unat (of_nat (nat (r mod int n)) :: size_t) = nat (r mod int n)" using m(2) assms(4) by (intro unat_of_nat64) simp
  ultimately show ?thesis using m(2) by simp
qed

text \<open>The contract of an entry point: it returns 0 on every input and gives back what it acquired.\<close>

locale safe_entry =
  fixes ok :: "'e \<Rightarrow> bool" and entry :: "'e \<Rightarrow> bytes \<Rightarrow> 'w io_world_scheme \<Rightarrow> (int \<times> 'w io_world_scheme) option"
  assumes entry_law: "ok e \<Longrightarrow> length data < 2 ^ 63 \<Longrightarrow>
    \<exists>w'. entry e data w = Some (0, w') \<and> (\<forall>r. balance (trace w') r = balance (trace w) r)"
begin

lemma driver_loop_safe:
  assumes "ok e" and "rand_ok rnd" and "0 < length buffer" and "length buffer < 2 ^ 31" and "i \<le> iterations"
  shows "\<exists>w'. driver_loop (entry e) rnd iterations i buffer g w = Some w' \<and> (\<forall>r. balance (trace w') r = balance (trace w) r)"
  using assms(3-5)
proof (induction "unat iterations - unat i" arbitrary: i buffer g w rule: less_induct)
  case less
  show ?case
  proof (cases "i < iterations")
    case False
    then show ?thesis by (subst driver_loop.simps) simp
  next
    case True
    obtain r g1 where r: "c_rand rnd g = (r, g1)" by fastforce
    define len where "len = (word_of_int (r smod int (length buffer)) :: size_t)"
    have len: "unat len < length buffer" unfolding len_def by (rule drawn_length [OF assms(2) r less.prems(1,2)])
    then obtain b g2 where f: "fill_loop rnd len 0 buffer g1 = Some (b, g2)" "length b = length buffer"
      using fill_loop_total [of len buffer 0 rnd g1] by auto
    have "length (take (unat len) b) < 2 ^ 63" using len f(2) less.prems(2) by simp
    from entry_law [OF assms(1) this, of w] obtain w1 where
      e: "entry e (take (unat len) b) w = Some (0, w1)" "\<And>r. balance (trace w1) r = balance (trace w) r" by blast
    have i: "unat (i + 1) = unat i + 1" "unat i < unat iterations"
      using True unat_advance [of i 1 iterations] by (simp_all add: word_less_nat_alt)
    then have "unat iterations - unat (i + 1) < unat iterations - unat i" "i + 1 \<le> iterations" by (simp_all add: word_le_nat_alt)
    from less.hyps [OF this(1) _ _ this(2), of b g2 w1] f(2) less.prems(1,2) obtain w' where
      l: "driver_loop (entry e) rnd iterations (i + 1) b g2 w1 = Some w'" "\<forall>r. balance (trace w') r = balance (trace w1) r" by auto
    then show ?thesis using True r f(1) e by (subst driver_loop.simps) (simp add: len_def [symmetric] Let_def)
  qed
qed

lemma driver_main_safe:
  assumes "ok e" and "rand_ok rnd" and "0 < length buffer" and "length buffer < 2 ^ 31"
  shows "\<exists>w'. driver_main (entry e) rnd buffer argv w = Some (if length argv < 2 then 2 else 0, w') \<and>
    (\<forall>r. balance (trace w') r = balance (trace w) r)"
  using driver_loop_safe [OF assms, of 0 "strtoul (argv ! 1)" "c_srand rnd (ucast (if length argv \<ge> 3 then strtoul (argv ! 2) else 0))" w]
  by (auto simp: driver_main_def Let_def)

end

interpretation inode_set_fuzz: safe_entry "\<lambda>(env, lib). bc_core_ok env" "\<lambda>(env, lib). fuzz_bc_io_file_inode_set env lib"
  by unfold_locales (auto intro: fuzz_inode_set_safe)

interpretation path_join_fuzz: safe_entry bc_core_ok
  "\<lambda>env data w. map_option (\<lambda>result. (result, w)) (fuzz_bc_io_file_path_join env (trace w) data)"
  by unfold_locales (simp add: fuzz_path_join_safe)

interpretation stream_fuzz: safe_entry "\<lambda>_. True" "\<lambda>(env, lib, p). fuzz_bc_io_stream env lib p"
  by unfold_locales (auto intro: fuzz_stream_safe)

interpretation mmap_fuzz: safe_entry "\<lambda>(env, lib). addresses_ok env" "\<lambda>(env, lib). fuzz_bc_io_mmap env lib"
  by unfold_locales (auto intro: fuzz_mmap_safe)

section \<open>Properties\<close>

text \<open>
  C29 What the fuzzers search for does not exist. Whatever the input, and whichever of the system calls and allocations fail, every
  fuzzing entry point returns 0, with the right result of every call it makes: no loop runs forever, no load or store leaves an
  object, and every descriptor, block, mapping and memory context is given back. So do the programs around them: with whatever arguments and whatever numbers
  \<^verbatim>\<open>rand\<close> gives, each ends, with status 0, or 2 when the number of iterations is missing, and nothing is left over.
\<close>

theorem fuzzing_finds_nothing:
  fixes w :: "'v io_world_scheme" and hw :: "'w heap_world_scheme"
  assumes "bc_core_ok env" and "addresses_ok env" and "length data < 2 ^ 63" and "rand_ok rnd"
    and "status = (if length argv < 2 then 2 else 0)"
  shows "(\<exists>w'. fuzz_bc_io_file_inode_set env lib data w = Some (0, w') \<and> (\<forall>r. balance (trace w') r = balance (trace w) r)) \<and>
    fuzz_bc_io_file_path_join env h data = Some 0 \<and>
    (\<exists>w'. fuzz_bc_io_stream env lib p data w = Some (0, w') \<and> (\<forall>r. balance (trace w') r = balance (trace w) r)) \<and>
    (\<exists>w'. fuzz_bc_io_mmap env lib data hw = Some (0, w') \<and> (\<forall>r. balance (trace w') r = balance (trace hw) r)) \<and>
    (\<exists>w'. main_bc_io_file_inode_set env lib rnd argv w = Some (status, w') \<and> (\<forall>r. balance (trace w') r = balance (trace w) r)) \<and>
    (\<exists>w'. main_bc_io_file_path_join env rnd argv w = Some (status, w') \<and> (\<forall>r. balance (trace w') r = balance (trace w) r)) \<and>
    (\<exists>w'. main_bc_io_stream env lib p rnd argv w = Some (status, w') \<and> (\<forall>r. balance (trace w') r = balance (trace w) r)) \<and>
    (\<exists>w'. main_bc_io_mmap env lib rnd argv hw = Some (status, w') \<and> (\<forall>r. balance (trace w') r = balance (trace hw) r))"
proof (intro conjI)
  show "\<exists>w'. fuzz_bc_io_file_inode_set env lib data w = Some (0, w') \<and> (\<forall>r. balance (trace w') r = balance (trace w) r)"
    by (rule fuzz_inode_set_safe [OF assms(1,3)])
  show "fuzz_bc_io_file_path_join env h data = Some 0" by (rule fuzz_path_join_safe [OF assms(1,3)])
  show "\<exists>w'. fuzz_bc_io_stream env lib p data w = Some (0, w') \<and> (\<forall>r. balance (trace w') r = balance (trace w) r)"
    by (rule fuzz_stream_safe)
  show "\<exists>w'. fuzz_bc_io_mmap env lib data hw = Some (0, w') \<and> (\<forall>r. balance (trace w') r = balance (trace hw) r)"
    by (rule fuzz_mmap_safe [OF assms(2,3)])
  show "\<exists>w'. main_bc_io_file_inode_set env lib rnd argv w = Some (status, w') \<and> (\<forall>r. balance (trace w') r = balance (trace w) r)"
    using inode_set_fuzz.driver_main_safe [of "(env, lib)" rnd "fresh_memory env (trace w) 4096" argv w] assms(1,4,5) 
    by (simp add: main_bc_io_file_inode_set_def split del: if_split)
  show "\<exists>w'. main_bc_io_file_path_join env rnd argv w = Some (status, w') \<and> (\<forall>r. balance (trace w') r = balance (trace w) r)"
    using path_join_fuzz.driver_main_safe [of env rnd "fresh_memory env (trace w) 2048" argv w] assms(1,4,5) 
    by (simp add: main_bc_io_file_path_join_def split del: if_split)
  show "\<exists>w'. main_bc_io_stream env lib p rnd argv w = Some (status, w') \<and> (\<forall>r. balance (trace w') r = balance (trace w) r)"
    using stream_fuzz.driver_main_safe [where e = "(env, lib, p)" and rnd = rnd and buffer = "fresh_memory env (trace w) 4096" and argv = argv and w = w]
      assms(4,5) 
    by (simp add: main_bc_io_stream_def split del: if_split)
  show "\<exists>w'. main_bc_io_mmap env lib rnd argv hw = Some (status, w') \<and> (\<forall>r. balance (trace w') r = balance (trace hw) r)"
    using mmap_fuzz.driver_main_safe [of "(env, lib)" rnd "fresh_memory env (trace hw) 1024" argv hw] assms(2,4,5) 
    by (simp add: main_bc_io_mmap_def split del: if_split)
qed

definition sample_fuzz :: fuzz_env where
  "sample_fuzz = \<lparr>fuzz_context_create = (\<lambda>h. Some 4096), fuzz_mkstemp = (\<lambda>h _. Inr (length h + 3, [0x2F, 0x74])), fuzz_unlink = (\<lambda>_ _. Inr ())\<rparr>"

definition sample_random :: "nat c_random" where
  "sample_random = \<lparr>c_srand = (\<lambda>seed. unat seed), c_rand = (\<lambda>g. (int (g mod 100), Suc g))\<rparr>"

lemma sample_random_ok: "rand_ok sample_random"
proof -
  have "g mod 100 < 2147483648" for g :: nat by (rule order.strict_trans [of _ 100]) simp_all
  then show ?thesis by (simp add: rand_ok_def sample_random_def)
qed

text \<open>The arguments \<^verbatim>\<open>fuzz 12 7\<close>.\<close>

theorem fuzzing_finds_nothing_witness:
  "(\<exists>w'. fuzz_bc_io_file_inode_set calm_env sample_fuzz (replicate 40 5) initial_world = Some (0, w') \<and>
      (\<forall>r. balance (trace w') r = balance (trace initial_world) r)) \<and>
   fuzz_bc_io_file_path_join calm_env [] (replicate 40 5) = Some 0 \<and>
   (\<exists>w'. main_bc_io_file_inode_set calm_env sample_fuzz sample_random [[0x66], [0x31, 0x32], [0x37]] initial_world = Some (0, w') \<and>
      (\<forall>r. balance (trace w') r = balance (trace initial_world) r)) \<and> strtoul [0x31, 0x32] = 12"
  using fuzzing_finds_nothing [OF calm_env_ok(1,5) _ sample_random_ok, of "replicate 40 5" 0 "[[0x66], [0x31, 0x32], [0x37]]" sample_fuzz
      initial_world "[]" 0 heap_start]
  by (simp add: strtoul_def c_isspace_def c_isdigit_def)

end
