(* ===== verification/Spec2Isabelle.thy ===== *)
theory Spec2Isabelle
  imports IO_Perm IO_Inode_Set IO_Stream_Write IO_Stream_Read IO_File_Stat IO_Random IO_File_Reading IO_Stream_Life IO_Walk_Par_Tree IO_Fuzz_Main
begin

text \<open>
  A model of bc-io, a Linux I/O library in C11, and its verification.

  \<^bold>\<open>The program.\<close> bc-io has a small layer over system calls (\<^verbatim>\<open>src/stream/bc_io_stream_io.c\<close>: reads and writes that are repeated until the
  requested size is there) under the buffered streams (\<^verbatim>\<open>src/stream/bc_io_stream*.c\<close>) over files, descriptors and memory;
  memory mapped files (\<^verbatim>\<open>src/mmap/bc_io_mmap.c\<close>), whose contents are read through a memory stream; the read handles of
  \<^verbatim>\<open>src/file/bc_io_file_open.c\<close>, which choose between a buffered stream and a mapping by the size of the file; a reader for
  directory entries (\<^verbatim>\<open>src/file/bc_io_dirent_reader.c\<close>) over the raw records of \<^verbatim>\<open>getdents64\<close>; path helpers, file status and the
  current directory (\<^verbatim>\<open>src/file/bc_io_file_path.c\<close>, \<^verbatim>\<open>bc_io_file_stat.c\<close>, \<^verbatim>\<open>src/path/bc_io_path.c\<close>); a hash set of inodes
  (\<^verbatim>\<open>src/file/bc_io_file_inode.c\<close>); mode strings and user names (\<^verbatim>\<open>src/perm/bc_io_perm.c\<close>); random bytes (\<^verbatim>\<open>src/random/bc_io_random.c\<close>);
  and, on top of the directory reader and the path helpers, the walks of a directory tree: \<^verbatim>\<open>src/walk/bc_io_walk_sequential.c\<close>, recursive and in
  one thread, and \<^verbatim>\<open>src/walk/bc_io_walk_parallel.c\<close>, where workers share a queue of directories. Both call the callbacks of the caller.

  \<^bold>\<open>The world.\<close> \<open>IO_Env\<close> has the parameters of the model: the record \<open>io_env\<close> of the answers of the kernel, of the pool and
  arena allocators of bc-allocators and of the helpers of bc-core, each a function of the history of calls. The history (\<open>trace\<close>) and
  \<^verbatim>\<open>errno\<close> are the state every operation passes on; what is still held (\<open>balance\<close>) and what was delivered is read off the history.
  What the code relies on is stated as predicates (\<open>bc_core_ok\<close>, \<open>reads_bounded\<close>, \<open>getdents_wellformed\<close>, \<open>descriptors_fresh\<close>, \<dots>), assumed
  by the theorems that need them; every such theorem has an instance on a concrete environment beside it. The user database
  (\<^verbatim>\<open>getpwuid_r\<close> and its siblings) is the parameter \<open>name_service\<close>, bc-concurrency the parameter \<open>bc_concurrency\<close>, and the callbacks of a
  walk are functions of the history whose calls are recorded. Words are at their C widths and wrap; a loop that might not end is a
  \<^theory_text>\<open>partial_function\<close>, so that \<open>None\<close> is a loop that does not end or undefined behaviour such as an access outside an
  array, and the theorems state that the result is \<open>Some\<close>: there is no fuel anywhere.

  \<^bold>\<open>The theories.\<close> Operations carry the names of the C functions, structures are records with the fields of the source.
  \<^item> \<open>IO_Prelude\<close>: machine types, byte lists, the loop combinator \<open>iterate\<close> and its rules.
  \<^item> \<open>IO_Perm\<close>: printing and parsing of modes (the locale \<open>mode_codec\<close> gives the round trips), names and ids.
  \<^item> \<open>IO_Probing\<close>: linear probing in general (locale \<open>probing\<close>); \<open>IO_Inode_Set\<close>: the inode set, well-formedness, and
    that it refines an abstract machine of set operations (locale \<open>key_set\<close>, relation \<open>set_session\<close>), which insertions grow the table, and which fail.
  \<^item> \<open>IO_Stream_Io\<close>: \<^verbatim>\<open>read_full\<close> and \<^verbatim>\<open>write_full\<close> end and move exactly the bytes the kernel moved. \<open>IO_Stream\<close>: the stream record and
    all operations, opening and closing balanced. \<open>IO_Stream_Write\<close> (locales \<open>byte_sink\<close>, \<open>reliable_sink\<close>): no accepted byte is lost, and a
    whole session delivers the concatenation of its data. \<open>IO_Stream_Read\<close> (locales \<open>chunk_source\<close>, \<open>finite_source\<close>): the chunks of a stream
    are exactly the contents of the file or of the memory region. \<open>IO_Stream_Life\<close>: the life of a stream as a state machine, whose reachable
    states are well formed and never stuck: every operation returns from each of them.
  \<^item> \<open>IO_Path\<close>, \<open>IO_File_Stat\<close>, \<open>IO_Random\<close>: joined paths and their bounds, opening without following links, status fields, and
    random bytes with the fallback device.
  \<^item> \<open>IO_Mmap\<close> and \<open>IO_File_Open\<close>: maps and read handles live in a heap of objects of the world, since they share streams; their
    life cycles give back what they acquired, except the descriptor that a buffered handle never closes. \<open>IO_File_Reading\<close>: the stream of a
    handle gives the contents of the file, buffered or mapped; the property is at the end of this theory, since it spans opening, mapping and streams.
  \<^item> \<open>IO_Dirent\<close>: the reader hands out exactly the records the kernel stored, without \<^verbatim>\<open>.\<close> and \<^verbatim>\<open>..\<close>, and no load leaves its buffer.
  \<^item> \<open>IO_Walk\<close>: what the walks share (configuration, entries, statistics, the type and status of an entry). \<open>IO_Walk_Seq\<close>: the
    sequential walk; it ends for every kernel with finite listings, since paths are shorter than 4096 bytes and grow by every
    level, also on cycles of links; its arguments, its counters, its result and where it goes. \<open>IO_Walk_Tree\<close>: on a file system at rest it visits exactly the
    entries of a recursive specification, in its order. At rest (\<open>presents\<close>) means that every listed entry has a status and that allocations
    succeed, so links that lead nowhere are in the other theorems of the walks and not in this one.
  \<^item> \<open>IO_Interleave\<close>: threads that take turns, with the locales \<open>invariant_steps\<close>, \<open>account\<close>, \<open>exact_account\<close> and \<open>fair_progress\<close>.
    \<open>IO_Walk_Par\<close>: the parallel walk as workers whose atomic actions (one access to a shared variable, one queue operation, one call) are
    interleaved by an arbitrary schedule. \<open>IO_Walk_Par_Count\<close>: the shared counters as accounts, and that every refused reader is reported. \<open>IO_Walk_Par_Inv\<close>: where the
    directories lie, and that no two workers use the same descriptor. \<open>IO_Walk_Par_Live\<close>: \<^verbatim>\<open>outstanding_directory_count\<close> and progress
    under every fair schedule. \<open>IO_Walk_Par_End\<close>: the walk as a whole returns, leaks nothing, counts right, and fails
    exactly when a visit was refused, a worker had no reader or the tasks were not dispatched.
    \<open>IO_Walk_Par_Tree\<close>: it visits the same entries as the sequential walk, each exactly once.
  \<^item> \<open>IO_Fuzz\<close>: the fuzzing entry points (\<^verbatim>\<open>fuzzing/*.c\<close>) as clients of the library, which are safe on every input. \<open>IO_Fuzz_Main\<close>: the programs
    around them (locale \<open>safe_entry\<close>), which end for every argument list and every sequence of numbers from \<^verbatim>\<open>rand\<close>.

  \<^bold>\<open>Bounds.\<close> The counter of outstanding directories is a C \<^verbatim>\<open>int\<close>: that zero means that no work is left needs the capacity of the queue plus two
  directories per worker to stay below \<open>2 ^ 32\<close>. The statistics wrap at 64 bits, and so do the counts they are compared with. A capacity above
  \<open>2 ^ 63\<close> makes the creation of an inode set run forever, which is proved too.

  \<^bold>\<open>What is not modelled.\<close> The interleavings of the parallel walk are sequentially consistent; the weaker orders the C11 memory model allows for
  its relaxed accesses are outside the model, and so is the pause of a worker that found the queue empty (\<^verbatim>\<open>bc_core_spin_pause\<close>). Callbacks may depend
  on everything that happened but do not call the library back; their \<^verbatim>\<open>user_data\<close> pointers are part of them. Tests (\<^verbatim>\<open>tests/\<close>) and
  benchmarks (\<^verbatim>\<open>benchmarks/\<close>) only call the library and have no logic of their own; of the headers the types are modelled and the prototypes have
  no content. The generator behind \<^verbatim>\<open>rand\<close> is a parameter, and the usage text of the fuzzing programs is not an event. The library and its callers are
  modelled in one process; what other processes do is the choice of the environment.
\<close>

section \<open>Properties across components\<close>

text \<open>
  C5 Reading a file through a read handle. Let a regular file be behind the descriptor that \<^verbatim>\<open>bc_io_file_open_auto\<close> gets for its path. When the call
  succeeds, the handle tells the length of the file, and taking chunks from the stream of the handle until it has no more gives non-empty chunks whose
  concatenation is exactly the contents, whether the file was below the threshold and is read through a buffer, split and interrupted by the
  kernel as it likes, or above and is read from the mapping; more calls than the file has bytes are enough. Destroying the handle
  afterwards returns and gives back everything acquired, except the descriptor of a buffered handle.
\<close>

theorem open_auto_reads_file:
  fixes w :: "'w heap_world_scheme"
  assumes "bc_core_ok env" and "read_env_ok env" and "addresses_ok env"
    and "bc_io_file_open_resolve_descriptor env path options w = (Some fd, w0)" and "file_behind env memory fd content"
    and "os_delivered (trace w) fd = []" and "unat (open_buffer_size options) + 63 < 2 ^ 64"
    and "bc_io_file_open_auto env ctx path threshold options w = Some (Some h, w1)" and "k > length content"
  shows "\<exists>s bss s' w2 w3. unat (bc_io_file_read_handle_get_size h) = length content \<and>
    streams w1 (bc_io_file_read_handle_get_stream h) = Some s \<and>
    take_chunks (next_bytes env) k (region_of memory s, s) w1 = Some (bss, True, (region_of memory s, s'), w2) \<and>
    concat bss = content \<and> [] \<notin> set bss \<and> bc_io_stream_is_end_of_stream s' \<and>
    bc_io_file_read_handle_destroy env h (place_stream s' w2) = Some w3 \<and>
    (\<forall>r. balance (trace w3) r = balance (trace w) r + of_bool (\<not> bc_io_file_read_handle_is_memory_mapped h \<and> r = Descriptor fd))"
proof -
  obtain s where s: "streams w1 (handle_stream h) = Some s" "stream_before env memory content s w1"
      "unat (handle_file_size h) = length content" "open_outcome fd w (Some h) w1"
    by (rule handle_stream_before [OF assms(1,3-8)])
  obtain bss s' w2 where t: "take_chunks (next_bytes env) k (region_of memory s, s) w1 = Some (bss, True, (region_of memory s, s'), w2)"
      "concat bss = content" "[] \<notin> set bss" "bc_io_stream_is_end_of_stream s'" "stream_ok s'" "stream_frame s' = stream_frame s"
      "balance (trace w2) = balance (trace w1)"
    by (rule read_to_end [OF assms(2) s(2) assms(9)])
  obtain w3 where "bc_io_file_read_handle_destroy env h (place_stream s' w2) = Some w3"
      "\<And>r. balance (trace w3) r = balance (trace w) r + of_bool (\<not> bc_io_file_read_handle_is_memory_mapped h \<and> r = Descriptor fd)"
    using destroy_after_reading [OF s(1,2,4) t(5,6,7)] by blast
  then show ?thesis
    using s(1,3) t(1-4) by (auto simp: bc_io_file_read_handle_get_size_def bc_io_file_read_handle_get_stream_def)
qed

theorem open_auto_reads_file_witness:
  "\<exists>h w1 s bss s' w2 w3. bc_io_file_open_auto shared_file_env 1 [97] 2 open_options heap_start = Some (Some h, w1) \<and>
    bc_io_file_read_handle_is_memory_mapped h \<and> unat (bc_io_file_read_handle_get_size h) = length [10, 20, 30 :: u8] \<and>
    streams w1 (bc_io_file_read_handle_get_stream h) = Some s \<and>
    take_chunks (next_bytes shared_file_env) 4 (region_of shared_memory s, s) w1 = Some (bss, True, (region_of shared_memory s, s'), w2) \<and>
    concat bss = [10, 20, 30] \<and> [] \<notin> set bss \<and> bc_io_stream_is_end_of_stream s' \<and>
    bc_io_file_read_handle_destroy shared_file_env h (place_stream s' w2) = Some w3 \<and>
    (\<forall>r. balance (trace w3) r = balance (trace heap_start) r)"
proof -
  obtain h w1 where h: "bc_io_file_open_auto shared_file_env 1 [97] 2 open_options heap_start = Some (Some h, w1)"
      "bc_io_file_read_handle_is_memory_mapped h"
    using shared_file_opens by blast
  show ?thesis
    using open_auto_reads_file [OF shared_file_env_ok(1-3) shared_file_resolves shared_file_env_ok(4) _ _ h(1), of 4] h
    by (simp add: heap_start_def open_options_def)
qed

end
